(* ===== verification/Prelude.thy ===== *)
theory Prelude
  imports Main "HOL-Library.Word"
begin

text \<open>
  Shared ground of the development: the machine types of the Rust sources, the
  byte encodings of the standard library (\<^verbatim>\<open>to_le_bytes\<close>,
  \<^verbatim>\<open>to_be_bytes\<close>), the interface of a fixed-width encoding as a locale with its
  interpretations, the saturating operations, and the generic facts on lists and words that
  the components use.
\<close>

named_theorems codec_simps \<open>lengths and injectivity of the fixed-width byte encodings\<close>
named_theorems frame_simps \<open>fields an operation leaves alone\<close>

type_synonym u8 = "8 word"
type_synonym u32 = "32 word"
type_synonym u64 = "64 word"
type_synonym bytes = "u8 list"

text \<open>
  \<^verbatim>\<open>[u8; 32]\<close> is a 256-bit word, read as 32 bytes with the first byte most
  significant; the array of zeros is the word 0.
\<close>

type_synonym digest = "256 word"

subsection \<open>Byte order\<close>

fun le_bytes :: "nat \<Rightarrow> 'a::len word \<Rightarrow> bytes" where
  "le_bytes 0 w = []"
| "le_bytes (Suc k) w = ucast w # le_bytes k (drop_bit 8 w)"

fun le_nat :: "bytes \<Rightarrow> nat" where
  "le_nat [] = 0"
| "le_nat (b # bs) = unat b + 256 * le_nat bs"

definition of_le_bytes :: "bytes \<Rightarrow> 'a::len word" where
  "of_le_bytes bs = of_nat (le_nat bs)"

definition u32_le :: "u32 \<Rightarrow> bytes" where "u32_le w = le_bytes 4 w"
definition u64_le :: "u64 \<Rightarrow> bytes" where "u64_le w = le_bytes 8 w"
definition u32_be :: "u32 \<Rightarrow> bytes" where "u32_be w = rev (le_bytes 4 w)"
definition u32_from_be :: "bytes \<Rightarrow> u32" where "u32_from_be bs = of_le_bytes (rev bs)"
definition digest_bytes :: "digest \<Rightarrow> bytes" where "digest_bytes d = rev (le_bytes 32 d)"

subsection \<open>Saturating operations on unsigned integers\<close>

definition saturating_sub :: "'a::len word \<Rightarrow> 'a word \<Rightarrow> 'a word" where
  "saturating_sub a b = (if b \<le> a then a - b else 0)"

definition saturating_mul :: "'a::len word \<Rightarrow> 'a word \<Rightarrow> 'a word" where
  "saturating_mul a b = (if unat a * unat b < 2 ^ LENGTH('a) then a * b else - 1)"

subsection \<open>Results with an error\<close>

fun sum_bind :: "'e + 'a \<Rightarrow> ('a \<Rightarrow> 'e + 'b) \<Rightarrow> 'e + 'b" where
  "sum_bind (Inl e) f = Inl e"
| "sum_bind (Inr x) f = f x"

lemma sum_bind_Inr_iff: "sum_bind x f = Inr y \<longleftrightarrow> (\<exists>a. x = Inr a \<and> f a = Inr y)"
  by (cases x) auto

subsection \<open>Fixed-width encodings as an interface\<close>

text \<open>
  What every client of an encoding relies on: decoding undoes encoding, and every code word
  has the same positive length. Injectivity, prefix-freeness and injectivity of the
  concatenation of code words follow once and for all.
\<close>

locale fixed_codec =
  fixes enc :: "'a \<Rightarrow> bytes" and dec :: "bytes \<Rightarrow> 'a" and width :: nat
  assumes dec_enc: "dec (enc x) = x"
    and enc_length: "length (enc x) = width"
    and width_pos: "0 < width"
begin

lemma enc_inject: "enc x = enc y \<longleftrightarrow> x = y"
  by (metis dec_enc)

lemma enc_append_inject: "enc x @ r = enc y @ s \<longleftrightarrow> x = y \<and> r = s"
  by (metis append_eq_append_conv dec_enc enc_length)

lemma dec_take: "dec (take width (enc x @ r)) = x"
  by (simp add: dec_enc enc_length)

lemma enc_nonempty: "enc x \<noteq> []"
  using width_pos enc_length by (metis length_greater_0_conv)

lemma length_concat_enc: "length (concat (map enc xs)) = width * length xs"
  by (induction xs) (auto simp: enc_length)

lemma concat_enc_inject: "concat (map enc xs) = concat (map enc ys) \<longleftrightarrow> xs = ys"
proof (induction xs arbitrary: ys)
  case Nil
  show ?case using enc_nonempty by (cases ys) auto
next
  case (Cons x xs)
  show ?case
  proof (cases ys)
    case Nil
    then show ?thesis using enc_nonempty by simp
  next
    case (Cons y zs)
    then show ?thesis using Cons.IH by (simp add: enc_append_inject)
  qed
qed

end

lemma length_le_bytes [simp]: "length (le_bytes k w) = k"
  by (induction k arbitrary: w) auto

lemma le_nat_le_bytes: "le_nat (le_bytes k w) = unat w mod 256 ^ k"
proof (induction k arbitrary: w)
  case 0
  then show ?case by simp
next
  case (Suc k)
  have low: "unat (ucast w :: u8) = unat w mod 256"
    by (simp add: unsigned_ucast_eq take_bit_eq_mod)
  have high: "unat (drop_bit 8 w) = unat w div 256"
    by (simp only: unat_drop_bit_eq) (simp add: drop_bit_eq_div)
  have "le_nat (le_bytes (Suc k) w) = unat w mod 256 + 256 * (unat w div 256 mod 256 ^ k)"
    using Suc.IH low high by simp
  also have "\<dots> = unat w mod (256 * 256 ^ k)"
    by (simp add: mod_mult2_eq)
  finally show ?case by simp
qed

lemma of_le_bytes_le_bytes:
  assumes "LENGTH('a::len) = 8 * k"
  shows "of_le_bytes (le_bytes k (w :: 'a word)) = w"
proof -
  have "unat w < 2 ^ LENGTH('a)" by (rule unsigned_less)
  moreover have "(2::nat) ^ LENGTH('a) = 256 ^ k"
    using assms by (simp add: power_mult)
  ultimately have "unat w mod 256 ^ k = unat w" by simp
  then show ?thesis
    by (simp add: of_le_bytes_def le_nat_le_bytes)
qed

interpretation u32_le: fixed_codec u32_le of_le_bytes 4
  by unfold_locales (simp_all add: u32_le_def of_le_bytes_le_bytes)

interpretation u64_le: fixed_codec u64_le of_le_bytes 8
  by unfold_locales (simp_all add: u64_le_def of_le_bytes_le_bytes)

interpretation u32_be: fixed_codec u32_be u32_from_be 4
  by unfold_locales (simp_all add: u32_be_def u32_from_be_def of_le_bytes_le_bytes)

interpretation digest_code: fixed_codec digest_bytes "\<lambda>bs. of_le_bytes (rev bs)" 32
  by unfold_locales (simp_all add: digest_bytes_def of_le_bytes_le_bytes)

lemmas codec_lengths [codec_simps] =
  u32_le.enc_length u64_le.enc_length u32_be.enc_length digest_code.enc_length

lemmas codec_injects [codec_simps] =
  u32_le.enc_inject u64_le.enc_inject u32_be.enc_inject digest_code.enc_inject
  u32_le.enc_append_inject u64_le.enc_append_inject u32_be.enc_append_inject
  digest_code.enc_append_inject

subsection \<open>Words\<close>

lemma unat_add_no_overflow:
  fixes a b :: "'a::len word"
  shows "unat a + unat b < 2 ^ LENGTH('a) \<Longrightarrow> unat (a + b) = unat a + unat b"
  by (rule unat_add_lem [THEN iffD1])

lemma unat_sub_le:
  fixes a b :: "'a::len word"
  shows "b \<le> a \<Longrightarrow> unat (a - b) = unat a - unat b"
  by (rule unat_sub)

lemma word_less_Suc_le:
  fixes a b :: "'a::len word"
  shows "unat b + 1 < 2 ^ LENGTH('a) \<Longrightarrow> a \<le> b \<Longrightarrow> a < b + 1"
  by (simp add: word_less_nat_alt word_le_nat_alt unat_add_no_overflow)

lemma min_mult_absorb:
  assumes "0 < (m :: nat)"
  shows "min (min x c * m) c = min (x * m) c"
proof (cases "x \<le> c")
  case False
  have "c \<le> c * m" and "c * m \<le> x * m" using assms False by simp_all
  then have "c \<le> x * m" by linarith
  then show ?thesis using False \<open>c \<le> c * m\<close> by (metis min.absorb2 nle_le)
qed simp

lemma unat_saturating_sub: "unat (saturating_sub a b) = unat a - unat b"
  by (auto simp: saturating_sub_def unat_sub_le word_le_nat_alt)

lemma unat_saturating_mul:
  fixes a b :: "'a::len word"
  shows "unat (saturating_mul a b) = min (unat a * unat b) (2 ^ LENGTH('a) - 1)"
proof (cases "unat a * unat b < 2 ^ LENGTH('a)")
  case True
  then show ?thesis
    by (auto simp: saturating_mul_def unat_mult_lem [THEN iffD1])
next
  case False
  then show ?thesis
    by (auto simp: saturating_mul_def unsigned_minus_1_eq_mask mask_eq_exp_minus_1)
qed

lemma mod_add_cancel_less:
  fixes a d e N :: nat
  assumes "(a + e) mod N = (a + d) mod N" and "e < N" and "d < N"
  shows "e = d"
proof (cases "e \<le> d")
  case True
  then have "N dvd d - e"
    using assms(1) mod_eq_dvd_iff_nat [of "a + e" "a + d" N] by simp
  then show ?thesis using assms True by (auto dest: dvd_imp_le)
next
  case False
  then have "N dvd e - d"
    using assms(1) mod_eq_dvd_iff_nat [of "a + d" "a + e" N] by simp
  then show ?thesis using assms False by (auto dest: dvd_imp_le)
qed

subsection \<open>Lists\<close>

lemma map_of_Some_in_fst: "map_of m k = Some v \<Longrightarrow> k \<in> fst ` set m"
  by (metis domI dom_map_of_conv_image_fst)

lemma distinct_card_length: "distinct xs \<Longrightarrow> card (set xs) = length xs"
  by (rule distinct_card)

subsection \<open>Splitting strings\<close>

text \<open>\<^verbatim>\<open>str::split\<close> on a character.\<close>

fun split_on :: "char \<Rightarrow> string \<Rightarrow> string list" where
  "split_on sep [] = [[]]"
| "split_on sep (c # cs) =
     (if c = sep then [] # split_on sep cs
      else (case split_on sep cs of [] \<Rightarrow> [[c]] | w # ws \<Rightarrow> (c # w) # ws))"

lemma split_on_plain: "sep \<notin> set s \<Longrightarrow> split_on sep s = [s]"
  by (induction s) auto

lemma split_on_append: "sep \<notin> set s \<Longrightarrow> split_on sep (s @ sep # t) = s # split_on sep t"
  by (induction s) auto

end
