(* ===== verification/Collections.thy ===== *)
theory Collections
  imports Prelude "HOL-Library.AList" "HOL-Library.Multiset"
begin

text \<open>
  The standard-library containers the sources use: \<^verbatim>\<open>HashMap\<close> and
  \<^verbatim>\<open>HashSet\<close> as lists with distinct keys (the iteration order of a hash map is
  unspecified, so code that iterates takes the order from a permutation of the keys, see
  \<open>iterates\<close>), and \<^verbatim>\<open>BTreeMap\<close> as a strictly sorted list of entries. Both
  maps implement the dictionary interface \<open>dict\<close>, in which the facts on lookups, sizes
  and initialisation loops are proved once.
\<close>

type_synonym ('k, 'v) hashmap = "('k \<times> 'v) list"

definition hm_empty :: "('k, 'v) hashmap" where "hm_empty = []"
definition hm_get :: "('k, 'v) hashmap \<Rightarrow> 'k \<Rightarrow> 'v option" where "hm_get m k = map_of m k"
definition hm_insert :: "'k \<Rightarrow> 'v \<Rightarrow> ('k, 'v) hashmap \<Rightarrow> ('k, 'v) hashmap" where
  "hm_insert k v m = AList.update k v m"
definition hm_remove :: "'k \<Rightarrow> ('k, 'v) hashmap \<Rightarrow> ('k, 'v) hashmap" where
  "hm_remove k m = AList.delete k m"
definition hm_keys :: "('k, 'v) hashmap \<Rightarrow> 'k list" where "hm_keys m = map fst m"
definition hm_len :: "('k, 'v) hashmap \<Rightarrow> nat" where "hm_len m = length m"
definition hm_ok :: "('k, 'v) hashmap \<Rightarrow> bool" where "hm_ok m = distinct (map fst m)"

definition hs_insert :: "'a \<Rightarrow> 'a list \<Rightarrow> 'a list" where
  "hs_insert x xs = (if x \<in> set xs then xs else xs @ [x])"

text \<open>An iteration order: any rearrangement of the keys.\<close>

definition iterates :: "('a list \<Rightarrow> 'a list) \<Rightarrow> bool" where
  "iterates ord \<longleftrightarrow> (\<forall>xs. mset (ord xs) = mset xs)"

type_synonym ('k, 'v) btreemap = "('k \<times> 'v) list"

definition bt_empty :: "('k::linorder, 'v) btreemap" where "bt_empty = []"

fun bt_get :: "('k::linorder, 'v) btreemap \<Rightarrow> 'k \<Rightarrow> 'v option" where
  "bt_get [] k = None"
| "bt_get ((a, b) # m) k = (if k < a then None else if k = a then Some b else bt_get m k)"

fun bt_insert :: "'k::linorder \<Rightarrow> 'v \<Rightarrow> ('k, 'v) btreemap \<Rightarrow> ('k, 'v) btreemap" where
  "bt_insert k v [] = [(k, v)]"
| "bt_insert k v ((a, b) # m) =
     (if k < a then (k, v) # (a, b) # m
      else if k = a then (k, v) # m
      else (a, b) # bt_insert k v m)"

definition bt_len :: "('k::linorder, 'v) btreemap \<Rightarrow> nat" where "bt_len m = length m"
definition bt_ok :: "('k::linorder, 'v) btreemap \<Rightarrow> bool" where
  "bt_ok m = sorted_wrt (<) (map fst m)"

subsection \<open>The dictionary interface\<close>

locale dict =
  fixes empty :: 'm
    and get :: "'m \<Rightarrow> 'k \<Rightarrow> 'v option"
    and insert :: "'k \<Rightarrow> 'v \<Rightarrow> 'm \<Rightarrow> 'm"
    and len :: "'m \<Rightarrow> nat"
    and ok :: "'m \<Rightarrow> bool"
  assumes ok_empty: "ok empty"
    and ok_insert: "ok m \<Longrightarrow> ok (insert k v m)"
    and get_empty: "get empty k = None"
    and get_insert: "ok m \<Longrightarrow> get (insert k v m) j = (if j = k then Some v else get m j)"
    and finite_dom: "ok m \<Longrightarrow> finite (dom (get m))"
    and len_card: "ok m \<Longrightarrow> len m = card (dom (get m))"
begin

lemma get_insert_map: "ok m \<Longrightarrow> get (insert k v m) = (get m)(k \<mapsto> v)"
  by (rule ext) (simp add: get_insert)

lemma len_insert:
  "ok m \<Longrightarrow> len (insert k v m) = (if get m k = None then Suc (len m) else len m)"
  using finite_dom [of m]
  by (auto simp: len_card ok_insert get_insert_map insert_absorb domIff domI)

lemma len_insert_le: "ok m \<Longrightarrow> len (insert k v m) \<le> Suc (len m)"
  by (simp add: len_insert)

lemma ok_fill: "ok m \<Longrightarrow> ok (fold (\<lambda>k. insert k v) ks m)"
  by (induction ks arbitrary: m) (auto simp: ok_insert)

lemma get_fill:
  "ok m \<Longrightarrow> get (fold (\<lambda>k. insert k v) ks m) j = (if j \<in> set ks then Some v else get m j)"
  by (induction ks arbitrary: m) (auto simp: ok_insert get_insert)

lemma len_fill: "len (fold (\<lambda>k. insert k v) ks empty) = card (set ks)"
proof -
  let ?m = "fold (\<lambda>k. insert k v) ks empty"
  have "dom (get ?m) = set ks"
    by (auto simp: get_fill ok_empty get_empty dom_def split: if_splits)
  then show ?thesis by (simp add: len_card ok_fill ok_empty)
qed

end

subsection \<open>Hash maps\<close>

lemma hm_get_insert_raw: "hm_get (hm_insert k v m) j = (if j = k then Some v else hm_get m j)"
  by (simp add: hm_get_def hm_insert_def update_conv')

lemma hm_get_remove: "hm_get (hm_remove k m) j = (if j = k then None else hm_get m j)"
  by (simp add: hm_get_def hm_remove_def delete_conv')

lemma hm_get_empty: "hm_get hm_empty k = None"
  by (simp add: hm_get_def hm_empty_def)

lemmas hm_gets [simp] = hm_get_empty hm_get_insert_raw hm_get_remove

lemma hm_ok_empty [simp]: "hm_ok hm_empty"
  by (simp add: hm_ok_def hm_empty_def)

lemma hm_ok_insert [simp]: "hm_ok m \<Longrightarrow> hm_ok (hm_insert k v m)"
  by (simp add: hm_ok_def hm_insert_def distinct_update)

lemma hm_get_mem: "hm_ok m \<Longrightarrow> hm_get m k = Some v \<longleftrightarrow> (k, v) \<in> set m"
  by (simp add: hm_ok_def hm_get_def map_of_eq_Some_iff)

lemma hm_keys_dom: "set (hm_keys m) = dom (hm_get m)"
  by (auto simp: hm_keys_def hm_get_def [abs_def] dom_map_of_conv_image_fst)

interpretation hash_dict: dict hm_empty hm_get hm_insert hm_len hm_ok
proof
  fix m :: "('a, 'b) hashmap"
  assume ok: "hm_ok m"
  show "finite (dom (hm_get m))"
    by (simp add: hm_keys_dom [symmetric])
  show "hm_len m = card (dom (hm_get m))"
    using distinct_card [of "map fst m"] ok
    by (simp add: hm_len_def hm_ok_def hm_keys_dom [symmetric] hm_keys_def)
qed simp_all

lemma hs_insert_set [simp]: "set (hs_insert x xs) = insert x (set xs)"
  by (auto simp: hs_insert_def)

lemma iterates_set: "iterates ord \<Longrightarrow> set (ord xs) = set xs"
  by (metis iterates_def set_mset_mset)

lemma iterates_distinct: "iterates ord \<Longrightarrow> distinct (ord xs) \<longleftrightarrow> distinct xs"
  by (metis iterates_def mset_eq_imp_distinct_iff)

lemma iterates_length: "iterates ord \<Longrightarrow> length (ord xs) = length xs"
  by (metis iterates_def size_mset)

lemma iterates_id: "iterates (\<lambda>xs. xs)"
  by (simp add: iterates_def)

subsection \<open>B-tree maps\<close>

lemma bt_ok_Cons:
  "bt_ok ((a, b) # m) \<longleftrightarrow> bt_ok m \<and> (\<forall>k \<in> fst ` set m. a < k)"
  by (auto simp: bt_ok_def)

lemma fst_set_bt_insert: "fst ` set (bt_insert k v m) = insert k (fst ` set m)"
proof (induction m)
  case (Cons p m)
  then show ?case by (cases p) auto
qed simp

lemma bt_ok_insert: "bt_ok m \<Longrightarrow> bt_ok (bt_insert k v m)"
  by (induction m) (auto simp: bt_ok_Cons fst_set_bt_insert, auto simp: bt_ok_def)

lemma bt_get_map_of: "bt_ok m \<Longrightarrow> bt_get m k = map_of m k"
proof (induction m)
  case Nil
  then show ?case by simp
next
  case (Cons p m)
  obtain a b where p: "p = (a, b)" by force
  have "k < a \<Longrightarrow> map_of m k = None"
    using Cons.prems p by (auto simp: bt_ok_Cons map_of_eq_None_iff)
  then show ?case using Cons p by (auto simp: bt_ok_Cons)
qed

lemma map_of_bt_insert: "bt_ok m \<Longrightarrow> map_of (bt_insert k v m) = (map_of m)(k \<mapsto> v)"
  by (induction m) (auto simp: bt_ok_Cons fun_eq_iff)

interpretation btree_dict: dict bt_empty bt_get bt_insert bt_len bt_ok
proof
  fix m :: "('a::linorder, 'b) btreemap"
  assume ok: "bt_ok m"
  have get: "bt_get m = map_of m" by (rule ext) (simp add: bt_get_map_of ok)
  show "finite (dom (bt_get m))" by (simp add: get finite_dom_map_of)
  have "distinct (map fst m)" using ok by (simp add: bt_ok_def strict_sorted_iff)
  then show "bt_len m = card (dom (bt_get m))"
    using distinct_card [of "map fst m"] by (simp add: bt_len_def get dom_map_of_conv_image_fst)
qed (auto simp: bt_empty_def bt_ok_def [of "[]"] bt_ok_insert bt_get_map_of map_of_bt_insert)

text \<open>A sorted list is determined by its lookups: map equality is list equality.\<close>

lemma bt_eqI:
  assumes "bt_ok m" and "bt_ok m'" and "\<And>k. bt_get m k = bt_get m' k"
  shows "m = m'"
proof -
  have eq: "map_of m = map_of m'"
    using assms by (auto simp: bt_get_map_of fun_eq_iff)
  have d: "distinct (map fst m)" "distinct (map fst m')" "sorted (map fst m)" "sorted (map fst m')"
    using assms by (auto simp: bt_ok_def strict_sorted_iff)
  then have "set m = set m'"
    using eq by (metis map_of_inject_set)
  then show ?thesis
    using d map_sorted_distinct_set_unique [of fst m m'] by (auto simp: distinct_map)
qed

end
