(* ===== verification/Ledger.thy ===== *)
theory Ledger
  imports Collections
begin

text \<open>
  The state-transition function of \<^verbatim>\<open>crates/ledger-core/src/lib.rs\<close>: transfers
  between accounts, the Merkle root of the balances, the hash of a transaction list, and the
  guest program of \<^verbatim>\<open>zkvm/program/src/main.rs\<close> that commits to one block.
  SHA-256 is a parameter \<open>sha\<close>; arithmetic on balances is that of a release build
  (\<open>u64\<close> addition wraps). A panic of \<^verbatim>\<open>compute_state_root\<close> (an index out of
  range) is \<open>None\<close>.
\<close>

subsection \<open>Transactions and balances\<close>

record Tx =
  tx_from :: u32
  tx_to :: u32
  tx_amount :: u64

record State =
  balances :: "(u32, u64) btreemap"

definition State_new :: State where
  "State_new = \<lparr>balances = bt_empty\<rparr>"

definition get_balance :: "State \<Rightarrow> u32 \<Rightarrow> u64" where
  "get_balance s account = (case bt_get (balances s) account of Some b \<Rightarrow> b | None \<Rightarrow> 0)"

definition set_balance :: "State \<Rightarrow> u32 \<Rightarrow> u64 \<Rightarrow> State" where
  "set_balance s account amount = s\<lparr>balances := bt_insert account amount (balances s)\<rparr>"

definition tx_applies :: "State \<Rightarrow> Tx \<Rightarrow> bool" where
  "tx_applies s tx \<longleftrightarrow>
     tx_amount tx \<le> get_balance s (tx_from tx) \<and> tx_amount tx > 0 \<and> tx_from tx \<noteq> tx_to tx"

definition apply_tx :: "State \<Rightarrow> Tx \<Rightarrow> State" where
  "apply_tx s tx =
     (let from_bal = get_balance s (tx_from tx);
          s1 = set_balance s (tx_from tx) (from_bal - tx_amount tx);
          to_bal = get_balance s1 (tx_to tx)
      in set_balance s1 (tx_to tx) (to_bal + tx_amount tx))"

fun apply_txs :: "State \<Rightarrow> u32 \<Rightarrow> Tx list \<Rightarrow> State \<times> u32" where
  "apply_txs s applied [] = (s, applied)"
| "apply_txs s applied (tx # txs) =
     (if tx_applies s tx then apply_txs (apply_tx s tx) (applied + 1) txs
      else apply_txs s applied txs)"

definition apply_block :: "State \<Rightarrow> Tx list \<Rightarrow> State \<times> u32" where
  "apply_block s txs = apply_txs s 0 txs"

subsection \<open>The state root\<close>

function next_pow2_from :: "nat \<Rightarrow> nat \<Rightarrow> nat" where
  "next_pow2_from p n = (if 0 < p \<and> p < n then next_pow2_from (2 * p) n else p)"
  by pat_completeness auto
termination
  by (relation "measure (\<lambda>(p, n). n - p)") auto

declare next_pow2_from.simps [simp del]

definition next_power_of_two :: "nat \<Rightarrow> nat" where
  "next_power_of_two n = next_pow2_from 1 n"

definition leaf_bytes :: "State \<Rightarrow> nat \<Rightarrow> bytes" where
  "leaf_bytes s i = u32_le (of_nat i) @ u64_le (get_balance s (of_nat i))"

definition node_bytes :: "digest \<Rightarrow> digest \<Rightarrow> bytes" where
  "node_bytes a b = digest_bytes a @ digest_bytes b"

text \<open>
  One pass over \<^verbatim>\<open>layer.chunks(2)\<close>; a last chunk of one element makes
  \<^verbatim>\<open>pair[1]\<close> panic.
\<close>

fun pair_up :: "(bytes \<Rightarrow> digest) \<Rightarrow> digest list \<Rightarrow> digest list option" where
  "pair_up sha [] = Some []"
| "pair_up sha [x] = None"
| "pair_up sha (x # y # r) = map_option ((#) (sha (node_bytes x y))) (pair_up sha r)"

lemma pair_up_length: "pair_up sha layer = Some nxt \<Longrightarrow> length layer = 2 * length nxt"
  by (induction sha layer arbitrary: nxt rule: pair_up.induct) auto

function merkle_loop :: "(bytes \<Rightarrow> digest) \<Rightarrow> digest list \<Rightarrow> digest option" where
  "merkle_loop sha layer =
     (if 1 < length layer then
        (case pair_up sha layer of None \<Rightarrow> None | Some nxt \<Rightarrow> merkle_loop sha nxt)
      else (case layer of [] \<Rightarrow> None | x # _ \<Rightarrow> Some x))"
  by pat_completeness auto
termination
  by (relation "measure (\<lambda>(sha, layer). length layer)") (auto dest!: pair_up_length)

declare merkle_loop.simps [simp del]

definition num_leaves :: "State \<Rightarrow> nat" where
  "num_leaves s = max (next_power_of_two (bt_len (balances s))) 1"

definition leaf_layer :: "(bytes \<Rightarrow> digest) \<Rightarrow> State \<Rightarrow> digest list" where
  "leaf_layer sha s =
     map (\<lambda>i. sha (leaf_bytes s i)) [0..<unat (of_nat (num_leaves s) :: u32)]"

definition compute_state_root :: "(bytes \<Rightarrow> digest) \<Rightarrow> State \<Rightarrow> digest option" where
  "compute_state_root sha s = merkle_loop sha (leaf_layer sha s)"

subsection \<open>The transaction hash and the block commitment\<close>

definition tx_bytes :: "Tx \<Rightarrow> bytes" where
  "tx_bytes tx = u32_le (tx_from tx) @ u32_le (tx_to tx) @ u64_le (tx_amount tx)"

definition hash_transactions :: "(bytes \<Rightarrow> digest) \<Rightarrow> Tx list \<Rightarrow> digest" where
  "hash_transactions sha txs = sha (concat (map tx_bytes txs))"

record BlockCommit =
  pre_state_root :: digest
  post_state_root :: digest
  tx_hash :: digest

text \<open>\<^verbatim>\<open>main\<close> of the guest program: \<open>None\<close> when computing a root panics.\<close>

definition guest_main :: "(bytes \<Rightarrow> digest) \<Rightarrow> State \<Rightarrow> Tx list \<Rightarrow> BlockCommit option" where
  "guest_main sha state txs =
     (case compute_state_root sha state of None \<Rightarrow> None
      | Some pre \<Rightarrow>
          let txh = hash_transactions sha txs;
              new_state = fst (apply_block state txs)
          in (case compute_state_root sha new_state of None \<Rightarrow> None
              | Some post \<Rightarrow>
                  Some \<lparr>pre_state_root = pre, post_state_root = post, tx_hash = txh\<rparr>))"

subsection \<open>Reference definitions\<close>

text \<open>The total supply, and the complete binary hash tree by recursion on its depth.\<close>

definition total_supply :: "State \<Rightarrow> nat" where
  "total_supply s = sum_list (map (unat \<circ> snd) (balances s))"

definition state_ok :: "State \<Rightarrow> bool" where
  "state_ok s = bt_ok (balances s)"

fun mroot :: "(bytes \<Rightarrow> digest) \<Rightarrow> State \<Rightarrow> nat \<Rightarrow> nat \<Rightarrow> digest" where
  "mroot sha s 0 i = sha (leaf_bytes s i)"
| "mroot sha s (Suc k) i = sha (node_bytes (mroot sha s k (2 * i)) (mroot sha s k (2 * i + 1)))"

text \<open>The byte strings hashed below a node of that tree.\<close>

fun preimages :: "(bytes \<Rightarrow> digest) \<Rightarrow> State \<Rightarrow> nat \<Rightarrow> nat \<Rightarrow> bytes set" where
  "preimages sha s 0 i = {leaf_bytes s i}"
| "preimages sha s (Suc k) i =
     insert (node_bytes (mroot sha s k (2 * i)) (mroot sha s k (2 * i + 1)))
       (preimages sha s k (2 * i) \<union> preimages sha s k (2 * i + 1))"

fun depth_from :: "nat \<Rightarrow> nat \<Rightarrow> nat" where
  "depth_from 0 n = 0"
| "depth_from (Suc fuel) n = (if n \<le> 1 then 0 else Suc (depth_from fuel (n div 2)))"

definition root_depth :: "State \<Rightarrow> nat" where
  "root_depth s = depth_from (num_leaves s) (num_leaves s)"

definition root_preimages :: "(bytes \<Rightarrow> digest) \<Rightarrow> State \<Rightarrow> bytes set" where
  "root_preimages sha s = preimages sha s (root_depth s) 0"


text \<open>
  The ledger as its users see it: unbounded balances, a transfer moves \<open>amount\<close> from the
  sender to the receiver when the sender can pay, and is skipped otherwise.
\<close>

definition spec_tx :: "Tx \<Rightarrow> (u32 \<Rightarrow> nat) \<Rightarrow> (u32 \<Rightarrow> nat)" where
  "spec_tx tx bal =
     (if unat (tx_amount tx) \<le> bal (tx_from tx) \<and> tx_amount tx \<noteq> 0 \<and> tx_from tx \<noteq> tx_to tx
      then bal(tx_from tx := bal (tx_from tx) - unat (tx_amount tx),
               tx_to tx := bal (tx_to tx) + unat (tx_amount tx))
      else bal)"

definition spec_block :: "Tx list \<Rightarrow> (u32 \<Rightarrow> nat) \<Rightarrow> (u32 \<Rightarrow> nat)" where
  "spec_block txs bal = fold spec_tx txs bal"

definition abs_state :: "State \<Rightarrow> u32 \<Rightarrow> nat" where
  "abs_state s a = unat (get_balance s a)"

subsection \<open>Balances\<close>

lemma state_ok_new [simp]: "state_ok State_new"
  by (simp add: state_ok_def State_new_def btree_dict.ok_empty)

lemma state_ok_set [simp]: "state_ok s \<Longrightarrow> state_ok (set_balance s a v)"
  by (simp add: state_ok_def set_balance_def btree_dict.ok_insert)

lemma get_set_balance:
  "state_ok s \<Longrightarrow> get_balance (set_balance s a v) b = (if b = a then v else get_balance s b)"
  by (simp add: state_ok_def get_balance_def set_balance_def btree_dict.get_insert)

lemma sum_bt_insert:
  assumes "bt_ok m"
  shows "sum_list (map (unat \<circ> snd) (bt_insert k v m)) + (case bt_get m k of Some b \<Rightarrow> unat b | None \<Rightarrow> 0)
       = sum_list (map (unat \<circ> snd) m) + unat (v :: u64)"
  using assms
proof (induction m)
  case Nil
  then show ?case by simp
next
  case (Cons p m)
  obtain a b where p: "p = (a, b)" by force
  from Cons.prems p have "bt_ok m" by (simp add: bt_ok_Cons)
  with Cons.IH p show ?case by (auto split: option.splits)
qed

lemma supply_set_balance:
  "state_ok s \<Longrightarrow> total_supply (set_balance s a v) + unat (get_balance s a) = total_supply s + unat v"
  using sum_bt_insert [of "balances s" a v]
  by (auto simp: total_supply_def state_ok_def set_balance_def get_balance_def split: option.splits)

lemma balance_le_supply: "state_ok s \<Longrightarrow> unat (get_balance s a) \<le> total_supply s"
  using supply_set_balance [of s a 0] by simp

lemma balances2_le_supply:
  assumes "state_ok s" and "a \<noteq> b"
  shows "unat (get_balance s a) + unat (get_balance s b) \<le> total_supply s"
proof -
  have "unat (get_balance (set_balance s a 0) b) \<le> total_supply (set_balance s a 0)"
    using assms by (intro balance_le_supply) simp
  then show ?thesis
    using supply_set_balance [of s a 0] assms by (simp add: get_set_balance)
qed

lemma state_ok_apply_tx [simp]: "state_ok s \<Longrightarrow> state_ok (apply_tx s tx)"
  by (simp add: apply_tx_def Let_def)

text \<open>One applied transfer, on a state whose supply fits a \<open>u64\<close>: nothing wraps.\<close>

lemma apply_tx_balances:
  assumes "state_ok s" and "tx_applies s tx" and "total_supply s < 2 ^ 64"
  shows "unat (get_balance (apply_tx s tx) a) =
    (if a = tx_from tx then unat (get_balance s a) - unat (tx_amount tx)
     else if a = tx_to tx then unat (get_balance s a) + unat (tx_amount tx)
     else unat (get_balance s a))"
proof -
  let ?f = "tx_from tx" and ?t = "tx_to tx" and ?amt = "tx_amount tx"
  from assms have le: "?amt \<le> get_balance s ?f" and ne: "?f \<noteq> ?t"
    by (auto simp: tx_applies_def)
  have "unat (get_balance s ?t) + unat ?amt \<le> total_supply s"
    using balances2_le_supply [OF assms(1) ne] le by (simp add: word_le_nat_alt)
  then have "unat (get_balance s ?t + ?amt) = unat (get_balance s ?t) + unat ?amt"
    using assms(3) by (intro unat_add_no_overflow) simp
  then show ?thesis
    using assms(1) ne le by (auto simp: apply_tx_def Let_def get_set_balance unat_sub_le)
qed

lemma supply_apply_tx:
  assumes "state_ok s" and "tx_applies s tx" and "total_supply s < 2 ^ 64"
  shows "total_supply (apply_tx s tx) = total_supply s"
proof -
  let ?f = "tx_from tx" and ?t = "tx_to tx" and ?amt = "tx_amount tx"
  define s1 where "s1 = set_balance s ?f (get_balance s ?f - ?amt)"
  from assms have le: "?amt \<le> get_balance s ?f" and ne: "?f \<noteq> ?t"
    by (auto simp: tx_applies_def)
  have ok1: "state_ok s1" using assms(1) by (simp add: s1_def)
  have s1: "total_supply s1 + unat ?amt = total_supply s"
    using supply_set_balance [OF assms(1), of ?f "get_balance s ?f - ?amt"] le
      balance_le_supply [OF assms(1), of ?f]
    by (simp add: s1_def unat_sub_le word_le_nat_alt)
  have "unat (get_balance s1 ?t) \<le> total_supply s1" by (rule balance_le_supply [OF ok1])
  then have "unat (get_balance s1 ?t + ?amt) = unat (get_balance s1 ?t) + unat ?amt"
    using assms(3) s1 by (intro unat_add_no_overflow) simp
  then show ?thesis
    using supply_set_balance [OF ok1, of ?t "get_balance s1 ?t + ?amt"] s1
    by (simp add: apply_tx_def Let_def s1_def)
qed

lemma apply_txs_ok: "state_ok s \<Longrightarrow> state_ok (fst (apply_txs s k txs))"
  by (induction s k txs rule: apply_txs.induct) auto

lemma apply_txs_supply:
  "state_ok s \<Longrightarrow> total_supply s < 2 ^ 64 \<Longrightarrow> total_supply (fst (apply_txs s k txs)) = total_supply s"
  by (induction s k txs rule: apply_txs.induct) (auto simp: supply_apply_tx)

lemma apply_txs_count: "snd (apply_txs s k txs) = k + snd (apply_txs s 0 txs)"
proof (induction txs arbitrary: s k)
  case Nil
  then show ?case by simp
next
  case (Cons tx txs)
  show ?case
    using Cons [of "apply_tx s tx" "k + 1"] Cons [of "apply_tx s tx" 1] Cons [of s k]
    by simp
qed

lemma apply_txs_state: "fst (apply_txs s k txs) = fst (apply_txs s 0 txs)"
proof (induction txs arbitrary: s k)
  case (Cons tx txs)
  show ?case
    using Cons [of "apply_tx s tx" "k + 1"] Cons [of "apply_tx s tx" 1] Cons [of s k] by simp
qed simp

lemma apply_block_append:
  "fst (apply_block s (xs @ ys)) = fst (apply_block (fst (apply_block s xs)) ys)"
proof (induction xs arbitrary: s)
  case (Cons tx xs)
  show ?case
    using Cons [of "apply_tx s tx"] Cons [of s]
    by (simp add: apply_block_def apply_txs_state [of _ 1])
qed (simp add: apply_block_def)

lemma apply_block_count_le: "unat (snd (apply_block s txs)) \<le> length txs"
proof (induction txs arbitrary: s)
  case Nil
  then show ?case by (simp add: apply_block_def)
next
  case (Cons tx txs)
  have "unat (snd (apply_txs (apply_tx s tx) 1 txs)) \<le> Suc (length txs)"
    using Cons [of "apply_tx s tx"] apply_txs_count [of "apply_tx s tx" 1 txs]
      unat_plus_simple [of 1 "snd (apply_txs (apply_tx s tx) 0 txs)"]
    by (simp add: apply_block_def unat_word_ariths)
  then show ?case using Cons [of s] by (simp add: apply_block_def)
qed

subsection \<open>The Merkle tree\<close>

lemma next_pow2_from_spec:
  assumes "j \<le> m" and "n \<le> 2 ^ m"
  shows "\<exists>k \<le> m. next_pow2_from (2 ^ j) n = 2 ^ k \<and> n \<le> 2 ^ k"
  using assms
proof (induction "m - j" arbitrary: j)
  case 0
  then have "j = m" by simp
  with 0 show ?case by (subst next_pow2_from.simps) auto
next
  case (Suc d)
  show ?case
  proof (cases "2 ^ j < n")
    case True
    from Suc.hyps(2) have "d = m - Suc j" and "Suc j \<le> m" by simp_all
    from Suc.hyps(1) [OF this Suc.prems(2)] show ?thesis
      using True by (subst next_pow2_from.simps) simp
  next
    case False
    with Suc.prems show ?thesis by (subst next_pow2_from.simps) auto
  qed
qed

lemma num_leaves_pow2:
  assumes "bt_len (balances s) \<le> 2 ^ m"
  obtains k where "k \<le> m" and "num_leaves s = 2 ^ k" and "bt_len (balances s) \<le> 2 ^ k"
  using next_pow2_from_spec [of 0 m "bt_len (balances s)"] assms
  by (auto simp: num_leaves_def next_power_of_two_def)

lemma depth_from_pow2: "k < fuel \<Longrightarrow> depth_from fuel (2 ^ k) = k"
proof (induction fuel arbitrary: k)
  case (Suc fuel)
  show ?case
  proof (cases k)
    case (Suc m)
    have "1 < (2::nat) ^ Suc m" by (rule one_less_power) simp_all
    then show ?thesis using Suc.prems Suc.IH [of m] \<open>k = Suc m\<close> by simp
  qed simp
qed simp

lemma root_depth_pow2: "num_leaves s = 2 ^ k \<Longrightarrow> root_depth s = k"
  by (simp add: root_depth_def depth_from_pow2)

lemma pair_up_layer:
  "pair_up sha (map (mroot sha s k) [2 * a..<2 * (a + j)]) = Some (map (mroot sha s (Suc k)) [a..<a + j])"
proof (induction j arbitrary: a)
  case (Suc j)
  have "[2 * a..<2 * (a + Suc j)] = 2 * a # (2 * a + 1) # [2 * (Suc a)..<2 * (Suc a + j)]"
    by (simp add: upt_conv_Cons)
  moreover have "[a..<a + Suc j] = a # [Suc a..<Suc a + j]"
    by (simp add: upt_conv_Cons)
  ultimately show ?case using Suc [of "Suc a"] by (simp del: upt_Suc)
qed simp

lemma merkle_loop_layer:
  "merkle_loop sha (map (mroot sha s k) [0..<2 ^ j]) = Some (mroot sha s (k + j) 0)"
proof (induction j arbitrary: k)
  case 0
  show ?case by (simp add: merkle_loop.simps)
next
  case (Suc j)
  have "pair_up sha (map (mroot sha s k) [0..<2 ^ Suc j]) = Some (map (mroot sha s (Suc k)) [0..<2 ^ j])"
    using pair_up_layer [of sha s k 0 "2 ^ j"] by simp
  moreover have "1 < (2::nat) ^ Suc j" by (rule one_less_power) simp_all
  ultimately show ?case
    using Suc [of "Suc k"]
    by (subst merkle_loop.simps) (simp del: mroot.simps power_Suc)
qed

lemma unat_of_nat_pow2: "k \<le> 31 \<Longrightarrow> unat (of_nat (2 ^ k) :: u32) = 2 ^ k"
proof -
  assume "k \<le> 31"
  then have "(2::nat) ^ k \<le> 2 ^ 31" by (simp only: power_increasing)
  then have "(2::nat) ^ k < 2 ^ 32" by simp
  then show ?thesis by (simp only: unat_of_nat) simp
qed

lemma compute_state_root_mroot:
  assumes "bt_len (balances s) \<le> 2 ^ 31"
  shows "compute_state_root sha s = Some (mroot sha s (root_depth s) 0)"
proof -
  obtain k where k: "k \<le> 31" "num_leaves s = 2 ^ k"
    using num_leaves_pow2 [of s 31] assms by auto
  have "leaf_layer sha s = map (mroot sha s 0) [0..<2 ^ k]"
    using k by (simp add: leaf_layer_def unat_of_nat_pow2 del: of_nat_power)
  then show ?thesis
    using merkle_loop_layer [of sha s 0 k] k by (simp add: compute_state_root_def root_depth_pow2)
qed

lemma length_leaf_bytes: "length (leaf_bytes s i) = 12"
  by (simp add: leaf_bytes_def codec_simps)

lemma length_node_bytes: "length (node_bytes a b) = 64"
  by (simp add: node_bytes_def codec_simps)

lemma node_bytes_inject: "node_bytes a b = node_bytes c d \<longleftrightarrow> a = c \<and> b = d"
  by (simp add: node_bytes_def codec_simps)

lemma leaf_not_node: "leaf_bytes s i \<noteq> node_bytes a b"
  using length_leaf_bytes [of s i] length_node_bytes [of a b] by auto

text \<open>
  Equal roots of two trees whose preimages do not collide: the trees have the same depth and
  the same leaves.
\<close>

lemma halves_agree:
  assumes "\<forall>d < 2 ^ k. f (2 ^ k * (2 * i) + d) = g (2 ^ k * (2 * i') + d)"
    and "\<forall>d < 2 ^ k. f (2 ^ k * (2 * i + 1) + d) = g (2 ^ k * (2 * i' + 1) + d)"
    and "d < 2 ^ Suc k"
  shows "f (2 ^ Suc k * i + d) = g (2 ^ Suc k * i' + (d :: nat))"
proof (cases "d < 2 ^ k")
  case True
  then have "f (2 ^ k * (2 * i) + d) = g (2 ^ k * (2 * i') + d)" using assms(1) by blast
  then show ?thesis by (simp add: ac_simps)
next
  case False
  then have ge: "2 ^ k \<le> d" and e: "d - 2 ^ k < 2 ^ k" using assms(3) by simp_all
  have idx: "2 ^ k * (2 * j + 1) + (d - 2 ^ k) = 2 ^ Suc k * j + d" for j
    using ge by (simp add: algebra_simps)
  have "f (2 ^ k * (2 * i + 1) + (d - 2 ^ k)) = g (2 ^ k * (2 * i' + 1) + (d - 2 ^ k))"
    using assms(2) e by blast
  then show ?thesis unfolding idx .
qed

lemma mroot_binding:
  assumes "inj_on sha (preimages sha s k i \<union> preimages sha s' k' i')"
    and "mroot sha s k i = mroot sha s' k' i'"
  shows "k = k' \<and> (\<forall>d < 2 ^ k. leaf_bytes s (2 ^ k * i + d) = leaf_bytes s' (2 ^ k * i' + d))"
  using assms
proof (induction k arbitrary: i k' i')
  case 0
  show ?case
  proof (cases k')
    case 0
    then show ?thesis using "0.prems" by (auto dest: inj_onD)
  next
    case (Suc m)
    have "leaf_bytes s i = node_bytes (mroot sha s' m (2 * i')) (mroot sha s' m (2 * i' + 1))"
      using "0.prems"(2) Suc by (intro inj_onD [OF "0.prems"(1)]) auto
    then show ?thesis by (simp add: leaf_not_node)
  qed
next
  case (Suc k)
  show ?case
  proof (cases k')
    case 0
    have "node_bytes (mroot sha s k (2 * i)) (mroot sha s k (2 * i + 1)) = leaf_bytes s' i'"
      using Suc.prems(2) 0 by (intro inj_onD [OF Suc.prems(1)]) auto
    then show ?thesis by (metis leaf_not_node)
  next
    case (Suc m)
    let ?l = "mroot sha s k (2 * i)" and ?r = "mroot sha s k (2 * i + 1)"
    let ?l' = "mroot sha s' m (2 * i')" and ?r' = "mroot sha s' m (2 * i' + 1)"
    have "node_bytes ?l ?r = node_bytes ?l' ?r'"
      using Suc.prems(2) \<open>k' = Suc m\<close> by (intro inj_onD [OF Suc.prems(1)]) auto
    then have eqs: "?l = ?l'" "?r = ?r'" by (simp_all add: node_bytes_inject)
    have L: "k = m \<and> (\<forall>d < 2 ^ k. leaf_bytes s (2 ^ k * (2 * i) + d) = leaf_bytes s' (2 ^ k * (2 * i') + d))"
      using \<open>k' = Suc m\<close> eqs(1)
      by (intro Suc.IH inj_on_subset [OF Suc.prems(1)]) auto
    have R: "k = m \<and> (\<forall>d < 2 ^ k. leaf_bytes s (2 ^ k * (2 * i + 1) + d) = leaf_bytes s' (2 ^ k * (2 * i' + 1) + d))"
      using \<open>k' = Suc m\<close> eqs(2)
      by (intro Suc.IH inj_on_subset [OF Suc.prems(1)]) auto
    then show ?thesis
      using L \<open>k' = Suc m\<close> halves_agree [of k "leaf_bytes s" i "leaf_bytes s'" i'] by blast
  qed
qed

subsection \<open>Properties of the state-transition function\<close>

lemma abs_apply_tx:
  assumes "state_ok s" and "total_supply s < 2 ^ 64"
  shows "abs_state (if tx_applies s tx then apply_tx s tx else s) = spec_tx tx (abs_state s)"
  using apply_tx_balances [OF assms(1) _ assms(2), of tx]
  by (auto simp: fun_eq_iff abs_state_def spec_tx_def tx_applies_def word_le_nat_alt word_gt_0)

lemma apply_txs_abs:
  "state_ok s \<Longrightarrow> total_supply s < 2 ^ 64 \<Longrightarrow>
     abs_state (fst (apply_txs s k txs)) = spec_block txs (abs_state s)"
proof (induction s k txs rule: apply_txs.induct)
  case (2 s applied tx txs)
  then show ?case
    using abs_apply_tx [of s tx] by (auto simp: spec_block_def supply_apply_tx)
qed (simp add: spec_block_def)

text \<open>
  \<^bold>\<open>C16\<close>. On a ledger whose total supply fits a \<open>u64\<close>, \<^verbatim>\<open>apply_block\<close>
  computes exactly the block of unbounded-integer transfers: no balance wraps, no transfer
  overdraws, and skipped transfers change nothing.
\<close>

theorem apply_block_refines:
  assumes "state_ok s" and "total_supply s < 2 ^ 64"
  shows "abs_state (fst (apply_block s txs)) = spec_block txs (abs_state s)"
  using assms by (simp add: apply_block_def apply_txs_abs)


lemma len_apply_tx:
  assumes "state_ok s" and "tx_applies s tx"
  shows "bt_len (balances (apply_tx s tx)) \<le> Suc (bt_len (balances s))"
proof -
  have ok: "bt_ok (balances s)" using assms(1) by (simp add: state_ok_def)
  have "bt_get (balances s) (tx_from tx) \<noteq> None"
    using assms(2) by (auto simp: tx_applies_def get_balance_def word_gt_0 split: option.splits)
  then show ?thesis
    using ok btree_dict.len_insert_le
    by (auto simp: apply_tx_def Let_def set_balance_def btree_dict.len_insert btree_dict.ok_insert)
qed

lemma len_apply_block:
  "state_ok s \<Longrightarrow> bt_len (balances (fst (apply_block s txs))) \<le> bt_len (balances s) + length txs"
proof (induction txs arbitrary: s)
  case (Cons tx txs)
  have "bt_len (balances (fst (apply_block (apply_tx s tx) txs)))
      \<le> bt_len (balances (apply_tx s tx)) + length txs"
    and "bt_len (balances (fst (apply_block s txs))) \<le> bt_len (balances s) + length txs"
    using Cons.prems by (simp_all add: Cons.IH)
  then show ?case
    using len_apply_tx [OF Cons.prems, of tx]
    by (cases "tx_applies s tx") (simp_all add: apply_block_def apply_txs_state [of _ 1])
qed (simp add: apply_block_def)

text \<open>
  \<^bold>\<open>C18\<close>. \<^verbatim>\<open>compute_state_root\<close> never panics on a ledger of at most \<open>2 ^ 31\<close>
  accounts: its bottom-up loop terminates on one digest, the root of the complete binary hash
  tree over the accounts \<open>0 ..< num_leaves\<close>, whose size is a power of two that is at least
  the number of accounts.
\<close>

theorem compute_state_root_correct:
  assumes "bt_len (balances s) \<le> 2 ^ 31"
  shows "compute_state_root sha s = Some (mroot sha s (root_depth s) 0) \<and>
    num_leaves s = 2 ^ root_depth s \<and> bt_len (balances s) \<le> num_leaves s"
proof -
  obtain k where "num_leaves s = 2 ^ k" and "bt_len (balances s) \<le> 2 ^ k"
    using num_leaves_pow2 [OF assms] by auto
  then show ?thesis
    using compute_state_root_mroot [OF assms] by (simp add: root_depth_pow2)
qed

lemma root_binding:
  assumes "bt_len (balances s) \<le> 2 ^ 31" and "bt_len (balances s') \<le> 2 ^ 31"
    and "inj_on sha (root_preimages sha s \<union> root_preimages sha s')"
    and "compute_state_root sha s = compute_state_root sha s'"
  shows "num_leaves s = num_leaves s' \<and>
    (\<forall>a. unat a < num_leaves s \<longrightarrow> get_balance s a = get_balance s' a)"
proof -
  let ?k = "root_depth s"
  obtain k k' where k: "num_leaves s = 2 ^ k" "k \<le> 31" and k': "num_leaves s' = 2 ^ k'"
    using num_leaves_pow2 assms(1,2) by metis
  have "mroot sha s ?k 0 = mroot sha s' (root_depth s') 0"
    using assms(4) compute_state_root_mroot [OF assms(1)] compute_state_root_mroot [OF assms(2)]
    by simp
  from mroot_binding [OF assms(3) [unfolded root_preimages_def] this]
  have depth: "?k = root_depth s'" and leaves: "\<forall>d < 2 ^ ?k. leaf_bytes s d = leaf_bytes s' d"
    by auto
  have size: "num_leaves s = 2 ^ ?k" "num_leaves s' = 2 ^ root_depth s'"
    using k k' by (simp_all add: root_depth_pow2)
  have "get_balance s a = get_balance s' a" if "unat a < num_leaves s" for a
    using leaves that size(1) by (auto simp: leaf_bytes_def codec_simps dest!: spec [of _ "unat a"])
  then show ?thesis using size depth by simp
qed

text \<open>
  \<^bold>\<open>C19\<close>. The root binds the balances: if no two byte strings hashed for the two roots
  collide and the roots agree, the trees have the same number of leaves and every account below
  that number has the same balance.
\<close>

theorem state_root_binding:
  assumes "bt_len (balances s) \<le> 2 ^ 31" and "bt_len (balances s') \<le> 2 ^ 31"
    and "inj_on sha (root_preimages sha s \<union> root_preimages sha s')"
    and "compute_state_root sha s = compute_state_root sha s'"
  shows "num_leaves s = num_leaves s' \<and>
    (\<forall>a. unat a < num_leaves s \<longrightarrow> get_balance s a = get_balance s' a)"
  using root_binding [OF assms] .

text \<open>
  \<^bold>\<open>C20\<close>. The root says nothing about an account whose id is not below the number of
  leaves: giving an existing such account any balance leaves the root as it was, whatever the
  hash function.
\<close>

theorem state_root_ignores_high_accounts:
  assumes "state_ok s" and "bt_get (balances s) a \<noteq> None" and "num_leaves s \<le> unat a"
  shows "compute_state_root sha (set_balance s a v) = compute_state_root sha s"
proof -
  have ok: "bt_ok (balances s)" using assms(1) by (simp add: state_ok_def)
  have "bt_len (balances (set_balance s a v)) = bt_len (balances s)"
    using assms(2) by (simp add: set_balance_def btree_dict.len_insert [OF ok])
  then have nl: "num_leaves (set_balance s a v) = num_leaves s"
    by (simp add: num_leaves_def)
  have "leaf_bytes (set_balance s a v) i = leaf_bytes s i"
    if "i < unat (of_nat (num_leaves s) :: u32)" for i
  proof -
    have "unat (of_nat (num_leaves s) :: u32) \<le> num_leaves s"
      by (simp add: unat_of_nat)
    then have "i < unat a" using that assms(3) by linarith
    then have "unat (of_nat i :: u32) \<noteq> unat a"
      by (metis less_irrefl mod_less_eq_dividend order_le_less_trans unat_of_nat)
    then have "of_nat i \<noteq> a" by blast
    then show ?thesis using assms(1) by (simp add: leaf_bytes_def get_set_balance)
  qed
  then have "leaf_layer sha (set_balance s a v) = leaf_layer sha s"
    by (auto simp: leaf_layer_def nl)
  then show ?thesis by (simp add: compute_state_root_def)
qed

definition tx_decode :: "bytes \<Rightarrow> Tx" where
  "tx_decode bs = \<lparr>tx_from = of_le_bytes (take 4 bs), tx_to = of_le_bytes (take 4 (drop 4 bs)),
     tx_amount = of_le_bytes (drop 8 bs)\<rparr>"

interpretation tx_code: fixed_codec tx_bytes tx_decode 16
  by unfold_locales (simp_all add: tx_bytes_def tx_decode_def codec_simps u32_le.dec_enc u64_le.dec_enc)

text \<open>
  \<^bold>\<open>C21\<close>. The transaction hash binds the block: two transaction lists whose
  encodings do not collide and whose hashes agree are the same list, of the same length and in the
  same order.
\<close>

theorem hash_transactions_binding:
  assumes "inj_on sha {concat (map tx_bytes txs), concat (map tx_bytes txs')}"
    and "hash_transactions sha txs = hash_transactions sha txs'"
  shows "txs = txs'"
  using assms tx_code.concat_enc_inject [of txs txs'] by (auto simp: hash_transactions_def)

text \<open>
  \<^bold>\<open>C22\<close>. The guest program returns a commitment for every block that keeps the ledger
  below \<open>2 ^ 31\<close> accounts, and the commitment is the roots before and after
  \<^verbatim>\<open>apply_block\<close> and the hash of exactly the transactions executed.
\<close>

theorem guest_main_commits:
  assumes "state_ok s" and "bt_len (balances s) + length txs \<le> 2 ^ 31"
  shows "\<exists>c. guest_main sha s txs = Some c \<and>
    Some (pre_state_root c) = compute_state_root sha s \<and>
    Some (post_state_root c) = compute_state_root sha (fst (apply_block s txs)) \<and>
    tx_hash c = hash_transactions sha txs"
  using compute_state_root_mroot [of s sha] compute_state_root_mroot [of "fst (apply_block s txs)" sha]
    len_apply_block [OF assms(1), of txs] assms(2)
  by (auto simp: guest_main_def Let_def)

end
