(* ===== verification/Messages.thy ===== *)
theory Messages
  imports Ledger
begin

text \<open>
  \<^verbatim>\<open>node/consensus-node/src/messages.rs\<close>: message types, tree nodes, quorum
  certificates and the wire format, with the hashes and signatures over them. The libraries the
  node only calls are one record of functions, \<open>Externals\<close>: SHA-256, the bincode
  encoding of a vote, the ed25519 operations, and the iteration orders of hash maps (any
  rearrangement of the keys). A signing or verifying key is its 32 bytes.
\<close>

datatype MsgType = NewView | Prepare | PreCommit | Commit | Decide

fun as_str :: "MsgType \<Rightarrow> string" where
  "as_str NewView = ''new_view''"
| "as_str Prepare = ''prepare''"
| "as_str PreCommit = ''pre_commit''"
| "as_str Commit = ''commit''"
| "as_str Decide = ''decide''"

record Node =
  n_parent :: digest
  n_cmd :: digest
  n_height :: u64

definition GENESIS_HASH :: digest where
  "GENESIS_HASH = 0"

record QC =
  qc_msg_type :: MsgType
  qc_view :: u64
  qc_node_hash :: digest
  qc_sigs :: "(u32 \<times> bytes) list"

datatype Wire =
    Hello u32 digest
  | Proposal u64 Node "QC option" u32
  | PhaseQc MsgType u64 QC u32
  | Vote MsgType u64 digest u32 bytes
  | NewViewMsg u64 "QC option" u32

record Externals =
  sha256 :: "bytes \<Rightarrow> digest"
  bincode_vote :: "MsgType \<times> u64 \<times> digest \<Rightarrow> bytes"
  ed_sign :: "digest \<Rightarrow> bytes \<Rightarrow> bytes"
  ed_from_slice :: "bytes \<Rightarrow> bytes option"
  ed_verify :: "digest \<Rightarrow> bytes \<Rightarrow> bytes \<Rightarrow> bool"
  iter_u32 :: "u32 list \<Rightarrow> u32 list"
  iter_digest :: "digest list \<Rightarrow> digest list"

definition node_hash :: "Externals \<Rightarrow> Node \<Rightarrow> digest" where
  "node_hash E nd =
     sha256 E (digest_bytes (n_parent nd) @ digest_bytes (n_cmd nd) @ u64_le (n_height nd))"

definition vote_digest :: "Externals \<Rightarrow> MsgType \<Rightarrow> u64 \<Rightarrow> digest \<Rightarrow> bytes" where
  "vote_digest E mt view nh = bincode_vote E (mt, view, nh)"

definition sign_vote :: "Externals \<Rightarrow> digest \<Rightarrow> MsgType \<Rightarrow> u64 \<Rightarrow> digest \<Rightarrow> bytes" where
  "sign_vote E sk mt view nh = ed_sign E sk (vote_digest E mt view nh)"

definition verify_vote_sig ::
  "Externals \<Rightarrow> digest \<Rightarrow> MsgType \<Rightarrow> u64 \<Rightarrow> digest \<Rightarrow> bytes \<Rightarrow> bool" where
  "verify_vote_sig E pk mt view nh sig =
     (case ed_from_slice E sig of None \<Rightarrow> False
      | Some s \<Rightarrow> ed_verify E pk (vote_digest E mt view nh) s)"

subsection \<open>Facts\<close>

text \<open>The node encoding is injective: a collision of node hashes is a collision of SHA-256.\<close>

lemma node_encoding_inject:
  "digest_bytes (n_parent a) @ digest_bytes (n_cmd a) @ u64_le (n_height a) =
   digest_bytes (n_parent b) @ digest_bytes (n_cmd b) @ u64_le (n_height b) \<longleftrightarrow> a = b"
  for a b :: Node
  by (cases a; cases b) (simp add: codec_simps)

lemma as_str_inject: "as_str a = as_str b \<longleftrightarrow> a = b"
  by (cases a; cases b) simp_all

text \<open>
  Round trip of a vote: if ed25519 accepts, under a public key, the
  signatures its secret key makes (and a signature parses back from its bytes), a vote signed by
  \<^verbatim>\<open>sign_vote\<close> is accepted by \<^verbatim>\<open>verify_vote_sig\<close> for the same message type, view
  and node.
\<close>

lemma sign_verify_roundtrip:
  assumes "\<And>msg. ed_from_slice E (ed_sign E sk msg) = Some (ed_sign E sk msg)"
    and "\<And>msg. ed_verify E pk msg (ed_sign E sk msg)"
  shows "verify_vote_sig E pk mt view nh (sign_vote E sk mt view nh)"
  using assms by (simp add: verify_vote_sig_def sign_vote_def)

end
