(* ===== verification/Replica_State.thy ===== *)
theory Replica_State
  imports Messages
begin

text \<open>
  \<^verbatim>\<open>node/consensus-node/src/state.rs\<close>: the per-view bookkeeping, the state of a
  replica, the round-robin leader schedule, and the \<open>safeNode\<close> predicate with its walk over
  parent links. \<^verbatim>\<open>last_executed_height\<close> is an \<open>i64\<close>, kept as an \<open>int\<close>;
  the cast of a \<open>u64\<close> height to it is \<open>sint\<close>.
\<close>

record TimerEvent =
  evt_view :: u64

record ViewData =
  proposal :: "(Node \<times> QC option) option"
  voted_prepare :: bool
  voted_precommit :: bool
  voted_commit :: bool
  seen_pre_commit_qc :: bool
  seen_commit_qc :: bool
  seen_decide_qc :: bool
  new_view_msgs :: "(u32, QC option) hashmap"
  prepare_votes :: "(u32, digest \<times> bytes) hashmap"
  precommit_votes :: "(u32, digest \<times> bytes) hashmap"
  commit_votes :: "(u32, digest \<times> bytes) hashmap"
  broadcast_proposal :: bool
  broadcast_pre_commit :: bool
  broadcast_commit :: bool
  broadcast_decide :: bool

definition ViewData_default :: ViewData where
  "ViewData_default =
     \<lparr>proposal = None, voted_prepare = False, voted_precommit = False, voted_commit = False,
      seen_pre_commit_qc = False, seen_commit_qc = False, seen_decide_qc = False,
      new_view_msgs = hm_empty, prepare_votes = hm_empty, precommit_votes = hm_empty,
      commit_votes = hm_empty, broadcast_proposal = False, broadcast_pre_commit = False,
      broadcast_commit = False, broadcast_decide = False\<rparr>"

record ReplicaState =
  rs_n :: u32
  rs_quorum :: u32
  rs_view :: u64
  locked_qc :: "QC option"
  prepare_qc :: "QC option"
  last_executed_height :: int
  view_data :: "(u64, ViewData) hashmap"
  tree :: "(digest, Node) hashmap"
  validation_result :: "(digest, bool) hashmap"
  pending_validation :: "digest option"
  post_state_by_node :: "(digest, State) hashmap"
  post_root_by_node :: "(digest, digest) hashmap"
  pre_root_by_node :: "(digest, digest) hashmap"
  decided_nodes :: "digest list"
  staged_pre_commit_qc :: "(u64, QC) hashmap"
  staged_commit_qc :: "(u64, QC) hashmap"
  staged_decide_qc :: "(u64, QC) hashmap"
  timeout_interval_ms :: u64

definition max_faulty :: "u32 \<Rightarrow> u32" where
  "max_faulty n = (n - 1) div 3"

definition quorum_size :: "u32 \<Rightarrow> u32" where
  "quorum_size n = n - max_faulty n"

definition ReplicaState_new :: "u32 \<Rightarrow> u64 \<Rightarrow> ReplicaState" where
  "ReplicaState_new n timeout_base_ms =
     \<lparr>rs_n = n, rs_quorum = quorum_size n, rs_view = 0, locked_qc = None, prepare_qc = None,
      last_executed_height = - 1, view_data = hm_empty, tree = hm_empty,
      validation_result = hm_empty, pending_validation = None,
      post_state_by_node = hm_empty, post_root_by_node = hm_empty, pre_root_by_node = hm_empty,
      decided_nodes = [], staged_pre_commit_qc = hm_empty, staged_commit_qc = hm_empty,
      staged_decide_qc = hm_empty, timeout_interval_ms = timeout_base_ms\<rparr>"

definition leader_for :: "u32 \<Rightarrow> u64 \<Rightarrow> u32" where
  "leader_for n view = (if view = 0 then 0 else ucast ((view - 1) mod ucast n))"

text \<open>
  \<^verbatim>\<open>vd_mut\<close> creates a default entry when there is none, also when the caller only
  reads; \<open>vd_entry\<close> is the entry it returns and \<open>vd_mut\<close> the state after an update.
\<close>

definition vd :: "'a ReplicaState_scheme \<Rightarrow> u64 \<Rightarrow> ViewData option" where
  "vd rs view = hm_get (view_data rs) view"

definition vd_entry :: "'a ReplicaState_scheme \<Rightarrow> u64 \<Rightarrow> ViewData" where
  "vd_entry rs view = (case vd rs view of Some d \<Rightarrow> d | None \<Rightarrow> ViewData_default)"

definition vd_mut ::
  "u64 \<Rightarrow> (ViewData \<Rightarrow> ViewData) \<Rightarrow> 'a ReplicaState_scheme \<Rightarrow> 'a ReplicaState_scheme" where
  "vd_mut view f rs = rs\<lparr>view_data := hm_insert view (f (vd_entry rs view)) (view_data rs)\<rparr>"

subsection \<open>safeNode\<close>

text \<open>The loop of \<^verbatim>\<open>extends_from\<close>, with its defensive bound of 100000 steps.\<close>

function extends_loop :: "(digest, Node) hashmap \<Rightarrow> digest \<Rightarrow> digest \<Rightarrow> nat \<Rightarrow> bool" where
  "extends_loop tr target cur steps =
     (if cur = target then True
      else if cur = GENESIS_HASH then False
      else case hm_get tr cur of
             None \<Rightarrow> False
           | Some parent_node \<Rightarrow>
               if 100000 < steps + 1 then False
               else extends_loop tr target (n_parent parent_node) (steps + 1))"
  by pat_completeness auto
termination
  by (relation "measure (\<lambda>(tr, target, cur, steps). 100000 - steps)") auto

declare extends_loop.simps [simp del]

definition extends_from :: "Externals \<Rightarrow> Node \<Rightarrow> digest \<Rightarrow> (digest, Node) hashmap \<Rightarrow> bool" where
  "extends_from E node target tr =
     (if node_hash E node = target then True else extends_loop tr target (n_parent node) 0)"

definition safe_node ::
  "Externals \<Rightarrow> Node \<Rightarrow> QC option \<Rightarrow> QC option \<Rightarrow> (digest, Node) hashmap \<Rightarrow> bool" where
  "safe_node E node qc locked tr =
     (case locked of None \<Rightarrow> True
      | Some l \<Rightarrow>
          if extends_from E node (qc_node_hash l) tr then True
          else (case qc of Some q \<Rightarrow> qc_view q > qc_view l | None \<Rightarrow> False))"

subsection \<open>Reference: ancestors\<close>

text \<open>The \<open>k\<close>-th ancestor of a hash along the parent links of a tree, up to genesis.\<close>

fun ancestor :: "(digest, Node) hashmap \<Rightarrow> digest \<Rightarrow> nat \<Rightarrow> digest option" where
  "ancestor tr cur 0 = Some cur"
| "ancestor tr cur (Suc k) =
     (if cur = GENESIS_HASH then None
      else case hm_get tr cur of None \<Rightarrow> None | Some p \<Rightarrow> ancestor tr (n_parent p) k)"

subsection \<open>The leader schedule and the quorum\<close>

lemma vd_entry_vd_mut:
  "vd_entry (vd_mut v f rs) v' = (if v' = v then f (vd_entry rs v) else vd_entry rs v')"
  by (simp add: vd_entry_def vd_mut_def vd_def)

lemma vd_mut_frame [simp, frame_simps]:
  "rs_n (vd_mut v f rs) = rs_n rs" "rs_quorum (vd_mut v f rs) = rs_quorum rs"
  "rs_view (vd_mut v f rs) = rs_view rs" "locked_qc (vd_mut v f rs) = locked_qc rs"
  "prepare_qc (vd_mut v f rs) = prepare_qc rs"
  "last_executed_height (vd_mut v f rs) = last_executed_height rs"
  "tree (vd_mut v f rs) = tree rs" "validation_result (vd_mut v f rs) = validation_result rs"
  "pending_validation (vd_mut v f rs) = pending_validation rs"
  "post_state_by_node (vd_mut v f rs) = post_state_by_node rs"
  "post_root_by_node (vd_mut v f rs) = post_root_by_node rs"
  "pre_root_by_node (vd_mut v f rs) = pre_root_by_node rs"
  "decided_nodes (vd_mut v f rs) = decided_nodes rs"
  "staged_pre_commit_qc (vd_mut v f rs) = staged_pre_commit_qc rs"
  "staged_commit_qc (vd_mut v f rs) = staged_commit_qc rs"
  "staged_decide_qc (vd_mut v f rs) = staged_decide_qc rs"
  "timeout_interval_ms (vd_mut v f rs) = timeout_interval_ms rs"
  by (simp_all add: vd_mut_def)

lemma unat_max_faulty: "0 < n \<Longrightarrow> unat (max_faulty n) = (unat n - 1) div 3"
  by (simp add: max_faulty_def unat_div unat_sub_le word_le_nat_alt word_less_nat_alt)

lemma unat_quorum_size: "0 < n \<Longrightarrow> unat (quorum_size n) = unat n - (unat n - 1) div 3"
  by (simp add: quorum_size_def unat_sub_le word_le_nat_alt unat_max_faulty word_less_nat_alt)

lemma unat_leader_for:
  assumes "0 < n" and "0 < view"
  shows "unat (leader_for n view) = (unat view - 1) mod unat n"
proof -
  have one: "unat (view - 1) = unat view - 1"
    using assms(2) by (simp add: unat_sub_le word_le_nat_alt word_less_nat_alt)
  have nb: "unat n < 2 ^ 32" using unsigned_less [of n] by simp
  then have n64: "unat (ucast n :: u64) = unat n"
    by (simp add: unsigned_ucast_eq take_bit_nat_eq_self)
  have "(unat view - 1) mod unat n < unat n"
    using assms(1) by (simp add: word_less_nat_alt)
  with nb have "(unat view - 1) mod unat n < 2 ^ 32" by linarith
  then show ?thesis
    using assms(2) one n64
    by (auto simp: leader_for_def unsigned_ucast_eq unat_mod take_bit_nat_eq_self word_less_nat_alt)
qed

lemma leader_for_less: "0 < n \<Longrightarrow> leader_for n view < n"
proof (cases "view = 0")
  case True
  then show "0 < n \<Longrightarrow> leader_for n view < n" by (simp add: leader_for_def)
next
  case False
  then have "0 < view" by (simp add: word_neq_0_conv)
  then show "0 < n \<Longrightarrow> leader_for n view < n"
    using unat_leader_for [of n view] by (simp add: word_less_nat_alt)
qed

text \<open>
  \<^bold>\<open>C23\<close>. The leader schedule rotates: among any \<open>n\<close> consecutive views (from 1
  on, before the \<open>u64\<close> counter ends) every replica leads exactly one.
\<close>

theorem leader_rotation:
  assumes "i < n" and "1 \<le> v" and "v + unat n < 2 ^ 64"
  shows "\<exists>!u. v \<le> u \<and> u < v + unat n \<and> leader_for n (of_nat u) = i"
proof -
  have n: "0 < n" using assms(1) by (metis word_le_less_eq word_less_eq_iff_unsigned word_zero_le order_le_less_trans)
  have lead: "leader_for n (of_nat u) = i \<longleftrightarrow> (u - 1) mod unat n = unat i"
    if "v \<le> u" "u < v + unat n" for u
  proof -
    have "unat (of_nat u :: u64) = u"
      using that assms(3) by (simp add: unat_of_nat)
    moreover from this have "0 < (of_nat u :: u64)"
      using that assms(2) by (simp add: word_less_nat_alt)
    ultimately show ?thesis
      using unat_leader_for [OF n, of "of_nat u"] by (metis unsigned_word_eqI)
  qed
  have i: "unat i < unat n" using assms(1) by (simp add: word_less_nat_alt)
  let ?N = "unat n"
  define d where "d = (unat i + ?N - (v - 1) mod ?N) mod ?N"
  have dN: "d < ?N" using i by (simp add: d_def)
  have hit: "(v - 1 + d) mod ?N = unat i"
  proof -
    have lt: "(v - 1) mod ?N < ?N" using i by simp
    have "(v - 1 + d) mod ?N = ((v - 1) mod ?N + (unat i + ?N - (v - 1) mod ?N)) mod ?N"
      unfolding d_def by (simp only: mod_add_left_eq mod_add_right_eq)
    also have "(v - 1) mod ?N + (unat i + ?N - (v - 1) mod ?N) = unat i + ?N"
      using lt by linarith
    finally show ?thesis using i by simp
  qed
  show ?thesis
  proof (rule ex1I [of _ "v + d"])
    show "v \<le> v + d \<and> v + d < v + ?N \<and> leader_for n (of_nat (v + d)) = i"
      using dN hit lead [of "v + d"] assms(2) by simp
  next
    fix u assume u: "v \<le> u \<and> u < v + ?N \<and> leader_for n (of_nat u) = i"
    define e where "e = u - v"
    have e: "u = v + e" "e < ?N" using u by (auto simp: e_def)
    have "(v - 1 + e) mod ?N = (v - 1 + d) mod ?N"
      using u lead [of u] hit e assms(2) by simp
    then have "e = d" using e(2) dN by (rule mod_add_cancel_less)
    then show "u = v + d" using e by simp
  qed
qed

subsection \<open>Quorums\<close>

definition replica_ids :: "u32 \<Rightarrow> u32 set" where
  "replica_ids n = {i. i < n}"

lemma finite_replica_ids [simp]: "finite (replica_ids n)"
  by simp

lemma card_replica_ids: "card (replica_ids n) = unat n"
proof -
  have "unat ` replica_ids n = {..<unat n}"
  proof
    show "unat ` replica_ids n \<subseteq> {..<unat n}"
      by (auto simp: replica_ids_def word_less_nat_alt)
    show "{..<unat n} \<subseteq> unat ` replica_ids n"
    proof
      fix k assume k: "k \<in> {..<unat n}"
      have "unat n < 2 ^ 32" using unsigned_less [of n] by simp
      with k have "unat (of_nat k :: u32) = k" by (simp add: unat_of_nat)
      with k show "k \<in> unat ` replica_ids n"
        by (intro image_eqI [of _ _ "of_nat k"]) (simp_all add: replica_ids_def word_less_nat_alt)
    qed
  qed
  then show ?thesis
    using card_image [of unat "replica_ids n"] inj_on_subset [OF inj_unsigned subset_UNIV] by fastforce
qed

text \<open>
  The contract between the threshold a replica counts to and the number of faulty replicas it
  tolerates; quorum intersection in a correct replica follows from it.
\<close>

locale quorum_system =
  fixes threshold :: "u32 \<Rightarrow> u32" and faults :: "u32 \<Rightarrow> u32"
  assumes overlap: "0 < n \<Longrightarrow> unat n + unat (faults n) < 2 * unat (threshold n)"
    and reachable: "0 < n \<Longrightarrow> unat (threshold n) + unat (faults n) \<le> unat n"
begin

lemma threshold_gt_faults: "0 < n \<Longrightarrow> unat (faults n) < unat (threshold n)"
  using overlap [of n] reachable [of n] by linarith

lemma quorums_share_correct:
  assumes "0 < n" and "Q \<subseteq> replica_ids n" and "Q' \<subseteq> replica_ids n"
    and "unat (threshold n) \<le> card Q" and "unat (threshold n) \<le> card Q'"
    and "finite B" and "card B \<le> unat (faults n)"
  obtains i where "i \<in> Q" and "i \<in> Q'" and "i \<notin> B"
proof -
  have fin: "finite Q" "finite Q'"
    using assms(2,3) by (auto intro: finite_subset [OF _ finite_replica_ids])
  have "card (Q \<union> Q') \<le> unat n"
    using assms(2,3) card_mono [OF finite_replica_ids [of n], of "Q \<union> Q'"]
    by (simp add: card_replica_ids)
  moreover have "card (Q \<union> Q') + card (Q \<inter> Q') = card Q + card Q'"
    using card_Un_Int [OF fin] by simp
  ultimately have "card B < card (Q \<inter> Q')"
    using overlap [OF assms(1)] assms(4,5,7) by linarith
  then have "\<not> Q \<inter> Q' \<subseteq> B"
    using card_mono [OF assms(6)] by (metis leD)
  then show ?thesis using that by blast
qed

lemma quorum_has_correct:
  assumes "0 < n" and "unat (threshold n) \<le> card Q" and "finite B" and "card B \<le> unat (faults n)"
  obtains i where "i \<in> Q" and "i \<notin> B"
proof -
  have "card B < card Q" using threshold_gt_faults [OF assms(1)] assms(2,4) by linarith
  then have "\<not> Q \<subseteq> B" using card_mono [OF assms(3)] by (metis leD)
  then show ?thesis using that by blast
qed

end

interpretation hotstuff: quorum_system quorum_size max_faulty
proof
  fix n :: u32
  assume n: "0 < n"
  have "0 < unat n" using n by (simp add: word_less_nat_alt)
  then have "(unat n - 1) div 3 * 3 < unat n"
    by (metis Suc_pred' div_times_less_eq_dividend le_imp_less_Suc One_nat_def)
  then show "unat n + unat (max_faulty n) < 2 * unat (quorum_size n)"
    and "unat (quorum_size n) + unat (max_faulty n) \<le> unat n"
    using n by (simp_all add: unat_quorum_size unat_max_faulty)
qed

text \<open>
  \<^bold>\<open>C24\<close>. Any two quorums of \<^verbatim>\<open>n - f\<close> replicas, \<^verbatim>\<open>f = (n - 1) / 3\<close>, share a
  replica outside every set of at most \<open>f\<close> faulty ones, and the correct replicas alone
  are enough for a quorum.
\<close>

theorem quorum_intersection:
  assumes "0 < n" and "Q \<subseteq> replica_ids n" and "Q' \<subseteq> replica_ids n"
    and "unat (quorum_size n) \<le> card Q" and "unat (quorum_size n) \<le> card Q'"
    and "byz \<subseteq> replica_ids n" and "card byz \<le> unat (max_faulty n)"
  shows "(\<exists>i. i \<in> Q \<inter> Q' - byz) \<and> unat (quorum_size n) \<le> card (replica_ids n - byz)"
proof
  have fin: "finite byz" using assms(6) by (rule finite_subset) simp
  show "\<exists>i. i \<in> Q \<inter> Q' - byz"
    using hotstuff.quorums_share_correct [OF assms(1-5) fin assms(7)] by blast
  show "unat (quorum_size n) \<le> card (replica_ids n - byz)"
    using hotstuff.reachable [OF assms(1)] assms(6,7) fin
    by (simp add: card_Diff_subset card_replica_ids)
qed

subsection \<open>Ancestry\<close>

definition tree_rel :: "(digest, Node) hashmap \<Rightarrow> (digest \<times> digest) set" where
  "tree_rel tr = {(h, n_parent nd) | h nd. hm_get tr h = Some nd}"

lemma ancestor_reaches: "ancestor tr cur k = Some t \<Longrightarrow> (cur, t) \<in> (tree_rel tr)\<^sup>*"
proof (induction tr cur k rule: ancestor.induct)
  case (2 tr cur k)
  then obtain p where "hm_get tr cur = Some p" and "(n_parent p, t) \<in> (tree_rel tr)\<^sup>*"
    by (auto split: if_splits option.splits)
  then show ?case
    by (auto simp: tree_rel_def intro: converse_rtrancl_into_rtrancl)
qed simp

lemma extends_loop_iff:
  "steps \<le> 100000 \<Longrightarrow>
    extends_loop tr target cur steps \<longleftrightarrow>
      (\<exists>k. k + steps \<le> 100000 \<and> ancestor tr cur k = Some target)"
proof (induction tr target cur steps rule: extends_loop.induct)
  case (1 tr target cur steps)
  show ?case
  proof (cases "cur = target \<or> cur = GENESIS_HASH \<or> hm_get tr cur = None \<or> 100000 < steps + 1")
    case True
    have *: "ancestor tr cur k = Some target \<Longrightarrow> cur \<noteq> target \<Longrightarrow> cur = GENESIS_HASH \<or> hm_get tr cur = None \<Longrightarrow> False" for k
      by (cases k) (auto split: if_splits)
    have **: "ancestor tr cur k = Some target \<Longrightarrow> cur \<noteq> target \<Longrightarrow> k \<noteq> 0" for k
      by (cases k) auto
    from True 1(2) show ?thesis
      using * ** by (subst extends_loop.simps)
        (auto split: option.splits intro: exI [of _ 0], fastforce+)
  next
    case False
    then obtain p where p: "hm_get tr cur = Some p" by auto
    have "extends_loop tr target cur steps = extends_loop tr target (n_parent p) (steps + 1)"
      using False p by (subst extends_loop.simps) simp
    also have "\<dots> \<longleftrightarrow> (\<exists>k. k + (steps + 1) \<le> 100000 \<and> ancestor tr (n_parent p) k = Some target)"
      using 1 False p by simp
    also have "\<dots> \<longleftrightarrow> (\<exists>k. k + steps \<le> 100000 \<and> ancestor tr cur k = Some target)"
    proof
      assume "\<exists>k. k + (steps + 1) \<le> 100000 \<and> ancestor tr (n_parent p) k = Some target"
      then obtain k where "k + (steps + 1) \<le> 100000" "ancestor tr (n_parent p) k = Some target"
        by blast
      then show "\<exists>k. k + steps \<le> 100000 \<and> ancestor tr cur k = Some target"
        using False p by (intro exI [of _ "Suc k"]) simp
    next
      assume "\<exists>k. k + steps \<le> 100000 \<and> ancestor tr cur k = Some target"
      then obtain k where k: "k + steps \<le> 100000" "ancestor tr cur k = Some target" by blast
      then obtain j where "k = Suc j" using False by (cases k) auto
      then show "\<exists>k. k + (steps + 1) \<le> 100000 \<and> ancestor tr (n_parent p) k = Some target"
        using k False p by (intro exI [of _ j]) auto
    qed
    finally show ?thesis .
  qed
qed

text \<open>
  \<^bold>\<open>C25\<close>. \<^verbatim>\<open>extends_from\<close> terminates and decides ancestry exactly: it answers true
  just when the target is the node itself or one of its ancestors at most 100000 links up, with
  every link before it known to the tree and before genesis.
\<close>

theorem extends_from_iff:
  "extends_from E node target tr \<longleftrightarrow>
     node_hash E node = target \<or>
     (\<exists>k. k \<le> 100000 \<and> ancestor tr (n_parent node) k = Some target)"
  by (auto simp: extends_from_def extends_loop_iff)

end
