(* ===== verification/Quorum_Cert.thy ===== *)
theory Quorum_Cert
  imports Replica_State
begin

text \<open>
  \<^verbatim>\<open>node/consensus-node/src/consensus/qc.rs\<close>: forming a quorum certificate from a
  vote bucket and verifying one. Both loops iterate as the source does; the order in which a hash
  map is walked comes from \<open>Externals\<close>. The counter of the verifier is a \<open>u32\<close>.
\<close>

type_synonym vote_bucket = "(u32, digest \<times> bytes) hashmap"

definition bucket_entry :: "('k, 'v list) hashmap \<Rightarrow> 'k \<Rightarrow> 'v list" where
  "bucket_entry m k = (case hm_get m k of None \<Rightarrow> [] | Some l \<Rightarrow> l)"

fun group_votes ::
  "vote_bucket \<Rightarrow> u32 list \<Rightarrow> (digest, (u32 \<times> bytes) list) hashmap
     \<Rightarrow> (digest, (u32 \<times> bytes) list) hashmap" where
  "group_votes votes [] by_node = by_node"
| "group_votes votes (voter # order) by_node =
     (case hm_get votes voter of
        None \<Rightarrow> group_votes votes order by_node
      | Some (nh, sig) \<Rightarrow>
          group_votes votes order
            (hm_insert nh (bucket_entry by_node nh @ [(voter, sig)]) by_node))"

fun pick_quorum ::
  "(digest, (u32 \<times> bytes) list) hashmap \<Rightarrow> digest list \<Rightarrow> MsgType \<Rightarrow> u64 \<Rightarrow> u32 \<Rightarrow> QC option" where
  "pick_quorum by_node [] mt view quorum = None"
| "pick_quorum by_node (nh # order) mt view quorum =
     (let sigs = bucket_entry by_node nh
      in if unat quorum \<le> length sigs
         then Some \<lparr>qc_msg_type = mt, qc_view = view, qc_node_hash = nh, qc_sigs = sigs\<rparr>
         else pick_quorum by_node order mt view quorum)"

definition form_qc :: "Externals \<Rightarrow> vote_bucket \<Rightarrow> MsgType \<Rightarrow> u64 \<Rightarrow> u32 \<Rightarrow> QC option" where
  "form_qc E votes mt view quorum =
     (let by_node = group_votes votes (iter_u32 E (hm_keys votes)) hm_empty
      in pick_quorum by_node (iter_digest E (hm_keys by_node)) mt view quorum)"

fun verify_loop ::
  "Externals \<Rightarrow> QC \<Rightarrow> (u32, digest) hashmap \<Rightarrow> u32 list \<Rightarrow> u32 \<Rightarrow> (u32 \<times> bytes) list \<Rightarrow> u32" where
  "verify_loop E qc keys seen cnt [] = cnt"
| "verify_loop E qc keys seen cnt ((voter, sig) # sigs) =
     (if voter \<in> set seen then verify_loop E qc keys seen cnt sigs
      else case hm_get keys voter of
             None \<Rightarrow> verify_loop E qc keys seen cnt sigs
           | Some pk \<Rightarrow>
               if verify_vote_sig E pk (qc_msg_type qc) (qc_view qc) (qc_node_hash qc) sig
               then verify_loop E qc keys (hs_insert voter seen) (cnt + 1) sigs
               else verify_loop E qc keys seen cnt sigs)"

definition verify_qc_sync :: "Externals \<Rightarrow> QC \<Rightarrow> u32 \<Rightarrow> (u32, digest) hashmap \<Rightarrow> bool" where
  "verify_qc_sync E qc quorum keys \<longleftrightarrow> quorum \<le> verify_loop E qc keys [] 0 (qc_sigs qc)"

subsection \<open>Reference definitions\<close>

text \<open>The voters of a bucket for one node, and the valid signers of a certificate.\<close>

definition voters_for :: "vote_bucket \<Rightarrow> digest \<Rightarrow> u32 set" where
  "voters_for votes nh = {i. \<exists>sig. hm_get votes i = Some (nh, sig)}"

definition valid_sig :: "Externals \<Rightarrow> (u32, digest) hashmap \<Rightarrow> QC \<Rightarrow> u32 \<Rightarrow> bytes \<Rightarrow> bool" where
  "valid_sig E keys qc voter sig \<longleftrightarrow>
     (\<exists>pk. hm_get keys voter = Some pk \<and>
        verify_vote_sig E pk (qc_msg_type qc) (qc_view qc) (qc_node_hash qc) sig)"

definition valid_signers :: "Externals \<Rightarrow> (u32, digest) hashmap \<Rightarrow> QC \<Rightarrow> u32 set" where
  "valid_signers E keys qc = {i. \<exists>sig. (i, sig) \<in> set (qc_sigs qc) \<and> valid_sig E keys qc i sig}"

fun sigs_for :: "vote_bucket \<Rightarrow> u32 list \<Rightarrow> digest \<Rightarrow> (u32 \<times> bytes) list" where
  "sigs_for votes [] nh = []"
| "sigs_for votes (voter # order) nh =
     (case hm_get votes voter of
        Some (h, sig) \<Rightarrow> (if h = nh then [(voter, sig)] else []) @ sigs_for votes order nh
      | None \<Rightarrow> sigs_for votes order nh)"

subsection \<open>Forming a certificate\<close>

lemma bucket_entry_simps [simp]:
  "bucket_entry hm_empty k = []"
  "bucket_entry (hm_insert j l m) k = (if k = j then l else bucket_entry m k)"
  by (simp_all add: bucket_entry_def)

lemma group_votes_entry:
  "bucket_entry (group_votes votes order m) nh = bucket_entry m nh @ sigs_for votes order nh"
  by (induction votes order m rule: group_votes.induct) (auto split: option.splits)

lemma group_votes_dom:
  "hm_get (group_votes votes order m) nh \<noteq> None \<longleftrightarrow>
     hm_get m nh \<noteq> None \<or> sigs_for votes order nh \<noteq> []"
  by (induction votes order m rule: group_votes.induct) (auto split: option.splits if_splits)

lemma set_sigs_for:
  "set (sigs_for votes order nh) = {(i, sig). i \<in> set order \<and> hm_get votes i = Some (nh, sig)}"
  by (induction votes order nh rule: sigs_for.induct) (auto split: option.splits)

lemma distinct_sigs_for: "distinct order \<Longrightarrow> distinct (map fst (sigs_for votes order nh))"
  by (induction votes order nh rule: sigs_for.induct) (force simp: set_sigs_for split: option.splits)+

lemma length_sigs_for:
  assumes "distinct order" and "set order = dom (hm_get votes)"
  shows "length (sigs_for votes order nh) = card (voters_for votes nh)"
proof -
  have "fst ` set (sigs_for votes order nh) = voters_for votes nh"
    using assms(2) by (force simp: set_sigs_for voters_for_def image_iff)
  then show ?thesis
    using distinct_card [OF distinct_sigs_for [OF assms(1), of votes nh]] by simp
qed

lemma pick_quorum_Some:
  "pick_quorum m order mt view q = Some qc \<Longrightarrow>
     \<exists>nh \<in> set order. unat q \<le> length (bucket_entry m nh) \<and>
       qc = \<lparr>qc_msg_type = mt, qc_view = view, qc_node_hash = nh, qc_sigs = bucket_entry m nh\<rparr>"
  by (induction m order mt view q rule: pick_quorum.induct) (auto simp: Let_def split: if_splits)

lemma pick_quorum_None:
  "pick_quorum m order mt view q = None \<longleftrightarrow> (\<forall>nh \<in> set order. length (bucket_entry m nh) < unat q)"
  by (induction m order mt view q rule: pick_quorum.induct) (auto simp: Let_def)

lemma form_qc_order:
  assumes "hm_ok votes" and "iterates (iter_u32 E)"
  shows "distinct (iter_u32 E (hm_keys votes))" and "set (iter_u32 E (hm_keys votes)) = dom (hm_get votes)"
  using assms by (simp_all add: iterates_distinct iterates_set hm_keys_dom hm_ok_def)
    (simp add: hm_keys_def)

lemma form_qc_SomeD:
  assumes "form_qc E votes mt view q = Some qc"
    and "hm_ok votes" and "iterates (iter_u32 E)"
  shows "qc_msg_type qc = mt \<and> qc_view qc = view \<and> distinct (map fst (qc_sigs qc)) \<and>
    set (qc_sigs qc) = {(i, sig). hm_get votes i = Some (qc_node_hash qc, sig)} \<and>
    unat q \<le> length (qc_sigs qc)"
proof -
  let ?order = "iter_u32 E (hm_keys votes)"
  note ord = form_qc_order [OF assms(2,3)]
  obtain nh where "unat q \<le> length (sigs_for votes ?order nh)"
    and "qc = \<lparr>qc_msg_type = mt, qc_view = view, qc_node_hash = nh, qc_sigs = sigs_for votes ?order nh\<rparr>"
    using assms(1) by (auto simp: form_qc_def Let_def group_votes_entry dest!: pick_quorum_Some)
  then show ?thesis
    using ord by (auto simp: distinct_sigs_for set_sigs_for)
qed

lemma form_qc_cases:
  assumes "hm_ok votes" and "iterates (iter_u32 E)" and "iterates (iter_digest E)" and "0 < quorum"
  shows "case form_qc E votes mt view quorum of
      Some qc \<Rightarrow>
        qc_msg_type qc = mt \<and> qc_view qc = view \<and> distinct (map fst (qc_sigs qc)) \<and>
        set (qc_sigs qc) = {(i, sig). hm_get votes i = Some (qc_node_hash qc, sig)} \<and>
        unat quorum \<le> card (voters_for votes (qc_node_hash qc))
    | None \<Rightarrow> \<forall>nh. card (voters_for votes nh) < unat quorum"
proof (cases "form_qc E votes mt view quorum")
  case None
  let ?order = "iter_u32 E (hm_keys votes)" and ?m = "group_votes votes (iter_u32 E (hm_keys votes)) hm_empty"
  note ord = form_qc_order [OF assms(1,2)]
  have "card (voters_for votes nh) < unat quorum" for nh
  proof (cases "hm_get ?m nh")
    case None
    then have "sigs_for votes ?order nh = []"
      using group_votes_dom [of votes ?order hm_empty nh] by simp
    then show ?thesis
      using length_sigs_for [OF ord, of nh] assms(4) by (simp add: word_less_nat_alt)
  next
    case (Some l)
    then have "nh \<in> set (iter_digest E (hm_keys ?m))"
      by (auto simp: iterates_set [OF assms(3)] hm_keys_dom)
    then show ?thesis
      using None length_sigs_for [OF ord, of nh]
      by (auto simp: form_qc_def Let_def pick_quorum_None group_votes_entry)
  qed
  then show ?thesis using None by simp
next
  case (Some qc)
  note * = form_qc_SomeD [OF Some assms(1,2)]
  have "fst ` set (qc_sigs qc) = voters_for votes (qc_node_hash qc)"
    using * by (force simp: voters_for_def image_iff)
  then have "length (qc_sigs qc) = card (voters_for votes (qc_node_hash qc))"
    using * distinct_card [of "map fst (qc_sigs qc)"] by simp
  then show ?thesis using * Some by simp
qed

text \<open>
  \<^bold>\<open>C26\<close>. \<^verbatim>\<open>form_qc\<close> on a vote bucket, for every iteration order: a certificate it
  returns has the requested type and view and carries exactly the bucket's votes for one node, one
  per voter, at least \<open>quorum\<close> of them; it returns none exactly when no node has that
  many votes.
\<close>

theorem form_qc_correct:
  assumes "hm_ok votes" and "iterates (iter_u32 E)" and "iterates (iter_digest E)" and "0 < quorum"
  shows "case form_qc E votes mt view quorum of
      Some qc \<Rightarrow>
        qc_msg_type qc = mt \<and> qc_view qc = view \<and> distinct (map fst (qc_sigs qc)) \<and>
        set (qc_sigs qc) = {(i, sig). hm_get votes i = Some (qc_node_hash qc, sig)} \<and>
        unat quorum \<le> card (voters_for votes (qc_node_hash qc))
    | None \<Rightarrow> \<forall>nh. card (voters_for votes nh) < unat quorum"
  using form_qc_cases [OF assms] .

subsection \<open>Verifying a certificate\<close>

lemma verify_loop_count:
  "\<exists>vs. distinct vs \<and> set vs \<inter> set seen = {} \<and>
     set vs = {i. \<exists>sig. (i, sig) \<in> set sigs \<and> valid_sig E keys qc i sig} - set seen \<and>
     verify_loop E qc keys seen cnt sigs = cnt + of_nat (length vs)"
proof (induction sigs arbitrary: seen cnt)
  case (Cons p sigs)
  obtain voter sig where p: "p = (voter, sig)" by force
  show ?case
  proof (cases "voter \<notin> set seen \<and> valid_sig E keys qc voter sig")
    case True
    then obtain pk where pk: "hm_get keys voter = Some pk"
      "verify_vote_sig E pk (qc_msg_type qc) (qc_view qc) (qc_node_hash qc) sig"
      by (auto simp: valid_sig_def)
    obtain vs where vs: "distinct vs" "set vs \<inter> set (hs_insert voter seen) = {}"
      "set vs = {i. \<exists>sig. (i, sig) \<in> set sigs \<and> valid_sig E keys qc i sig} - set (hs_insert voter seen)"
      "verify_loop E qc keys (hs_insert voter seen) (cnt + 1) sigs = cnt + 1 + of_nat (length vs)"
      using Cons.IH by blast
    show ?thesis
      using vs pk True p by (intro exI [of _ "voter # vs"]) auto
  next
    case False
    then have "verify_loop E qc keys seen cnt (p # sigs) = verify_loop E qc keys seen cnt sigs"
      by (auto simp: p valid_sig_def split: option.splits)
    moreover have "{i. \<exists>s. (i, s) \<in> set (p # sigs) \<and> valid_sig E keys qc i s} - set seen =
        {i. \<exists>s. (i, s) \<in> set sigs \<and> valid_sig E keys qc i s} - set seen"
      using False p by auto
    ultimately show ?thesis using Cons.IH by simp
  qed
qed simp

lemma verify_loop_card:
  "verify_loop E qc keys [] 0 (qc_sigs qc) = of_nat (card (valid_signers E keys qc))"
proof -
  obtain vs where "distinct vs" "set vs = valid_signers E keys qc"
    "verify_loop E qc keys [] 0 (qc_sigs qc) = of_nat (length vs)"
    using verify_loop_count [of "[]" "qc_sigs qc" E keys qc 0] by (auto simp: valid_signers_def)
  then show ?thesis using distinct_card [of vs] by simp
qed

lemma verify_qc_iff:
  assumes "length (qc_sigs qc) < 2 ^ 32"
  shows "verify_qc_sync E qc quorum keys \<longleftrightarrow> unat quorum \<le> card (valid_signers E keys qc)"
proof -
  have "valid_signers E keys qc \<subseteq> fst ` set (qc_sigs qc)"
    by (force simp: valid_signers_def)
  then have "card (valid_signers E keys qc) \<le> card (fst ` set (qc_sigs qc))"
    by (intro card_mono) simp_all
  also have "\<dots> \<le> length (qc_sigs qc)"
    using card_image_le [of "set (qc_sigs qc)" fst] card_length [of "qc_sigs qc"] by simp
  finally have "card (valid_signers E keys qc) < 2 ^ 32" using assms by simp
  then show ?thesis
    by (simp add: verify_qc_sync_def verify_loop_card word_le_nat_alt unat_of_nat)
qed

text \<open>
  \<^bold>\<open>C27\<close>. \<^verbatim>\<open>verify_qc\<close> accepts exactly the certificates signed validly by a quorum:
  at least \<open>quorum\<close> distinct voters with a known key and a signature that verifies over the
  certificate's own type, view and node (the certificate lists fewer than \<open>2 ^ 32\<close>
  signatures, so the \<open>u32\<close> counter does not wrap); repeated signatures, unknown voters and
  bad signatures are not counted.
\<close>

theorem verify_qc_correct:
  assumes "length (qc_sigs qc) < 2 ^ 32"
  shows "verify_qc_sync E qc quorum keys \<longleftrightarrow> unat quorum \<le> card (valid_signers E keys qc)"
  using verify_qc_iff [OF assms] .

text \<open>Without the bound the verifier can only under-count.\<close>

lemma verify_qc_sound:
  assumes "verify_qc_sync E qc quorum keys"
  shows "unat quorum \<le> card (valid_signers E keys qc)"
proof -
  have "unat (of_nat (card (valid_signers E keys qc)) :: u32) \<le> card (valid_signers E keys qc)"
    by (simp add: unat_of_nat)
  then show ?thesis
    using assms by (simp add: verify_qc_sync_def verify_loop_card word_le_nat_alt)
qed

lemma valid_signers_keys: "valid_signers E keys qc \<subseteq> dom (hm_get keys)"
  by (auto simp: valid_signers_def valid_sig_def)

lemma finite_valid_signers: "finite (valid_signers E keys qc)"
  by simp

text \<open>
  Round trip: a certificate formed from a bucket in which every vote carries a
  signature its voter's key verifies is accepted by every replica that holds those keys.
\<close>

lemma form_verify_roundtrip:
  assumes "form_qc E votes mt view quorum = Some qc"
    and "hm_ok votes" and "iterates (iter_u32 E)" and "hm_len votes < 2 ^ 32"
    and "\<And>i nh sig. hm_get votes i = Some (nh, sig) \<Longrightarrow>
           \<exists>pk. hm_get keys i = Some pk \<and> verify_vote_sig E pk mt view nh sig"
  shows "verify_qc_sync E qc quorum keys"
proof -
  note * = form_qc_SomeD [OF assms(1-3)]
  have "fst ` set (qc_sigs qc) \<subseteq> valid_signers E keys qc"
    using * assms(5) by (fastforce simp: valid_signers_def valid_sig_def)
  then have "card (set (map fst (qc_sigs qc))) \<le> card (valid_signers E keys qc)"
    by (intro card_mono) simp_all
  then have q: "unat quorum \<le> card (valid_signers E keys qc)"
    using * distinct_card [of "map fst (qc_sigs qc)"] by simp
  have "fst ` set (qc_sigs qc) \<subseteq> dom (hm_get votes)"
    using * by auto
  then have "card (fst ` set (qc_sigs qc)) \<le> card (dom (hm_get votes))"
    by (rule card_mono [OF hash_dict.finite_dom [OF assms(2)]])
  then have "length (qc_sigs qc) \<le> hm_len votes"
    using * distinct_card [of "map fst (qc_sigs qc)"] hash_dict.len_card [OF assms(2)] by simp
  then show ?thesis
    using q assms(4) by (simp add: verify_qc_iff)
qed

end
