(* ===== verification/Workload.thy ===== *)
theory Workload
  imports Messages
begin

text \<open>
  \<^verbatim>\<open>node/consensus-node/src/workload.rs\<close>: the on-disk layout of a workload and the
  loading of one block's metadata. A path is its list of components. The file system, the JSON
  and hex decoders and the SP1 verifier are one record of functions, \<open>Platform\<close>;
  every failure the source turns into a panic is a value of \<open>panic\<close>.
\<close>

type_synonym path = "string list"

datatype panic =
    ManifestUnreadable
  | ManifestUnparsable
  | CommitUnreadable
  | CommitUnparsable
  | WorkloadCorruption u64 u32
  | InvalidTxHash string
  | PublicValuesUnreadable
  | ElfUnreadable
  | ProverSetupFailed
  | ChainNodeMissing
  | ChainBreak u64 "digest option" digest
  | Diverges

record Manifest =
  num_accounts :: u32
  initial_balance :: u64
  num_blocks :: u32

record BlockMeta =
  block_number :: u32
  meta_tx_hash :: string
  txs_total :: u32

record BlockRef =
  b_cmd :: digest
  b_meta :: BlockMeta
  b_txs_path :: path
  b_proof_path :: path

record Workload =
  wl_dir :: path
  wl_manifest :: Manifest

record Platform =
  fs_read :: "path \<Rightarrow> bytes option"
  parse_manifest :: "bytes \<Rightarrow> Manifest option"
  parse_commit :: "bytes \<Rightarrow> BlockMeta option"
  hex_decode :: "string \<Rightarrow> digest option"
  de_txs :: "bytes \<Rightarrow> Tx list option"
  de_proof :: "bytes \<Rightarrow> bytes option"
  sp1_setup :: "bytes \<Rightarrow> bytes option"
  sp1_verify :: "bytes \<Rightarrow> bytes \<Rightarrow> bool"
  read_public_values :: "bytes \<Rightarrow> BlockCommit option"

subsection \<open>Directory names\<close>

definition digit :: "nat \<Rightarrow> char" where
  "digit d = char_of (48 + d)"

fun decimal :: "nat \<Rightarrow> string" where
  "decimal n = (if n < 10 then [digit n] else decimal (n div 10) @ [digit (n mod 10)])"

declare decimal.simps [simp del]

text \<open>The format \<^verbatim>\<open>{:04}\<close>: decimal, padded on the left with zeros to four characters.\<close>

definition pad4 :: "string \<Rightarrow> string" where
  "pad4 s = replicate (4 - length s) CHR ''0'' @ s"

definition block_dir :: "path \<Rightarrow> u64 \<Rightarrow> path" where
  "block_dir dir height = dir @ [''block_'' @ pad4 (decimal (unat height))]"

subsection \<open>Loading\<close>

definition Workload_load :: "Platform \<Rightarrow> path \<Rightarrow> panic + Workload" where
  "Workload_load P dir =
     (case fs_read P (dir @ [''manifest.json'']) of
        None \<Rightarrow> Inl ManifestUnreadable
      | Some b \<Rightarrow>
          (case parse_manifest P b of
             None \<Rightarrow> Inl ManifestUnparsable
           | Some m \<Rightarrow> Inr \<lparr>wl_dir = dir, wl_manifest = m\<rparr>))"

definition elf_path :: "Workload \<Rightarrow> path" where
  "elf_path wl = wl_dir wl @ [''ledger-program.elf'']"

definition block_at :: "Platform \<Rightarrow> path \<Rightarrow> u64 \<Rightarrow> panic + BlockRef" where
  "block_at P dir height =
     (case fs_read P (block_dir dir height @ [''commit.json'']) of
        None \<Rightarrow> Inl CommitUnreadable
      | Some b \<Rightarrow>
          (case parse_commit P b of
             None \<Rightarrow> Inl CommitUnparsable
           | Some meta \<Rightarrow>
               if ucast (block_number meta) \<noteq> height
               then Inl (WorkloadCorruption height (block_number meta))
               else (case hex_decode P (meta_tx_hash meta) of
                       None \<Rightarrow> Inl (InvalidTxHash (meta_tx_hash meta))
                     | Some c \<Rightarrow>
                         Inr \<lparr>b_cmd = c, b_meta = meta,
                              b_txs_path = block_dir dir height @ [''transactions.bin''],
                              b_proof_path = block_dir dir height @ [''proof.bin'']\<rparr>)))"

definition block :: "Platform \<Rightarrow> Workload \<Rightarrow> u64 \<Rightarrow> panic + BlockRef" where
  "block P wl height = block_at P (wl_dir wl) height"

subsection \<open>Facts\<close>

definition digit_val :: "char \<Rightarrow> nat" where
  "digit_val c = of_char c - 48"

definition decimal_val :: "string \<Rightarrow> nat" where
  "decimal_val s = fold (\<lambda>c n. 10 * n + digit_val c) s 0"

lemma digit_val_digit: "d < 10 \<Longrightarrow> digit_val (digit d) = d"
  by (simp add: digit_val_def digit_def of_char_of)

lemma digit_simps:
  "digit 0 = CHR ''0''" "digit (Suc 0) = CHR ''1''" "digit 1 = CHR ''1''" "digit 2 = CHR ''2''" "digit 3 = CHR ''3''"
  "digit 4 = CHR ''4''" "digit 5 = CHR ''5''" "digit 6 = CHR ''6''" "digit 7 = CHR ''7''"
  "digit 8 = CHR ''8''" "digit 9 = CHR ''9''"
  by (simp_all add: digit_def char_of_def bit_0)

lemma decimal_val_snoc: "decimal_val (s @ [c]) = 10 * decimal_val s + digit_val c"
  by (simp add: decimal_val_def)

lemma decimal_val_decimal: "decimal_val (decimal n) = n"
proof (induction n rule: decimal.induct)
  case (1 n)
  then show ?case
    by (cases "n < 10")
      (simp_all add: decimal.simps [of n] decimal_val_snoc digit_val_digit,
       simp add: decimal_val_def digit_val_digit)
qed

lemma decimal_val_zeros: "decimal_val (replicate k CHR ''0'' @ s) = decimal_val s"
proof (induction k)
  case (Suc k)
  have "digit_val CHR ''0'' = 0" by (simp add: digit_val_def)
  then show ?case using Suc by (simp add: decimal_val_def)
qed simp

lemma block_dir_inject: "block_dir dir h = block_dir dir h' \<longleftrightarrow> h = h'"
proof
  assume "block_dir dir h = block_dir dir h'"
  then have "decimal_val (pad4 (decimal (unat h))) = decimal_val (pad4 (decimal (unat h')))"
    by (simp add: block_dir_def)
  then have "unat h = unat h'"
    by (simp add: pad4_def decimal_val_zeros decimal_val_decimal)
  then show "h = h'" by (rule unsigned_word_eqI)
qed simp

text \<open>
  \<^bold>\<open>C28\<close>. Loading a block yields a reference that belongs to the requested height: its
  metadata carries that height, its command is the decoded transaction hash of the metadata, its
  two files are in that height's own directory, and a block of another height has other files.
\<close>

theorem block_at_height:
  assumes "block_at P dir h = Inr b" and "block_at P dir h' = Inr b'"
  shows "ucast (block_number (b_meta b)) = h \<and>
    hex_decode P (meta_tx_hash (b_meta b)) = Some (b_cmd b) \<and>
    b_txs_path b = block_dir dir h @ [''transactions.bin''] \<and>
    b_proof_path b = block_dir dir h @ [''proof.bin''] \<and>
    (h \<noteq> h' \<longrightarrow> b_txs_path b \<noteq> b_txs_path b' \<and> b_proof_path b \<noteq> b_proof_path b')"
  using assms by (auto simp: block_at_def block_dir_inject split: option.splits if_splits)

end
