(* ===== verification/Validator.thy ===== *)
theory Validator
  imports Workload
begin

text \<open>
  \<^verbatim>\<open>node/consensus-node/src/validator.rs\<close>: one unit of validation work. Elapsed times
  are not modelled; the sleep a slow node adds is \<open>slow_delay_ns\<close>. The prover client is
  the function \<open>sp1_verify\<close> of \<open>Platform\<close>, a verifying key its bytes.
\<close>

datatype Validator =
    Reexecute u64
  | Verify bytes

fun kind :: "Validator \<Rightarrow> string" where
  "kind (Reexecute _) = ''reexec''"
| "kind (Verify _) = ''verify''"

record ValidateRequest =
  req_node_hash :: digest
  req_height :: u64
  req_txs_path :: path
  req_proof_path :: path
  req_txs_total :: u32

record ValidateOutcome =
  out_node_hash :: digest
  out_height :: u64
  out_valid :: bool
  out_post_state :: "State option"
  out_post_root :: "digest option"
  out_pre_root :: "digest option"

definition invalid_outcome :: "ValidateRequest \<Rightarrow> ValidateOutcome" where
  "invalid_outcome req =
     \<lparr>out_node_hash = req_node_hash req, out_height = req_height req, out_valid = False,
      out_post_state = None, out_post_root = None, out_pre_root = None\<rparr>"

definition slow_delay_ns :: "u64 \<Rightarrow> ValidateRequest \<Rightarrow> u64" where
  "slow_delay_ns slow_delay_per_tx_ns req =
     (if slow_delay_per_tx_ns > 0 then slow_delay_per_tx_ns * ucast (req_txs_total req) else 0)"

fun run_validation ::
  "Platform \<Rightarrow> ValidateRequest \<Rightarrow> State \<Rightarrow> Validator \<Rightarrow> panic + ValidateOutcome" where
  "run_validation P req snapshot (Reexecute slow) =
     (case fs_read P (req_txs_path req) of
        None \<Rightarrow> Inr (invalid_outcome req)
      | Some txs_bytes \<Rightarrow>
          (case de_txs P txs_bytes of
             None \<Rightarrow> Inr (invalid_outcome req)
           | Some txs \<Rightarrow>
               Inr \<lparr>out_node_hash = req_node_hash req, out_height = req_height req, out_valid = True,
                    out_post_state = Some (fst (apply_block snapshot txs)),
                    out_post_root = None, out_pre_root = None\<rparr>))"
| "run_validation P req snapshot (Verify vkey) =
     (case fs_read P (req_proof_path req) of
        None \<Rightarrow> Inr (invalid_outcome req)
      | Some proof_bytes \<Rightarrow>
          (case de_proof P proof_bytes of
             None \<Rightarrow> Inr (invalid_outcome req)
           | Some proof \<Rightarrow>
               if \<not> sp1_verify P proof vkey then Inr (invalid_outcome req)
               else (case read_public_values P proof of
                       None \<Rightarrow> Inl PublicValuesUnreadable
                     | Some c \<Rightarrow>
                         Inr \<lparr>out_node_hash = req_node_hash req, out_height = req_height req,
                              out_valid = True, out_post_state = None,
                              out_post_root = Some (post_state_root c),
                              out_pre_root = Some (pre_state_root c)\<rparr>)))"

subsection \<open>Facts\<close>

lemma run_validation_hash:
  "run_validation P req s v = Inr out \<Longrightarrow>
     out_node_hash out = req_node_hash req \<and> out_height out = req_height req"
  by (cases v) (auto simp: invalid_outcome_def split: option.splits if_splits)

text \<open>
  \<^bold>\<open>C29\<close>. Proof verification in place of re-execution: if the proof system is sound for
  the guest program (a proof that verifies under the key has public values that some run of the
  guest committed), every block a verifying node accepts has the roots of a real application of
  \<^verbatim>\<open>apply_block\<close>; the node learns the two roots and no state.
\<close>

theorem verify_outcome_sound:
  assumes sound: "\<And>proof c. sp1_verify P proof vkey \<Longrightarrow> read_public_values P proof = Some c \<Longrightarrow>
      \<exists>s txs. guest_main sha s txs = Some c"
    and "run_validation P req snapshot (Verify vkey) = Inr out" and "out_valid out"
  shows "out_post_state out = None \<and>
    (\<exists>s txs. out_pre_root out = compute_state_root sha s \<and>
             out_post_root out = compute_state_root sha (fst (apply_block s txs)))"
proof -
  obtain pf c where "sp1_verify P pf vkey" "read_public_values P pf = Some c"
    and out: "out_post_state out = None" "out_pre_root out = Some (pre_state_root c)"
      "out_post_root out = Some (post_state_root c)"
    using assms(2,3) by (auto simp: invalid_outcome_def split: option.splits if_splits)
  then obtain s txs where "guest_main sha s txs = Some c" using sound by blast
  then have "compute_state_root sha s = Some (pre_state_root c)"
    "compute_state_root sha (fst (apply_block s txs)) = Some (post_state_root c)"
    by (auto simp: guest_main_def Let_def split: option.splits)
  then show ?thesis using out by metis
qed

end
