(* ===== verification/Replica.thy ===== *)
theory Replica
  imports Quorum_Cert Validator
begin

text \<open>
  What a consensus step of a node reads and writes: \<^verbatim>\<open>Wiring\<close> of
  \<^verbatim>\<open>consensus/mod.rs\<close> (with the external functions), and the mutable world of the event
  loop: the \<open>ReplicaState\<close> extended by \<^verbatim>\<open>live_state\<close>, \<^verbatim>\<open>chained_root\<close>,
  the messages, timers and log lines a step hands to the runtime (\<open>outbox\<close>, oldest first)
  and the queue of the validator worker (\<^verbatim>\<open>val_req_tx\<close>). \<open>history\<close> is a history
  variable that no step reads: the votes signed and the nodes put into a tree, newest first. A
  step ends normally or in a panic, and a panic keeps the state reached so far.
\<close>

record Wiring =
  my_id :: u32
  sk :: digest
  env :: Externals
  plat :: Platform
  workload :: Workload
  timeout_base_ms :: u64

datatype jval = JNum int | JHex digest | JStr string | JBool bool

datatype effect =
    Broadcast Wire
  | SendTo u32 Wire
  | ArmTimer TimerEvent u64
  | LogEvent u64 string "(string \<times> jval) list"

datatype hevent =
    Signed u32 MsgType u64 digest
  | Known Node

record Replica = ReplicaState +
  live_state :: State
  chained_root :: digest
  outbox :: "effect list"
  val_queue :: "(ValidateRequest \<times> State) list"
  history :: "hevent list"

datatype outcome = Ok Replica | Panicked panic Replica

fun out_state :: "outcome \<Rightarrow> Replica" where
  "out_state (Ok r) = r"
| "out_state (Panicked e r) = r"

fun and_then :: "outcome \<Rightarrow> (Replica \<Rightarrow> outcome) \<Rightarrow> outcome" where
  "and_then (Ok r) f = f r"
| "and_then (Panicked e r) f = Panicked e r"

definition emit :: "effect \<Rightarrow> Replica \<Rightarrow> Replica" where
  "emit e r = r\<lparr>outbox := outbox r @ [e]\<rparr>"

definition log_event :: "u64 \<Rightarrow> string \<Rightarrow> (string \<times> jval) list \<Rightarrow> Replica \<Rightarrow> Replica" where
  "log_event view event extras r = emit (LogEvent view event extras) r"

definition tree_insert :: "digest \<Rightarrow> Node \<Rightarrow> Replica \<Rightarrow> Replica" where
  "tree_insert h nd r = r\<lparr>tree := hm_insert h nd (tree r), history := Known nd # history r\<rparr>"

lemma and_then_Ok_iff:
  "and_then x f = Ok r \<longleftrightarrow> (\<exists>r1. x = Ok r1 \<and> f r1 = Ok r)"
  by (cases x) auto

lemma out_state_and_then:
  "out_state (and_then x f) = (case x of Ok r \<Rightarrow> out_state (f r) | Panicked e r \<Rightarrow> r)"
  by (cases x) auto

subsection \<open>Frames\<close>

lemma vd_mut_frame_replica [simp]:
  "live_state (vd_mut v f r) = live_state r" "chained_root (vd_mut v f r) = chained_root r"
  "outbox (vd_mut v f r) = outbox r" "val_queue (vd_mut v f r) = val_queue r"
  "history (vd_mut v f r) = history r"
  by (simp_all add: vd_mut_def)

lemma vd_entry_update [simp]:
  "vd_entry (r\<lparr>rs_view := a\<rparr>) v = vd_entry r v"
  "vd_entry (r\<lparr>locked_qc := b\<rparr>) v = vd_entry r v"
  "vd_entry (r\<lparr>prepare_qc := b\<rparr>) v = vd_entry r v"
  "vd_entry (r\<lparr>last_executed_height := i\<rparr>) v = vd_entry r v"
  "vd_entry (r\<lparr>tree := t\<rparr>) v = vd_entry r v"
  "vd_entry (r\<lparr>pending_validation := p\<rparr>) v = vd_entry r v"
  "vd_entry (r\<lparr>decided_nodes := ds\<rparr>) v = vd_entry r v"
  "vd_entry (r\<lparr>staged_pre_commit_qc := s\<rparr>) v = vd_entry r v"
  "vd_entry (r\<lparr>staged_commit_qc := s\<rparr>) v = vd_entry r v"
  "vd_entry (r\<lparr>staged_decide_qc := s\<rparr>) v = vd_entry r v"
  "vd_entry (r\<lparr>timeout_interval_ms := a\<rparr>) v = vd_entry r v"
  by (simp_all add: vd_entry_def vd_def)

lemma vd_entry_update_replica [simp]:
  "vd_entry (r\<lparr>val_queue := q\<rparr>) v = vd_entry r v"
  "vd_entry (r\<lparr>outbox := o'\<rparr>) v = vd_entry r v"
  "vd_entry (r\<lparr>history := H\<rparr>) v = vd_entry r v"
  "vd_entry (emit e r) v = vd_entry r v"
  "vd_entry (log_event u ev x r) v = vd_entry r v"
  "vd_entry (tree_insert h nd r) v = vd_entry r v"
  by (simp_all add: vd_entry_def vd_def emit_def log_event_def tree_insert_def)

lemma emit_frame [simp]:
  "rs_n (emit e r) = rs_n r" "rs_quorum (emit e r) = rs_quorum r" "rs_view (emit e r) = rs_view r"
  "locked_qc (emit e r) = locked_qc r" "prepare_qc (emit e r) = prepare_qc r"
  "last_executed_height (emit e r) = last_executed_height r" "view_data (emit e r) = view_data r"
  "tree (emit e r) = tree r" "validation_result (emit e r) = validation_result r"
  "pending_validation (emit e r) = pending_validation r"
  "post_state_by_node (emit e r) = post_state_by_node r"
  "post_root_by_node (emit e r) = post_root_by_node r"
  "pre_root_by_node (emit e r) = pre_root_by_node r"
  "decided_nodes (emit e r) = decided_nodes r"
  "staged_pre_commit_qc (emit e r) = staged_pre_commit_qc r"
  "staged_commit_qc (emit e r) = staged_commit_qc r"
  "staged_decide_qc (emit e r) = staged_decide_qc r"
  "timeout_interval_ms (emit e r) = timeout_interval_ms r" "live_state (emit e r) = live_state r"
  "chained_root (emit e r) = chained_root r" "val_queue (emit e r) = val_queue r"
  "history (emit e r) = history r" "outbox (emit e r) = outbox r @ [e]"
  by (simp_all add: emit_def)

lemma log_event_frame [simp]:
  "rs_n (log_event u ev x r) = rs_n r" "rs_quorum (log_event u ev x r) = rs_quorum r"
  "rs_view (log_event u ev x r) = rs_view r" "locked_qc (log_event u ev x r) = locked_qc r"
  "prepare_qc (log_event u ev x r) = prepare_qc r"
  "last_executed_height (log_event u ev x r) = last_executed_height r"
  "view_data (log_event u ev x r) = view_data r"
  "tree (log_event u ev x r) = tree r" "validation_result (log_event u ev x r) = validation_result r"
  "pending_validation (log_event u ev x r) = pending_validation r"
  "post_state_by_node (log_event u ev x r) = post_state_by_node r"
  "post_root_by_node (log_event u ev x r) = post_root_by_node r"
  "pre_root_by_node (log_event u ev x r) = pre_root_by_node r"
  "decided_nodes (log_event u ev x r) = decided_nodes r"
  "staged_pre_commit_qc (log_event u ev x r) = staged_pre_commit_qc r"
  "staged_commit_qc (log_event u ev x r) = staged_commit_qc r"
  "staged_decide_qc (log_event u ev x r) = staged_decide_qc r"
  "timeout_interval_ms (log_event u ev x r) = timeout_interval_ms r"
  "live_state (log_event u ev x r) = live_state r"
  "chained_root (log_event u ev x r) = chained_root r" "val_queue (log_event u ev x r) = val_queue r"
  "history (log_event u ev x r) = history r"
  "outbox (log_event u ev x r) = outbox r @ [LogEvent u ev x]"
  by (simp_all add: log_event_def)

end
