(* ===== verification/Execute.thy ===== *)
theory Execute
  imports Replica
begin

text \<open>
  \<^verbatim>\<open>node/consensus-node/src/consensus/execute.rs\<close>: applying committed nodes to the live
  state and submitting work to the validator. The walk over parent links of
  \<^verbatim>\<open>try_execute_chain\<close> has no bound in the source; here it carries one unit of fuel per
  tree entry and one more, which is spent only by a walk that visits an entry twice and so never
  ends (\<open>Diverges\<close>).
\<close>

subsection \<open>Validation requests\<close>

text \<open>The state a node is validated against, or \<open>None\<close> where the kickoff is deferred.\<close>

definition kick_input :: "Replica \<Rightarrow> Node \<Rightarrow> State option" where
  "kick_input r node =
     (if n_parent node = GENESIS_HASH then
        (if last_executed_height r \<ge> 0 then None else Some (live_state r))
      else (case hm_get (tree r) (n_parent node) of
              Some parent_node \<Rightarrow>
                (if sint (n_height parent_node) \<le> last_executed_height r then Some (live_state r)
                 else hm_get (post_state_by_node r) (n_parent node))
            | None \<Rightarrow> None))"

definition maybe_kick_validation :: "Wiring \<Rightarrow> digest \<Rightarrow> Replica \<Rightarrow> outcome" where
  "maybe_kick_validation w leaf_hash r =
     (if hm_get (validation_result r) leaf_hash \<noteq> None then Ok r
      else if pending_validation r = Some leaf_hash then Ok r
      else case hm_get (tree r) leaf_hash of
        None \<Rightarrow> Ok r
      | Some node \<Rightarrow>
          (case block (plat w) (workload w) (n_height node) of
             Inl e \<Rightarrow> Panicked e r
           | Inr b \<Rightarrow>
               if b_cmd b \<noteq> n_cmd node then Ok r
               else (case kick_input r node of
                 None \<Rightarrow> Ok r
               | Some input_state \<Rightarrow>
                   let req = \<lparr>req_node_hash = leaf_hash, req_height = n_height node,
                              req_txs_path = b_txs_path b, req_proof_path = b_proof_path b,
                              req_txs_total = txs_total (b_meta b)\<rparr>;
                       r1 = r\<lparr>pending_validation := Some leaf_hash,
                              val_queue := val_queue r @ [(req, input_state)]\<rparr>
                   in Ok (log_event (rs_view r1) ''validate_start''
                            [(''height'', JNum (uint (n_height node)))] r1))))"

fun kick_loop :: "Wiring \<Rightarrow> digest list \<Rightarrow> Replica \<Rightarrow> outcome" where
  "kick_loop w [] r = Ok r"
| "kick_loop w (nh # leaves) r =
     (if pending_validation r \<noteq> None then Ok r
      else and_then (maybe_kick_validation w nh r) (kick_loop w leaves))"

definition try_kick_pending_validations :: "Wiring \<Rightarrow> Replica \<Rightarrow> outcome" where
  "try_kick_pending_validations w r = kick_loop w (iter_digest (env w) (hm_keys (tree r))) r"

subsection \<open>Execution\<close>

fun build_chain ::
  "nat \<Rightarrow> (digest, Node) hashmap \<Rightarrow> int \<Rightarrow> digest \<Rightarrow> digest list \<Rightarrow> digest list option" where
  "build_chain 0 tr last_h cur chain = None"
| "build_chain (Suc fuel) tr last_h cur chain =
     (case hm_get tr cur of
        None \<Rightarrow> Some chain
      | Some node \<Rightarrow>
          if sint (n_height node) \<le> last_h then Some chain
          else if n_parent node = GENESIS_HASH then Some (chain @ [cur])
          else build_chain fuel tr last_h (n_parent node) (chain @ [cur]))"

definition take_post_state :: "digest \<Rightarrow> Replica \<Rightarrow> Replica" where
  "take_post_state nh r =
     (case hm_get (post_state_by_node r) nh of
        Some ps \<Rightarrow> r\<lparr>post_state_by_node := hm_remove nh (post_state_by_node r), live_state := ps\<rparr>
      | None \<Rightarrow> r)"

definition take_post_root :: "digest \<Rightarrow> Replica \<Rightarrow> Replica" where
  "take_post_root nh r =
     (case hm_get (post_root_by_node r) nh of
        Some pr \<Rightarrow> r\<lparr>post_root_by_node := hm_remove nh (post_root_by_node r), chained_root := pr\<rparr>
      | None \<Rightarrow> r)"

definition execute_node :: "Wiring \<Rightarrow> digest \<Rightarrow> Node \<Rightarrow> Replica \<Rightarrow> outcome" where
  "execute_node w nh node r =
     (let target_height = n_height node;
          r1 = take_post_state nh r;
          finish = (\<lambda>r2. Ok (log_event (rs_view r2) ''execute''
                     [(''height'', JNum (uint target_height)), (''node_hash'', JHex nh)]
                     (r2\<lparr>last_executed_height := sint target_height\<rparr>)))
      in case hm_get (pre_root_by_node r1) nh of
           None \<Rightarrow> finish r1
         | Some pre \<Rightarrow>
             if target_height > 0 \<and> pre \<noteq> chained_root r1
             then Panicked (ChainBreak target_height (Some pre) (chained_root r1)) r1
             else finish (take_post_root nh r1))"

fun execute_loop :: "Wiring \<Rightarrow> digest list \<Rightarrow> Replica \<Rightarrow> outcome" where
  "execute_loop w [] r = Ok r"
| "execute_loop w (nh # chain) r =
     (case hm_get (tree r) nh of
        None \<Rightarrow> Panicked ChainNodeMissing r
      | Some node \<Rightarrow>
          if sint (n_height node) \<noteq> last_executed_height r + 1 then Ok r
          else (case hm_get (validation_result r) nh of
                  Some True \<Rightarrow> and_then (execute_node w nh node r) (execute_loop w chain)
                | Some False \<Rightarrow> Ok r
                | None \<Rightarrow> maybe_kick_validation w nh r))"

definition try_execute_chain :: "Wiring \<Rightarrow> digest \<Rightarrow> Replica \<Rightarrow> outcome" where
  "try_execute_chain w decided_hash r =
     (case build_chain (hm_len (tree r) + 1) (tree r) (last_executed_height r) decided_hash [] of
        None \<Rightarrow> Panicked Diverges r
      | Some chain \<Rightarrow> execute_loop w (rev chain) r)"

fun retry_loop :: "Wiring \<Rightarrow> digest list \<Rightarrow> Replica \<Rightarrow> outcome" where
  "retry_loop w [] r = Ok r"
| "retry_loop w (nh # hashes) r = and_then (try_execute_chain w nh r) (retry_loop w hashes)"

definition retry_pending_execute :: "Wiring \<Rightarrow> Replica \<Rightarrow> outcome" where
  "retry_pending_execute w r = retry_loop w (iter_digest (env w) (decided_nodes r)) r"

end
