(* ===== verification/Handlers.thy ===== *)
theory Handlers
  imports Execute
begin

text \<open>
  \<^verbatim>\<open>node/consensus-node/src/consensus/handlers.rs\<close>: incoming wire messages, the
  NEXTVIEW timer, validation outcomes and the view transition. \<open>keys\<close> is the table
  \<^verbatim>\<open>peer_keys\<close>. Lines printed to standard error are not modelled.
\<close>

definition enter_new_view :: "Wiring \<Rightarrow> u64 \<Rightarrow> Replica \<Rightarrow> Replica" where
  "enter_new_view w new_view r =
     (let prev_view = rs_view r;
          next_leader = leader_for (rs_n r) new_view;
          r1 = log_event new_view ''view_start''
                 [(''leader'', JNum (uint next_leader)),
                  (''timeout_ms'', JNum (uint (timeout_interval_ms r)))] (r\<lparr>rs_view := new_view\<rparr>);
          my_prepare_qc = prepare_qc r1;
          nv_msg = NewViewMsg prev_view my_prepare_qc (my_id w);
          r2 = (if next_leader = my_id w
                then vd_mut prev_view
                       (\<lambda>d. d\<lparr>new_view_msgs := hm_insert (my_id w) my_prepare_qc (new_view_msgs d)\<rparr>) r1
                else emit (SendTo next_leader nv_msg) r1);
          r3 = log_event new_view ''new_view_send''
                 [(''to'', JNum (uint next_leader)), (''from_view'', JNum (uint prev_view))] r2
      in emit (ArmTimer \<lparr>evt_view = new_view\<rparr> (timeout_interval_ms r3)) r3)"

definition handle_timer :: "Wiring \<Rightarrow> TimerEvent \<Rightarrow> Replica \<Rightarrow> Replica" where
  "handle_timer w evt r =
     (if evt_view evt \<noteq> rs_view r then r
      else if (case vd r (rs_view r) of Some d \<Rightarrow> seen_decide_qc d | None \<Rightarrow> False) then r
      else let r1 = log_event (rs_view r) ''next_view'' [(''reason'', JStr ''timeout'')] r;
               r2 = r1\<lparr>timeout_interval_ms := saturating_mul (timeout_interval_ms r1) 2\<rparr>
           in enter_new_view w (rs_view r2 + 1) r2)"

definition ingest_validation :: "ValidateOutcome \<Rightarrow> Replica \<Rightarrow> Replica" where
  "ingest_validation out r =
     (let nh = out_node_hash out;
          r1 = r\<lparr>validation_result := hm_insert nh (out_valid out) (validation_result r)\<rparr>;
          r2 = (case out_post_state out of
                  Some ps \<Rightarrow> r1\<lparr>post_state_by_node := hm_insert nh ps (post_state_by_node r1)\<rparr>
                | None \<Rightarrow> r1);
          r3 = (case out_post_root out of
                  Some pr \<Rightarrow> r2\<lparr>post_root_by_node := hm_insert nh pr (post_root_by_node r2)\<rparr>
                | None \<Rightarrow> r2);
          r4 = (case out_pre_root out of
                  Some pr \<Rightarrow> r3\<lparr>pre_root_by_node := hm_insert nh pr (pre_root_by_node r3)\<rparr>
                | None \<Rightarrow> r3)
      in if pending_validation r4 = Some nh then r4\<lparr>pending_validation := None\<rparr> else r4)"

subsection \<open>Wire messages\<close>

definition qc_acceptable :: "Wiring \<Rightarrow> (u32, digest) hashmap \<Rightarrow> Replica \<Rightarrow> QC option \<Rightarrow> bool" where
  "qc_acceptable w keys r justify =
     (case justify of None \<Rightarrow> True | Some qc \<Rightarrow> verify_qc_sync (env w) qc (rs_quorum r) keys)"

definition handle_proposal ::
  "Wiring \<Rightarrow> (u32, digest) hashmap \<Rightarrow> u64 \<Rightarrow> Node \<Rightarrow> QC option \<Rightarrow> u32 \<Rightarrow> Replica \<Rightarrow> outcome" where
  "handle_proposal w keys view node justify sender r =
     (if sender \<noteq> leader_for (rs_n r) view then Ok r
      else if \<not> qc_acceptable w keys r justify then Ok r
      else if n_parent node \<noteq> (case justify of Some q \<Rightarrow> qc_node_hash q | None \<Rightarrow> GENESIS_HASH)
      then Ok r
      else let leaf_hash = node_hash (env w) node;
               r1 = vd_mut view (\<lambda>d. d) (tree_insert leaf_hash node r);
               r2 = (if proposal (vd_entry r1 view) = None
                     then log_event view ''propose_recv''
                            [(''leaf_hash'', JHex leaf_hash),
                             (''leaf_height'', JNum (uint (n_height node))),
                             (''high_qc_view'', JNum (case justify of Some q \<Rightarrow> uint (qc_view q) | None \<Rightarrow> 0)),
                             (''sender'', JNum (uint sender))]
                            (vd_mut view (\<lambda>d. d\<lparr>proposal := Some (node, justify)\<rparr>) r1)
                     else r1)
           in maybe_kick_validation w leaf_hash r2)"

fun expected_qc_type :: "MsgType \<Rightarrow> MsgType option" where
  "expected_qc_type PreCommit = Some Prepare"
| "expected_qc_type Commit = Some PreCommit"
| "expected_qc_type Decide = Some Commit"
| "expected_qc_type _ = None"

definition stage_qc :: "MsgType \<Rightarrow> u64 \<Rightarrow> QC \<Rightarrow> Replica \<Rightarrow> Replica" where
  "stage_qc msg_type view justify r =
     (case msg_type of
        PreCommit \<Rightarrow>
          (if seen_pre_commit_qc (vd_entry r view) then r
           else (log_event view ''phase_qc_recv'' [(''phase'', JStr ''pre_commit'')]
                   (vd_mut view (\<lambda>d. d\<lparr>seen_pre_commit_qc := True\<rparr>) r))
                \<lparr>staged_pre_commit_qc := hm_insert view justify (staged_pre_commit_qc r)\<rparr>)
      | Commit \<Rightarrow>
          (if seen_commit_qc (vd_entry r view) then r
           else (log_event view ''phase_qc_recv'' [(''phase'', JStr ''commit'')]
                   (vd_mut view (\<lambda>d. d\<lparr>seen_commit_qc := True\<rparr>) r))
                \<lparr>staged_commit_qc := hm_insert view justify (staged_commit_qc r)\<rparr>)
      | Decide \<Rightarrow>
          (if seen_decide_qc (vd_entry r view) then r
           else (log_event view ''phase_qc_recv'' [(''phase'', JStr ''decide'')]
                   (vd_mut view (\<lambda>d. d\<lparr>seen_decide_qc := True\<rparr>) r))
                \<lparr>decided_nodes := hs_insert (qc_node_hash justify) (decided_nodes r),
                 staged_decide_qc := hm_insert view justify (staged_decide_qc r)\<rparr>)
      | _ \<Rightarrow> r)"

definition handle_phase_qc ::
  "Wiring \<Rightarrow> (u32, digest) hashmap \<Rightarrow> MsgType \<Rightarrow> u64 \<Rightarrow> QC \<Rightarrow> u32 \<Rightarrow> Replica \<Rightarrow> Replica" where
  "handle_phase_qc w keys msg_type view justify sender r =
     (if sender \<noteq> leader_for (rs_n r) view then r
      else case expected_qc_type msg_type of
             None \<Rightarrow> r
           | Some expected \<Rightarrow>
               if qc_msg_type justify \<noteq> expected \<or> qc_view justify \<noteq> view then r
               else if \<not> verify_qc_sync (env w) justify (rs_quorum r) keys then r
               else stage_qc msg_type view justify (vd_mut view (\<lambda>d. d) r))"

fun bucket_of :: "MsgType \<Rightarrow> ViewData \<Rightarrow> vote_bucket option" where
  "bucket_of Prepare d = Some (prepare_votes d)"
| "bucket_of PreCommit d = Some (precommit_votes d)"
| "bucket_of Commit d = Some (commit_votes d)"
| "bucket_of _ d = None"

fun add_vote :: "MsgType \<Rightarrow> u32 \<Rightarrow> digest \<times> bytes \<Rightarrow> ViewData \<Rightarrow> ViewData" where
  "add_vote Prepare voter e d = d\<lparr>prepare_votes := hm_insert voter e (prepare_votes d)\<rparr>"
| "add_vote PreCommit voter e d = d\<lparr>precommit_votes := hm_insert voter e (precommit_votes d)\<rparr>"
| "add_vote Commit voter e d = d\<lparr>commit_votes := hm_insert voter e (commit_votes d)\<rparr>"
| "add_vote _ voter e d = d"

text \<open>A vote that names this node itself as the voter is taken without checking its signature.\<close>

definition vote_admitted ::
  "Wiring \<Rightarrow> (u32, digest) hashmap \<Rightarrow> MsgType \<Rightarrow> u64 \<Rightarrow> digest \<Rightarrow> u32 \<Rightarrow> bytes \<Rightarrow> bool" where
  "vote_admitted w keys msg_type view nh voter sig =
     (if voter \<noteq> my_id w
      then (case hm_get keys voter of
              None \<Rightarrow> False
            | Some pk \<Rightarrow> verify_vote_sig (env w) pk msg_type view nh sig)
      else True)"

definition handle_vote ::
  "Wiring \<Rightarrow> (u32, digest) hashmap \<Rightarrow> MsgType \<Rightarrow> u64 \<Rightarrow> digest \<Rightarrow> u32 \<Rightarrow> bytes \<Rightarrow> Replica \<Rightarrow> Replica" where
  "handle_vote w keys msg_type view nh voter sig r =
     (if leader_for (rs_n r) view \<noteq> my_id w then r
      else if \<not> vote_admitted w keys msg_type view nh voter sig then r
      else let r1 = vd_mut view (\<lambda>d. d) r
           in case bucket_of msg_type (vd_entry r1 view) of
                None \<Rightarrow> r1
              | Some bucket \<Rightarrow>
                  if hm_get bucket voter \<noteq> None then r1
                  else log_event view ''vote_recv''
                         [(''phase'', JStr (as_str msg_type)), (''voter'', JNum (uint voter))]
                         (vd_mut view (add_vote msg_type voter (nh, sig)) r1))"

definition handle_new_view ::
  "Wiring \<Rightarrow> (u32, digest) hashmap \<Rightarrow> u64 \<Rightarrow> QC option \<Rightarrow> u32 \<Rightarrow> Replica \<Rightarrow> Replica" where
  "handle_new_view w keys view justify sender r =
     (if leader_for (rs_n r) (view + 1) \<noteq> my_id w then r
      else if \<not> qc_acceptable w keys r justify then r
      else let r1 = vd_mut view (\<lambda>d. d) r
           in if hm_get (new_view_msgs (vd_entry r1 view)) sender \<noteq> None then r1
              else log_event (view + 1) ''new_view_recv''
                     [(''from_view'', JNum (uint view)), (''sender'', JNum (uint sender))]
                     (vd_mut view
                        (\<lambda>d. d\<lparr>new_view_msgs := hm_insert sender justify (new_view_msgs d)\<rparr>) r1))"

fun handle_msg :: "Wiring \<Rightarrow> (u32, digest) hashmap \<Rightarrow> Wire \<Rightarrow> Replica \<Rightarrow> outcome" where
  "handle_msg w keys (Hello node_id pubkey) r = Ok r"
| "handle_msg w keys (Proposal view node justify sender) r =
     handle_proposal w keys view node justify sender r"
| "handle_msg w keys (PhaseQc msg_type view justify sender) r =
     Ok (handle_phase_qc w keys msg_type view justify sender r)"
| "handle_msg w keys (Vote msg_type view nh voter sig) r =
     Ok (handle_vote w keys msg_type view nh voter sig r)"
| "handle_msg w keys (NewViewMsg view justify sender) r =
     Ok (handle_new_view w keys view justify sender r)"

end
