(* ===== verification/Rules.thy ===== *)
theory Rules
  imports Handlers
begin

text \<open>
  \<^verbatim>\<open>node/consensus-node/src/consensus/rules.rs\<close>, the eight fire-once rules of Basic
  HotStuff, and \<^verbatim>\<open>start_protocol\<close> and \<^verbatim>\<open>try_advance\<close> of
  \<^verbatim>\<open>consensus/mod.rs\<close> that run them in order.
\<close>

subsection \<open>The leader's proposal\<close>

text \<open>\<^verbatim>\<open>Iterator::max_by_key\<close>: the last of the greatest elements.\<close>

fun max_by_view :: "QC list \<Rightarrow> QC option \<Rightarrow> QC option" where
  "max_by_view [] best = best"
| "max_by_view (q # qs) best =
     max_by_view qs (case best of None \<Rightarrow> Some q
                     | Some b \<Rightarrow> if qc_view b \<le> qc_view q then Some q else Some b)"

fun justifies :: "(u32, QC option) hashmap \<Rightarrow> u32 list \<Rightarrow> QC list" where
  "justifies msgs [] = []"
| "justifies msgs (i # order) =
     (case hm_get msgs i of Some (Some q) \<Rightarrow> q # justifies msgs order | _ \<Rightarrow> justifies msgs order)"

definition highest_qc :: "Externals \<Rightarrow> (u32, QC option) hashmap \<Rightarrow> QC option" where
  "highest_qc E msgs = max_by_view (justifies msgs (iter_u32 E (hm_keys msgs))) None"

text \<open>The height of the new leaf; \<open>None\<close> when the justified node is not in the tree.\<close>

definition next_height :: "Replica \<Rightarrow> QC option \<Rightarrow> u64 option" where
  "next_height r high_qc =
     (case high_qc of
        Some q \<Rightarrow> (case hm_get (tree r) (qc_node_hash q) of
                     Some parent_node \<Rightarrow> Some (n_height parent_node + 1)
                   | None \<Rightarrow> None)
      | None \<Rightarrow> Some 0)"

definition propose :: "Wiring \<Rightarrow> u64 \<Rightarrow> QC option \<Rightarrow> u64 \<Rightarrow> BlockRef \<Rightarrow> Replica \<Rightarrow> outcome" where
  "propose w v high_qc new_height b r =
     (let parent_hash = (case high_qc of Some q \<Rightarrow> qc_node_hash q | None \<Rightarrow> GENESIS_HASH);
          leaf = \<lparr>n_parent = parent_hash, n_cmd = b_cmd b, n_height = new_height\<rparr>;
          leaf_hash = node_hash (env w) leaf;
          r1 = tree_insert leaf_hash leaf r;
          r2 = log_event v ''propose_send''
                 [(''leaf_hash'', JHex leaf_hash), (''leaf_height'', JNum (uint new_height)),
                  (''high_qc_view'', JNum (case high_qc of Some q \<Rightarrow> uint (qc_view q) | None \<Rightarrow> 0))] r1;
          r3 = emit (Broadcast (Proposal v leaf high_qc (my_id w))) r2;
          r4 = vd_mut v (\<lambda>d. (if proposal d = None then d\<lparr>proposal := Some (leaf, high_qc)\<rparr> else d)
                               \<lparr>broadcast_proposal := True\<rparr>) r3
      in maybe_kick_validation w leaf_hash r4)"

definition leader_prepare :: "Wiring \<Rightarrow> Replica \<Rightarrow> outcome" where
  "leader_prepare w r0 =
     (let v = rs_view r0 in
      if leader_for (rs_n r0) v \<noteq> my_id w then Ok r0
      else let r = vd_mut v (\<lambda>d. d) r0 in
      if broadcast_proposal (vd_entry r v) then Ok r
      else let prev_view = saturating_sub v 1;
               cnt = (case vd r prev_view of None \<Rightarrow> 0 | Some d \<Rightarrow> hm_len (new_view_msgs d)) in
      if cnt < unat (rs_quorum r) then Ok r
      else let high_qc = highest_qc (env w) (new_view_msgs (vd_entry r prev_view)) in
      case next_height r high_qc of
        None \<Rightarrow> Ok r
      | Some new_height \<Rightarrow>
          if ucast (num_blocks (wl_manifest (workload w))) \<le> new_height then Ok r
          else (case block (plat w) (workload w) new_height of
                  Inl e \<Rightarrow> Panicked e r
                | Inr b \<Rightarrow> propose w v high_qc new_height b r))"

subsection \<open>Votes\<close>

text \<open>
  Signing a vote and handing it to the leader: into the own bucket when this node leads the
  view, over the network otherwise.
\<close>

definition cast_vote :: "Wiring \<Rightarrow> MsgType \<Rightarrow> u64 \<Rightarrow> digest \<Rightarrow> Replica \<Rightarrow> Replica" where
  "cast_vote w msg_type v nh r =
     (let sig = sign_vote (env w) (sk w) msg_type v nh;
          vote = Vote msg_type v nh (my_id w) sig;
          leader = leader_for (rs_n r) v;
          r1 = r\<lparr>history := Signed (my_id w) msg_type v nh # history r\<rparr>
      in if leader = my_id w then vd_mut v (add_vote msg_type (my_id w) (nh, sig)) r1
         else emit (SendTo leader vote) r1)"

definition replica_prepare :: "Wiring \<Rightarrow> Replica \<Rightarrow> Replica" where
  "replica_prepare w r0 =
     (let v = rs_view r0 in
      case Option.bind (vd r0 v) proposal of
        None \<Rightarrow> r0
      | Some (leaf, high_qc) \<Rightarrow>
          let r = vd_mut v (\<lambda>d. d) r0 in
          if voted_prepare (vd_entry r v) then r
          else let leaf_hash = node_hash (env w) leaf in
          (case hm_get (validation_result r) leaf_hash of
             None \<Rightarrow> r
           | Some is_valid \<Rightarrow>
               if \<not> is_valid
               then log_event v ''prepare_skip'' [(''reason'', JStr ''valid_false'')]
                      (vd_mut v (\<lambda>d. d\<lparr>voted_prepare := True\<rparr>) r)
               else if \<not> safe_node (env w) leaf high_qc (locked_qc r) (tree r)
               then log_event v ''prepare_skip'' [(''reason'', JStr ''safe_node_false'')]
                      (vd_mut v (\<lambda>d. d\<lparr>voted_prepare := True\<rparr>) r)
               else log_event v ''prepare_vote_send'' [(''leaf_hash'', JHex leaf_hash)]
                      (vd_mut v (\<lambda>d. d\<lparr>voted_prepare := True\<rparr>) (cast_vote w Prepare v leaf_hash r))))"

definition replica_pre_commit :: "Wiring \<Rightarrow> Replica \<Rightarrow> Replica" where
  "replica_pre_commit w r0 =
     (let v = rs_view r0; r = vd_mut v (\<lambda>d. d) r0 in
      if \<not> seen_pre_commit_qc (vd_entry r v) \<or> voted_precommit (vd_entry r v) then r
      else case hm_get (staged_pre_commit_qc r) v of
             None \<Rightarrow> r
           | Some qc \<Rightarrow>
               let nh = qc_node_hash qc;
                   r1 = cast_vote w PreCommit v nh (r\<lparr>prepare_qc := Some qc\<rparr>);
                   r2 = vd_mut v (\<lambda>d. d\<lparr>voted_precommit := True\<rparr>) r1
               in log_event v ''pre_commit_vote_send'' [(''node_hash'', JHex nh)] r2)"

definition replica_commit :: "Wiring \<Rightarrow> Replica \<Rightarrow> Replica" where
  "replica_commit w r0 =
     (let v = rs_view r0; r = vd_mut v (\<lambda>d. d) r0 in
      if \<not> seen_commit_qc (vd_entry r v) \<or> voted_commit (vd_entry r v) then r
      else case hm_get (staged_commit_qc r) v of
             None \<Rightarrow> r
           | Some qc \<Rightarrow>
               let nh = qc_node_hash qc;
                   r1 = cast_vote w Commit v nh (r\<lparr>locked_qc := Some qc\<rparr>);
                   r2 = vd_mut v (\<lambda>d. d\<lparr>voted_commit := True\<rparr>) r1
               in log_event v ''commit_vote_send'' [(''node_hash'', JHex nh)] r2)"

subsection \<open>The leader's certificates\<close>

definition leader_pre_commit :: "Wiring \<Rightarrow> Replica \<Rightarrow> Replica" where
  "leader_pre_commit w r0 =
     (let v = rs_view r0 in
      if leader_for (rs_n r0) v \<noteq> my_id w then r0
      else let r = vd_mut v (\<lambda>d. d) r0 in
      if broadcast_pre_commit (vd_entry r v) then r
      else case form_qc (env w) (prepare_votes (vd_entry r v)) Prepare v (rs_quorum r) of
             None \<Rightarrow> r
           | Some qc \<Rightarrow>
               let r1 = log_event v ''phase_qc_send''
                          [(''phase'', JStr ''pre_commit''), (''node_hash'', JHex (qc_node_hash qc))] r;
                   r2 = emit (Broadcast (PhaseQc PreCommit v qc (my_id w))) r1;
                   r3 = vd_mut v (\<lambda>d. d\<lparr>broadcast_pre_commit := True\<rparr>) r2
               in if seen_pre_commit_qc (vd_entry r3 v) then r3
                  else (vd_mut v (\<lambda>d. d\<lparr>seen_pre_commit_qc := True\<rparr>) r3)
                       \<lparr>staged_pre_commit_qc := hm_insert v qc (staged_pre_commit_qc r3)\<rparr>)"

definition leader_commit :: "Wiring \<Rightarrow> Replica \<Rightarrow> Replica" where
  "leader_commit w r0 =
     (let v = rs_view r0 in
      if leader_for (rs_n r0) v \<noteq> my_id w then r0
      else let r = vd_mut v (\<lambda>d. d) r0 in
      if broadcast_commit (vd_entry r v) then r
      else case form_qc (env w) (precommit_votes (vd_entry r v)) PreCommit v (rs_quorum r) of
             None \<Rightarrow> r
           | Some qc \<Rightarrow>
               let r1 = log_event v ''phase_qc_send''
                          [(''phase'', JStr ''commit''), (''node_hash'', JHex (qc_node_hash qc))] r;
                   r2 = emit (Broadcast (PhaseQc Commit v qc (my_id w))) r1;
                   r3 = vd_mut v (\<lambda>d. d\<lparr>broadcast_commit := True\<rparr>) r2
               in if seen_commit_qc (vd_entry r3 v) then r3
                  else (vd_mut v (\<lambda>d. d\<lparr>seen_commit_qc := True\<rparr>) r3)
                       \<lparr>staged_commit_qc := hm_insert v qc (staged_commit_qc r3)\<rparr>)"

definition leader_decide :: "Wiring \<Rightarrow> Replica \<Rightarrow> Replica" where
  "leader_decide w r0 =
     (let v = rs_view r0 in
      if leader_for (rs_n r0) v \<noteq> my_id w then r0
      else let r = vd_mut v (\<lambda>d. d) r0 in
      if broadcast_decide (vd_entry r v) then r
      else case form_qc (env w) (commit_votes (vd_entry r v)) Commit v (rs_quorum r) of
             None \<Rightarrow> r
           | Some qc \<Rightarrow>
               let r1 = log_event v ''phase_qc_send''
                          [(''phase'', JStr ''decide''), (''node_hash'', JHex (qc_node_hash qc))] r;
                   r2 = emit (Broadcast (PhaseQc Decide v qc (my_id w))) r1;
                   r3 = vd_mut v (\<lambda>d. d\<lparr>broadcast_decide := True\<rparr>) r2
               in if seen_decide_qc (vd_entry r3 v) then r3
                  else (vd_mut v (\<lambda>d. d\<lparr>seen_decide_qc := True\<rparr>) r3)
                       \<lparr>staged_decide_qc := hm_insert v qc (staged_decide_qc r3)\<rparr>)"

subsection \<open>Deciding\<close>

definition replica_decide :: "Wiring \<Rightarrow> Replica \<Rightarrow> outcome" where
  "replica_decide w r0 =
     (let v = rs_view r0; r = vd_mut v (\<lambda>d. d) r0 in
      if \<not> seen_decide_qc (vd_entry r v) then Ok r
      else case hm_get (staged_decide_qc r) v of
             None \<Rightarrow> Ok r
           | Some qc \<Rightarrow>
               and_then
                 (try_execute_chain w (qc_node_hash qc)
                    (r\<lparr>decided_nodes := hs_insert (qc_node_hash qc) (decided_nodes r)\<rparr>))
                 (\<lambda>r1. let r2 = log_event v ''view_decide'' [(''node_hash'', JHex (qc_node_hash qc))] r1;
                           r3 = r2\<lparr>timeout_interval_ms := timeout_base_ms w\<rparr>
                       in Ok (enter_new_view w (v + 1) r3)))"

subsection \<open>The rule engine\<close>

definition try_advance :: "Wiring \<Rightarrow> Replica \<Rightarrow> outcome" where
  "try_advance w r =
     and_then (leader_prepare w r) (\<lambda>r.
     and_then (Ok (replica_prepare w r)) (\<lambda>r.
     and_then (Ok (leader_pre_commit w r)) (\<lambda>r.
     and_then (Ok (replica_pre_commit w r)) (\<lambda>r.
     and_then (Ok (leader_commit w r)) (\<lambda>r.
     and_then (Ok (replica_commit w r)) (\<lambda>r.
     and_then (Ok (leader_decide w r)) (\<lambda>r.
     and_then (replica_decide w r) (\<lambda>r.
     and_then (retry_pending_execute w r) (\<lambda>r.
       try_kick_pending_validations w r)))))))))"

definition start_protocol :: "Wiring \<Rightarrow> Replica \<Rightarrow> Replica" where
  "start_protocol w r = enter_new_view w 1 (r\<lparr>rs_view := 0\<rparr>)"

end
