(* ===== verification/Vote_History.thy ===== *)
theory Vote_History
  imports Replica
begin

text \<open>
  The abstract specification of HotStuff voting, independent of the code: a history of votes and
  known nodes, newest first, is legal when every correct replica's vote obeys the voting rules at
  the moment it is cast. Agreement is a theorem on legal histories; the theory
  \<open>Safety\<close> shows that the code only makes legal ones. \<open>byz\<close> is the set of
  faulty replicas, of which nothing is required.
\<close>

definition faults_ok :: "u32 \<Rightarrow> u32 set \<Rightarrow> bool" where
  "faults_ok n byz \<longleftrightarrow> 0 < n \<and> byz \<subseteq> replica_ids n \<and> card byz \<le> unat (max_faulty n)"

text \<open>A quorum whose correct members have all signed \<open>(mt, v, h)\<close>.\<close>

definition supported :: "u32 \<Rightarrow> u32 set \<Rightarrow> hevent list \<Rightarrow> MsgType \<Rightarrow> u64 \<Rightarrow> digest \<Rightarrow> bool" where
  "supported n byz H mt v h \<longleftrightarrow>
     (\<exists>Q. Q \<subseteq> replica_ids n \<and> unat (quorum_size n) \<le> card Q \<and>
          (\<forall>i \<in> Q - byz. Signed i mt v h \<in> set H))"

text \<open>Parent links of the nodes some replica has stored.\<close>

definition parent_rel :: "Externals \<Rightarrow> hevent list \<Rightarrow> (digest \<times> digest) set" where
  "parent_rel E H = {(node_hash E nd, n_parent nd) | nd. Known nd \<in> set H}"

text \<open>The lock of a replica: its latest COMMIT vote.\<close>

fun lock_of :: "u32 \<Rightarrow> hevent list \<Rightarrow> (u64 \<times> digest) option" where
  "lock_of i [] = None"
| "lock_of i (Known nd # H) = lock_of i H"
| "lock_of i (Signed j mt v h # H) =
     (if j = i \<and> mt = Commit then Some (v, h) else lock_of i H)"

definition may_prepare ::
  "Externals \<Rightarrow> u32 \<Rightarrow> u32 set \<Rightarrow> hevent list \<Rightarrow> u32 \<Rightarrow> u64 \<Rightarrow> digest \<Rightarrow> bool" where
  "may_prepare E n byz H i v h \<longleftrightarrow>
     (\<forall>h'. Signed i Prepare v h' \<notin> set H) \<and>
     (\<exists>nd. Known nd \<in> set H \<and> node_hash E nd = h \<and>
        (case lock_of i H of
           None \<Rightarrow> True
         | Some (lv, lh) \<Rightarrow>
             (h, lh) \<in> (parent_rel E H)\<^sup>* \<or>
             (\<exists>mt v'. lv < v' \<and> supported n byz H mt v' (n_parent nd))))"

definition vote_ok ::
  "Externals \<Rightarrow> u32 \<Rightarrow> u32 set \<Rightarrow> hevent list \<Rightarrow> u32 \<Rightarrow> MsgType \<Rightarrow> u64 \<Rightarrow> digest \<Rightarrow> bool" where
  "vote_ok E n byz H i mt v h \<longleftrightarrow>
     (\<forall>mt' v' h'. Signed i mt' v' h' \<in> set H \<longrightarrow> v' \<le> v) \<and>
     (case mt of
        Prepare \<Rightarrow> may_prepare E n byz H i v h
      | PreCommit \<Rightarrow> supported n byz H Prepare v h
      | Commit \<Rightarrow> supported n byz H PreCommit v h
      | _ \<Rightarrow> False)"

fun legal :: "Externals \<Rightarrow> u32 \<Rightarrow> u32 set \<Rightarrow> hevent list \<Rightarrow> bool" where
  "legal E n byz [] = True"
| "legal E n byz (Known nd # H) = legal E n byz H"
| "legal E n byz (Signed i mt v h # H) = (legal E n byz H \<and> vote_ok E n byz H i mt v h)"

subsection \<open>Monotonicity\<close>

lemma supported_mono: "supported n byz H mt v h \<Longrightarrow> set H \<subseteq> set H' \<Longrightarrow> supported n byz H' mt v h"
  by (auto simp: supported_def)

lemma parent_rel_mono: "set H \<subseteq> set H' \<Longrightarrow> (parent_rel E H)\<^sup>* \<subseteq> (parent_rel E H')\<^sup>*"
  by (rule rtrancl_mono) (auto simp: parent_rel_def)

lemma legal_append: "legal E n byz (A @ H) \<Longrightarrow> legal E n byz H"
proof (induction A)
  case (Cons e A)
  then show ?case by (cases e) auto
qed simp

lemma legal_vote:
  assumes "legal E n byz (A @ Signed i mt v h # H)"
  shows "vote_ok E n byz H i mt v h"
  using legal_append [OF assms] by simp

lemma legal_phase:
  assumes "legal E n byz H" and "Signed i mt v h \<in> set H"
  shows "case mt of Prepare \<Rightarrow> True
     | PreCommit \<Rightarrow> supported n byz H Prepare v h
     | Commit \<Rightarrow> supported n byz H PreCommit v h
     | _ \<Rightarrow> False"
proof -
  obtain A B where H: "H = A @ Signed i mt v h # B" using assms(2) by (meson split_list)
  have "vote_ok E n byz B i mt v h" using assms(1) H legal_vote by blast
  then show ?thesis
    using H by (cases mt) (auto simp: vote_ok_def intro: supported_mono)
qed

subsection \<open>Certificates\<close>

lemma supported_correct_voter:
  assumes "faults_ok n byz" and "supported n byz H mt v h"
  obtains i where "i \<notin> byz" and "i \<in> replica_ids n" and "Signed i mt v h \<in> set H"
proof -
  obtain Q where Q: "Q \<subseteq> replica_ids n" "unat (quorum_size n) \<le> card Q"
    "\<forall>i \<in> Q - byz. Signed i mt v h \<in> set H"
    using assms(2) by (auto simp: supported_def)
  obtain i where "i \<in> Q" "i \<notin> byz"
    using hotstuff.quorum_has_correct [of n Q byz] Q assms(1)
    by (auto simp: faults_ok_def intro: finite_subset [OF _ finite_replica_ids])
  then show ?thesis using Q that by blast
qed

lemma supported_common_voter:
  assumes "faults_ok n byz" and "supported n byz H mt v h" and "supported n byz H' mt' v' h'"
  obtains i where "i \<notin> byz" and "Signed i mt v h \<in> set H" and "Signed i mt' v' h' \<in> set H'"
proof -
  obtain Q Q' where Q: "Q \<subseteq> replica_ids n" "unat (quorum_size n) \<le> card Q"
      "\<forall>i \<in> Q - byz. Signed i mt v h \<in> set H"
    and Q': "Q' \<subseteq> replica_ids n" "unat (quorum_size n) \<le> card Q'"
      "\<forall>i \<in> Q' - byz. Signed i mt' v' h' \<in> set H'"
    using assms(2,3) by (auto simp: supported_def)
  have "finite byz" using assms(1) by (auto simp: faults_ok_def intro: finite_subset [OF _ finite_replica_ids])
  then obtain i where "i \<in> Q" "i \<in> Q'" "i \<notin> byz"
    using hotstuff.quorums_share_correct [of n Q Q' byz] Q Q' assms(1) by (auto simp: faults_ok_def)
  then show ?thesis using Q Q' that by blast
qed

text \<open>A certificate of any phase stands on a PREPARE certificate of the same view and node.\<close>

lemma supported_prepare:
  assumes "faults_ok n byz" and "legal E n byz H" and "supported n byz H mt v h"
  shows "supported n byz H Prepare v h"
proof -
  have pre: "supported n byz H Prepare v h" if s: "supported n byz H PreCommit v h"
  proof -
    obtain j where "Signed j PreCommit v h \<in> set H"
      using supported_correct_voter [OF assms(1) s] by blast
    then show ?thesis using legal_phase [OF assms(2)] by fastforce
  qed
  obtain i where "Signed i mt v h \<in> set H"
    using supported_correct_voter [OF assms(1,3)] by blast
  then show ?thesis
    using legal_phase [OF assms(2)] pre assms(3) by (cases mt) fastforce+
qed

text \<open>A replica's PREPARE vote in a view is unique, so a view has one PREPARE certificate.\<close>

lemma prepare_vote_unique:
  assumes "legal E n byz H" and "Signed i Prepare v h \<in> set H" and "Signed i Prepare v h' \<in> set H"
  shows "h = h'"
  using assms
proof (induction H)
  case (Cons e H)
  then show ?case
    by (cases e) (auto simp: vote_ok_def may_prepare_def)
qed simp

lemma prepare_cert_unique:
  assumes "faults_ok n byz" and "legal E n byz H"
    and "supported n byz H Prepare v h" and "supported n byz H Prepare v h'"
  shows "h = h'"
proof -
  obtain i where "Signed i Prepare v h \<in> set H" "Signed i Prepare v h' \<in> set H"
    using supported_common_voter [OF assms(1,3,4)] by blast
  then show ?thesis by (rule prepare_vote_unique [OF assms(2)])
qed

lemma vote_unique:
  assumes "faults_ok n byz" and "legal E n byz H" and "Signed i mt v h \<in> set H" and "Signed j mt' v h' \<in> set H"
    and "i = j \<and> mt = mt' \<or> mt \<noteq> Prepare \<and> mt' \<noteq> Prepare"
  shows "h = h'"
proof (cases "mt = Prepare")
  case True
  then show ?thesis using assms(3-5) prepare_vote_unique [OF assms(2)] by blast
next
  case False
  have "supported n byz H Prepare v k" if "Signed l m v k \<in> set H" "m \<noteq> Prepare" for l m k
    using legal_phase [OF assms(2) that(1)] that(2) supported_prepare [OF assms(1,2)] by (cases m) auto
  then show ?thesis using assms(3-5) False prepare_cert_unique [OF assms(1,2)] by metis
qed

subsection \<open>Locks\<close>

lemma lock_of_Signed:
  "lock_of i H = Some (v, h) \<Longrightarrow> Signed i Commit v h \<in> set H"
  by (induction i H rule: lock_of.induct) (auto split: if_splits)

lemma lock_of_latest:
  assumes "legal E n byz H" and "Signed i Commit v h \<in> set H"
  shows "\<exists>lv lh. lock_of i H = Some (lv, lh) \<and> v \<le> lv"
  using assms
proof (induction H)
  case (Cons e H)
  then show ?case
    by (cases e) (auto simp: vote_ok_def split: if_splits)
qed simp

text \<open>
  Votes of one replica have views that never decrease, so a vote of an earlier view was cast
  earlier.
\<close>

lemma earlier_view_earlier:
  assumes "legal E n byz (A @ Signed i mt v h # B)"
    and "Signed i mt' v' h' \<in> set (A @ Signed i mt v h # B)" and "v' < v"
  shows "Signed i mt' v' h' \<in> set B"
proof -
  have "Signed i mt' v' h' \<notin> set A"
  proof
    assume "Signed i mt' v' h' \<in> set A"
    then obtain C D where "A = C @ Signed i mt' v' h' # D" by (meson split_list)
    then have "vote_ok E n byz (D @ Signed i mt v h # B) i mt' v' h'"
      using assms(1) legal_vote [of E n byz C i mt' v' h' "D @ Signed i mt v h # B"] by simp
    then have "v \<le> v'" by (auto simp: vote_ok_def)
    then show False using assms(3) by simp
  qed
  then show ?thesis using assms(2,3) by auto
qed

subsection \<open>Agreement\<close>

text \<open>
  The heart of the proof, by induction over the history: once a node has a COMMIT certificate,
  every PREPARE certificate of a later view, at any moment, is for one of its descendants.
\<close>

text \<open>
  A replica that committed to a view and votes PREPARE in a later one holds a lock at that moment,
  on a certified node of that view or a later one.
\<close>

lemma voter_locked:
  assumes fo: "faults_ok n byz" and leg: "legal E n byz (B @ Signed i Prepare v h # D)"
    and "Signed i Commit v1 h1 \<in> set (B @ Signed i Prepare v h # D)" and "v1 < v"
  obtains lv lh where "lock_of i D = Some (lv, lh)" and "v1 \<le> lv" and "supported n byz D Prepare lv lh"
proof -
  have legD: "legal E n byz D" using leg legal_append [of E n byz "B @ [Signed i Prepare v h]" D] by simp
  have "Signed i Commit v1 h1 \<in> set D"
    using earlier_view_earlier [of E n byz B i Prepare v h D Commit v1 h1] leg assms(3,4) by simp
  then obtain lv lh where lock: "lock_of i D = Some (lv, lh)" and le: "v1 \<le> lv"
    using lock_of_latest [OF legD] by blast
  have "Signed i Commit lv lh \<in> set D" using lock by (rule lock_of_Signed)
  then have "supported n byz D PreCommit lv lh" using legal_phase [OF legD] by fastforce
  then show ?thesis using that lock le supported_prepare [OF fo legD] by blast
qed

lemma later_certs_extend:
  assumes fo: "faults_ok n byz" and leg: "legal E n byz H"
    and c: "supported n byz H Commit v1 h1"
    and "H = A @ B" and "supported n byz B Prepare v h" and "v1 < v"
  shows "(h, h1) \<in> (parent_rel E H)\<^sup>*"
  using assms(4-6)
proof (induction "length B" arbitrary: A B v h rule: less_induct)
  case less
  obtain i where i: "i \<notin> byz" "Signed i Prepare v h \<in> set B" "Signed i Commit v1 h1 \<in> set H"
    using supported_common_voter [OF fo less.prems(2) c] by blast
  obtain C D where B: "B = C @ Signed i Prepare v h # D" using i(2) by (meson split_list)
  have H: "H = (A @ C) @ Signed i Prepare v h # D" using less.prems(1) B by simp
  have legD: "legal E n byz D" using leg H legal_append [of E n byz "(A @ C) @ [Signed i Prepare v h]" D] by simp
  have DH: "set D \<subseteq> set H" using H by auto
  have shorter: "length D < length B" using B by simp
  have suffix: "H = (A @ C @ [Signed i Prepare v h]) @ D" using H by simp
  have IH: "(h', h1) \<in> (parent_rel E H)\<^sup>*" if "supported n byz D Prepare v' h'" "v1 < v'" for v' h'
    using less.hyps [OF shorter suffix that] .
  obtain lv lh where lock: "lock_of i D = Some (lv, lh)" and "v1 \<le> lv" and lockcert: "supported n byz D Prepare lv lh"
    by (rule voter_locked [OF fo leg [unfolded H] i(3) [unfolded H] less.prems(3)])
  have locked: "(lh, h1) \<in> (parent_rel E H)\<^sup>*"
  proof (cases "lv = v1")
    case True
    have "supported n byz H Prepare v1 h1" by (rule supported_prepare [OF fo leg c])
    moreover have "supported n byz H Prepare v1 lh"
      using lockcert True DH by (auto intro: supported_mono)
    ultimately have "lh = h1" by (metis prepare_cert_unique [OF fo leg])
    then show ?thesis by simp
  next
    case False
    then show ?thesis using IH lockcert \<open>v1 \<le> lv\<close> by simp
  qed
  have "may_prepare E n byz D i v h"
    using legal_vote [of E n byz "A @ C" i Prepare v h D] leg H by (simp add: vote_ok_def)
  then obtain nd where nd: "Known nd \<in> set D" "node_hash E nd = h"
    and "(h, lh) \<in> (parent_rel E D)\<^sup>* \<or> (\<exists>mt v'. lv < v' \<and> supported n byz D mt v' (n_parent nd))"
    using lock by (auto simp: may_prepare_def)
  then show ?case
  proof (elim disjE exE conjE)
    assume "(h, lh) \<in> (parent_rel E D)\<^sup>*"
    then have "(h, lh) \<in> (parent_rel E H)\<^sup>*" using parent_rel_mono [OF DH, of E] by blast
    then show ?thesis using locked by (rule rtrancl_trans)
  next
    fix mt v' assume "lv < v'" and "supported n byz D mt v' (n_parent nd)"
    then have "(n_parent nd, h1) \<in> (parent_rel E H)\<^sup>*"
      using IH supported_prepare [OF fo legD] \<open>v1 \<le> lv\<close> by (meson order_le_less_trans)
    moreover have "(h, n_parent nd) \<in> parent_rel E H"
      using nd DH by (auto simp: parent_rel_def)
    ultimately show ?thesis by (rule converse_rtrancl_into_rtrancl [rotated])
  qed
qed

lemma legal_agreement:
  assumes fo: "faults_ok n byz" and leg: "legal E n byz H"
    and "supported n byz H Commit v1 h1" and "supported n byz H Commit v2 h2"
  shows "(h1, h2) \<in> (parent_rel E H)\<^sup>* \<or> (h2, h1) \<in> (parent_rel E H)\<^sup>*"
proof -
  have p: "supported n byz H Prepare v1 h1" "supported n byz H Prepare v2 h2"
    using supported_prepare [OF fo leg] assms(3,4) by blast+
  consider "v1 < v2" | "v1 = v2" | "v2 < v1" by fastforce
  then show ?thesis
  proof cases
    case 1
    then show ?thesis using later_certs_extend [OF fo leg assms(3) _ p(2), of "[]"] by simp
  next
    case 2
    then show ?thesis using prepare_cert_unique [OF fo leg] p by blast
  next
    case 3
    then show ?thesis using later_certs_extend [OF fo leg assms(4) _ p(1), of "[]"] by simp
  qed
qed

end
