(* ===== verification/Safety.thy ===== *)
theory Safety
  imports Rules Vote_History
begin

text \<open>
  The code obeys the voting rules of \<open>Vote_History\<close>: an invariant of one correct replica
  and its preservation by every handler and every rule, then the network of replicas with an
  adversary that delivers any message it can build without forging a correct replica's
  signature, and agreement in every state the network reaches.
\<close>

subsection \<open>The invariant of a replica\<close>

definition qc_ok :: "u32 \<Rightarrow> u32 set \<Rightarrow> hevent list \<Rightarrow> QC \<Rightarrow> bool" where
  "qc_ok n byz H q = supported n byz H (qc_msg_type q) (qc_view q) (qc_node_hash q)"

definition votes_ok :: "u32 \<Rightarrow> u32 set \<Rightarrow> hevent list \<Rightarrow> MsgType \<Rightarrow> u64 \<Rightarrow> vote_bucket \<Rightarrow> bool" where
  "votes_ok n byz H mt v bucket \<longleftrightarrow>
     hm_ok bucket \<and>
     (\<forall>i h s. hm_get bucket i = Some (h, s) \<longrightarrow>
        i \<in> replica_ids n \<and> (i \<notin> byz \<longrightarrow> Signed i mt v h \<in> set H))"

definition view_ok ::
  "Externals \<Rightarrow> u32 \<Rightarrow> u32 set \<Rightarrow> u32 \<Rightarrow> hevent list \<Rightarrow> u64 \<Rightarrow> ViewData \<Rightarrow> bool" where
  "view_ok E n byz i H v d \<longleftrightarrow>
     (\<forall>nd J. proposal d = Some (nd, J) \<longrightarrow>
        Known nd \<in> set H \<and> (\<forall>q. J = Some q \<longrightarrow> qc_ok n byz H q \<and> n_parent nd = qc_node_hash q)) \<and>
     (\<not> voted_prepare d \<longrightarrow> (\<forall>h. Signed i Prepare v h \<notin> set H)) \<and>
     (\<forall>j q. hm_get (new_view_msgs d) j = Some (Some q) \<longrightarrow> qc_ok n byz H q) \<and>
     votes_ok n byz H Prepare v (prepare_votes d) \<and>
     votes_ok n byz H PreCommit v (precommit_votes d) \<and>
     votes_ok n byz H Commit v (commit_votes d)"

definition staged_ok ::
  "u32 \<Rightarrow> u32 set \<Rightarrow> hevent list \<Rightarrow> MsgType \<Rightarrow> (u64, QC) hashmap \<Rightarrow> bool" where
  "staged_ok n byz H mt staged \<longleftrightarrow>
     (\<forall>v q. hm_get staged v = Some q \<longrightarrow> qc_view q = v \<and> supported n byz H mt v (qc_node_hash q) \<and> qc_ok n byz H q)"

definition safe_inv :: "u32 \<Rightarrow> u32 set \<Rightarrow> Wiring \<Rightarrow> Replica \<Rightarrow> bool" where
  "safe_inv n byz w r \<longleftrightarrow>
     rs_n r = n \<and> rs_quorum r = quorum_size n \<and>
     legal (env w) n byz (history r) \<and>
     (\<forall>h nd. hm_get (tree r) h = Some nd \<longrightarrow> node_hash (env w) nd = h \<and> Known nd \<in> set (history r)) \<and>
     lock_of (my_id w) (history r) = map_option (\<lambda>q. (qc_view q, qc_node_hash q)) (locked_qc r) \<and>
     (\<forall>mt v h. Signed (my_id w) mt v h \<in> set (history r) \<longrightarrow> v \<le> rs_view r) \<and>
     staged_ok n byz (history r) Prepare (staged_pre_commit_qc r) \<and>
     staged_ok n byz (history r) PreCommit (staged_commit_qc r) \<and>
     staged_ok n byz (history r) Commit (staged_decide_qc r) \<and>
     (\<forall>q. prepare_qc r = Some q \<longrightarrow> qc_ok n byz (history r) q) \<and>
     (\<forall>h \<in> set (decided_nodes r). \<exists>v. supported n byz (history r) Commit v h) \<and>
     (\<forall>v. view_ok (env w) n byz (my_id w) (history r) v (vd_entry r v))"

text \<open>The fields the invariant reads, and the extension of a history by one replica's step.\<close>

definition core where
  "core (r :: Replica) =
     (rs_n r, rs_quorum r, rs_view r, locked_qc r, prepare_qc r, view_data r, tree r,
      decided_nodes r, staged_pre_commit_qc r, staged_commit_qc r, staged_decide_qc r, history r)"

fun own_event :: "u32 \<Rightarrow> hevent \<Rightarrow> bool" where
  "own_event i (Signed j mt v h) = (j = i)"
| "own_event i (Known nd) = True"

definition own_ext :: "u32 \<Rightarrow> hevent list \<Rightarrow> hevent list \<Rightarrow> bool" where
  "own_ext i H H' \<longleftrightarrow>
     (\<exists>new. H' = new @ H \<and> list_all (own_event i) new)"

text \<open>
  The contract of a step: from a state with the invariant whose view counter has room for
  \<open>b\<close> increments, it keeps the invariant, advances the view by at most \<open>b\<close> and
  only adds this replica's own votes to the history.
\<close>

definition safe_step :: "u32 \<Rightarrow> u32 set \<Rightarrow> Wiring \<Rightarrow> nat \<Rightarrow> Replica \<Rightarrow> Replica \<Rightarrow> bool" where
  "safe_step n byz w b r r' \<longleftrightarrow>
     (safe_inv n byz w r \<and> unat (rs_view r) + b < 2 ^ 64 \<longrightarrow>
        safe_inv n byz w r' \<and> unat (rs_view r') \<le> unat (rs_view r) + b \<and> rs_view r \<le> rs_view r' \<and>
        own_ext (my_id w) (history r) (history r'))"

definition correct_replica :: "u32 \<Rightarrow> u32 set \<Rightarrow> Wiring \<Rightarrow> bool" where
  "correct_replica n byz w \<longleftrightarrow>
     faults_ok n byz \<and> my_id w \<in> replica_ids n \<and> my_id w \<notin> byz \<and> iterates (iter_u32 (env w))"

text \<open>
  What the adversary may deliver. Every signature a message carries that verifies under the key of
  a correct replica is one that replica made, and the key table names replicas only
  (\<open>authentic\<close>). A vote that names the receiver itself as its voter is taken without a check of
  its signature, so for \<open>admissible\<close> such a vote has to be one the receiver cast.
\<close>

definition qc_claims :: "QC \<Rightarrow> (u32 \<times> MsgType \<times> u64 \<times> digest \<times> bytes) list" where
  "qc_claims q = map (\<lambda>(i, s). (i, qc_msg_type q, qc_view q, qc_node_hash q, s)) (qc_sigs q)"

fun sig_claims :: "Wire \<Rightarrow> (u32 \<times> MsgType \<times> u64 \<times> digest \<times> bytes) list" where
  "sig_claims (Hello i pk) = []"
| "sig_claims (Proposal v nd justify s) = (case justify of None \<Rightarrow> [] | Some q \<Rightarrow> qc_claims q)"
| "sig_claims (PhaseQc mt v q s) = qc_claims q"
| "sig_claims (Vote mt v h i s) = [(i, mt, v, h, s)]"
| "sig_claims (NewViewMsg v justify s) = (case justify of None \<Rightarrow> [] | Some q \<Rightarrow> qc_claims q)"

definition unforged ::
  "Externals \<Rightarrow> (u32, digest) hashmap \<Rightarrow> u32 set \<Rightarrow> hevent list \<Rightarrow> (u32 \<times> MsgType \<times> u64 \<times> digest \<times> bytes) list \<Rightarrow> bool" where
  "unforged E keys byz H claims \<longleftrightarrow>
     (\<forall>(i, mt, v, h, s) \<in> set claims. \<forall>pk.
        i \<notin> byz \<longrightarrow> hm_get keys i = Some pk \<longrightarrow> verify_vote_sig E pk mt v h s \<longrightarrow> Signed i mt v h \<in> set H)"

definition keys_ok :: "u32 \<Rightarrow> (u32, digest) hashmap \<Rightarrow> bool" where
  "keys_ok n keys \<longleftrightarrow> set (hm_keys keys) \<subseteq> replica_ids n"

definition authentic ::
  "u32 \<Rightarrow> u32 set \<Rightarrow> Wiring \<Rightarrow> (u32, digest) hashmap \<Rightarrow> hevent list \<Rightarrow> Wire \<Rightarrow> bool" where
  "authentic n byz w keys H msg \<longleftrightarrow> keys_ok n keys \<and> unforged (env w) keys byz H (sig_claims msg)"

fun own_vote_cast :: "u32 \<Rightarrow> hevent list \<Rightarrow> Wire \<Rightarrow> bool" where
  "own_vote_cast i H (Vote mt v h j s) \<longleftrightarrow> j \<noteq> i \<or> Signed i mt v h \<in> set H"
| "own_vote_cast i H _ = True"

definition admissible ::
  "u32 \<Rightarrow> u32 set \<Rightarrow> Wiring \<Rightarrow> (u32, digest) hashmap \<Rightarrow> hevent list \<Rightarrow> Wire \<Rightarrow> bool" where
  "admissible n byz w keys H msg \<longleftrightarrow> authentic n byz w keys H msg \<and> own_vote_cast (my_id w) H msg"

subsection \<open>Monotonicity and frames\<close>

lemma qc_ok_mono: "qc_ok n byz H q \<Longrightarrow> set H \<subseteq> set H' \<Longrightarrow> qc_ok n byz H' q"
  by (auto simp: qc_ok_def intro: supported_mono)

lemma votes_ok_mono: "votes_ok n byz H mt v b \<Longrightarrow> set H \<subseteq> set H' \<Longrightarrow> votes_ok n byz H' mt v b"
  unfolding votes_ok_def by blast

lemma staged_ok_mono: "staged_ok n byz H mt s \<Longrightarrow> set H \<subseteq> set H' \<Longrightarrow> staged_ok n byz H' mt s"
  unfolding staged_ok_def by (blast intro: supported_mono qc_ok_mono)

lemma view_ok_mono:
  assumes "view_ok E n byz i H v d" and "set H \<subseteq> set H'"
    and "voted_prepare d \<or> (\<forall>h. Signed i Prepare v h \<in> set H' \<longrightarrow> Signed i Prepare v h \<in> set H)"
  shows "view_ok E n byz i H' v d"
  using assms unfolding view_ok_def by (blast intro: qc_ok_mono votes_ok_mono)

lemma safe_inv_core: "core r' = core r \<Longrightarrow> safe_inv n byz w r' = safe_inv n byz w r"
  by (simp add: core_def safe_inv_def vd_entry_def vd_def)

lemma own_ext_refl [simp]: "own_ext i H H"
  by (simp add: own_ext_def)

lemma own_ext_trans: "own_ext i H H' \<Longrightarrow> own_ext i H' H'' \<Longrightarrow> own_ext i H H''"
  unfolding own_ext_def by (metis append.assoc list_all_append)

lemma own_ext_Known [simp]: "own_ext i H (Known nd # H)"
  by (auto simp: own_ext_def intro: exI [of _ "[Known nd]"])

lemma own_ext_Signed [simp]: "own_ext i H (Signed i mt v h # H)"
  by (auto simp: own_ext_def intro: exI [of _ "[Signed i mt v h]"])

lemma own_ext_subset: "own_ext i H H' \<Longrightarrow> set H \<subseteq> set H'"
  by (auto simp: own_ext_def)

lemma core_emit [simp]: "core (emit e r) = core r"
  by (simp add: core_def emit_def)

lemma core_log_event [simp]: "core (log_event v ev x r) = core r"
  by (simp add: log_event_def)

lemma core_view: "core r' = core r \<Longrightarrow> rs_view r' = rs_view r \<and> history r' = history r"
  by (simp add: core_def)

lemma safe_inv_emit [simp]: "safe_inv n byz w (emit e r) = safe_inv n byz w r"
  by (rule safe_inv_core [OF core_emit])

lemma safe_inv_log_event [simp]: "safe_inv n byz w (log_event v ev x r) = safe_inv n byz w r"
  by (rule safe_inv_core [OF core_log_event])

lemma safe_inv_timeout [simp]: "safe_inv n byz w (r\<lparr>timeout_interval_ms := t\<rparr>) = safe_inv n byz w r"
  by (rule safe_inv_core) (simp add: core_def)

lemma safe_step_core: "core r' = core r \<Longrightarrow> safe_step n byz w 0 r r'"
  using safe_inv_core [of r' r n byz w] core_view [of r' r] by (simp add: safe_step_def)

lemma safe_step_trans:
  "safe_step n byz w a r r1 \<Longrightarrow> safe_step n byz w b r1 r2 \<Longrightarrow> safe_step n byz w (a + b) r r2"
  unfolding safe_step_def by (auto intro: own_ext_trans)

lemma safe_step_refl [simp]: "safe_step n byz w b r r"
  by (simp add: safe_step_def)

lemma safe_step_weaken: "safe_step n byz w a r r' \<Longrightarrow> a \<le> b \<Longrightarrow> safe_step n byz w b r r'"
  unfolding safe_step_def by auto

subsection \<open>Updates that keep the invariant\<close>

lemma safe_inv_view: "safe_inv n byz w r \<Longrightarrow> view_ok (env w) n byz (my_id w) (history r) v (vd_entry r v)"
  by (simp add: safe_inv_def)

lemma safe_stepI:
  assumes "safe_inv n byz w r \<Longrightarrow>
    safe_inv n byz w r' \<and> rs_view r' = rs_view r \<and> own_ext (my_id w) (history r) (history r')"
  shows "safe_step n byz w b r r'"
  using assms by (simp add: safe_step_def)

lemma safe_inv_vd_mut:
  assumes "safe_inv n byz w r"
    and "view_ok (env w) n byz (my_id w) (history r) v (vd_entry r v) \<Longrightarrow>
         view_ok (env w) n byz (my_id w) (history r) v (f (vd_entry r v))"
  shows "safe_inv n byz w (vd_mut v f r)"
  using assms unfolding safe_inv_def by (simp add: vd_entry_vd_mut)

lemma safe_inv_tree_insert:
  assumes "safe_inv n byz w r"
  shows "safe_inv n byz w (tree_insert (node_hash (env w) nd) nd r)"
proof -
  have sub: "set (history r) \<subseteq> set (Known nd # history r)" by auto
  have "view_ok (env w) n byz (my_id w) (Known nd # history r) v (vd_entry r v)" for v
    by (rule view_ok_mono [OF safe_inv_view [OF assms] sub]) simp
  then show ?thesis
    using assms unfolding safe_inv_def tree_insert_def
    by (auto intro: staged_ok_mono [OF _ sub] qc_ok_mono [OF _ sub]) (meson supported_mono sub)
qed

lemma safe_inv_raise_view:
  assumes "safe_inv n byz w r" and "rs_view r \<le> v"
  shows "safe_inv n byz w (r\<lparr>rs_view := v\<rparr>)"
  using assms unfolding safe_inv_def by (simp, meson order_trans)

lemma safe_inv_stage:
  assumes "safe_inv n byz w r" and "qc_view q = v" and "qc_ok n byz (history r) q"
  shows "qc_msg_type q = Prepare \<Longrightarrow>
           safe_inv n byz w (r\<lparr>staged_pre_commit_qc := hm_insert v q (staged_pre_commit_qc r)\<rparr>)"
    and "qc_msg_type q = PreCommit \<Longrightarrow>
           safe_inv n byz w (r\<lparr>staged_commit_qc := hm_insert v q (staged_commit_qc r)\<rparr>)"
    and "qc_msg_type q = Commit \<Longrightarrow>
           safe_inv n byz w (r\<lparr>staged_decide_qc := hm_insert v q (staged_decide_qc r)\<rparr>)"
proof -
  have "staged_ok n byz (history r) (qc_msg_type q) (hm_insert v q s)"
    if "staged_ok n byz (history r) (qc_msg_type q) s" for s
    using that assms(2,3) by (auto simp: staged_ok_def qc_ok_def)
  then show "qc_msg_type q = Prepare \<Longrightarrow>
      safe_inv n byz w (r\<lparr>staged_pre_commit_qc := hm_insert v q (staged_pre_commit_qc r)\<rparr>)"
    and "qc_msg_type q = PreCommit \<Longrightarrow>
      safe_inv n byz w (r\<lparr>staged_commit_qc := hm_insert v q (staged_commit_qc r)\<rparr>)"
    and "qc_msg_type q = Commit \<Longrightarrow>
      safe_inv n byz w (r\<lparr>staged_decide_qc := hm_insert v q (staged_decide_qc r)\<rparr>)"
    using assms(1) unfolding safe_inv_def by simp_all
qed

lemma safe_inv_decided:
  assumes "safe_inv n byz w r" and "supported n byz (history r) Commit v h"
  shows "safe_inv n byz w (r\<lparr>decided_nodes := hs_insert h (decided_nodes r)\<rparr>)"
  using assms unfolding safe_inv_def by auto

text \<open>Signing a vote: the flag, the lock and the own bucket move together with the history.\<close>

lemma view_ok_sign:
  assumes d: "view_ok E n byz i H v d" and i: "i \<in> replica_ids n"
    and flag: "mt = Prepare \<longrightarrow> voted_prepare d"
  shows "view_ok E n byz i (Signed i mt v h # H) v d"
    and "view_ok E n byz i (Signed i mt v h # H) v (add_vote mt i (h, s) d)"
proof -
  show *: "view_ok E n byz i (Signed i mt v h # H) v d"
    by (rule view_ok_mono [OF d]) (use flag in auto)
  have "votes_ok n byz (Signed i mt v h # H) mt v (hm_insert i (h, s) b)"
    if "votes_ok n byz (Signed i mt v h # H) mt v b" for b
    using that i by (auto simp: votes_ok_def)
  with * show "view_ok E n byz i (Signed i mt v h # H) v (add_vote mt i (h, s) d)"
    by (cases mt) (auto simp: view_ok_def)
qed

lemma safe_inv_sign:
  assumes inv: "safe_inv n byz w r"
    and ok: "vote_ok (env w) n byz (history r) (my_id w) mt (rs_view r) h"
    and H: "history r' = Signed (my_id w) mt (rs_view r) h # history r"
    and same: "rs_n r' = rs_n r" "rs_quorum r' = rs_quorum r" "rs_view r' = rs_view r" "tree r' = tree r"
      "staged_pre_commit_qc r' = staged_pre_commit_qc r" "staged_commit_qc r' = staged_commit_qc r"
      "staged_decide_qc r' = staged_decide_qc r" "decided_nodes r' = decided_nodes r"
    and lock: "if mt = Commit then \<exists>q. locked_qc r' = Some q \<and> qc_view q = rs_view r \<and> qc_node_hash q = h
               else locked_qc r' = locked_qc r"
    and high: "\<And>q. prepare_qc r' = Some q \<Longrightarrow> prepare_qc r = Some q \<or> qc_ok n byz (history r) q"
    and others: "\<And>u. u \<noteq> rs_view r \<Longrightarrow> vd_entry r' u = vd_entry r u"
    and entry: "view_ok (env w) n byz (my_id w) (history r') (rs_view r) (vd_entry r' (rs_view r))"
  shows "safe_inv n byz w r'"
proof -
  have sub: "set (history r) \<subseteq> set (history r')" by (auto simp: H)
  have "view_ok (env w) n byz (my_id w) (history r') u (vd_entry r' u)" for u
  proof (cases "u = rs_view r")
    case False
    then show ?thesis
      using view_ok_mono [OF safe_inv_view [OF inv] sub, of u] others by (simp add: H)
  qed (use entry in simp)
  moreover have "legal (env w) n byz (history r')"
    using inv ok by (simp add: H safe_inv_def)
  moreover have "lock_of (my_id w) (history r') = map_option (\<lambda>q. (qc_view q, qc_node_hash q)) (locked_qc r')"
    using inv lock by (auto simp: H safe_inv_def split: if_splits)
  moreover have "\<forall>h\<in>set (decided_nodes r'). \<exists>v. supported n byz (history r') Commit v h"
    using inv same supported_mono [OF _ sub] unfolding safe_inv_def by metis
  moreover have "qc_ok n byz (history r') q" if "prepare_qc r' = Some q" for q
    using inv high [OF that] qc_ok_mono [OF _ sub] unfolding safe_inv_def by metis
  moreover have "\<forall>mt v h. Signed (my_id w) mt v h \<in> set (history r') \<longrightarrow> v \<le> rs_view r'"
    using inv same unfolding safe_inv_def H by auto
  moreover have "\<forall>h nd. hm_get (tree r') h = Some nd \<longrightarrow> node_hash (env w) nd = h \<and> Known nd \<in> set (history r')"
    using inv same sub unfolding safe_inv_def by (metis subsetD)
  ultimately show ?thesis
    using inv same staged_ok_mono [OF _ sub] unfolding safe_inv_def by simp
qed

subsection \<open>Steps that touch nothing the invariant reads\<close>

text \<open>The contract of the execution side: it leaves votes, locks, the tree and the view alone.\<close>

locale bystander =
  fixes f :: "Wiring \<Rightarrow> Replica \<Rightarrow> outcome"
  assumes core_same: "core (out_state (f w r)) = core r"

text \<open>The contract of a protocol rule that may advance the view by at most \<open>b\<close>.\<close>

locale protocol_rule =
  fixes b :: nat and f :: "Wiring \<Rightarrow> Replica \<Rightarrow> outcome"
  assumes keeps_safe: "correct_replica n byz w \<Longrightarrow> safe_step n byz w b r (out_state (f w r))"
begin

lemma keeps_inv:
  assumes "correct_replica n byz w" and "safe_inv n byz w r" and "unat (rs_view r) + b < 2 ^ 64"
  shows "safe_inv n byz w (out_state (f w r)) \<and> rs_view r \<le> rs_view (out_state (f w r)) \<and>
         own_ext (my_id w) (history r) (history (out_state (f w r)))"
  using keeps_safe [OF assms(1)] assms(2,3) by (auto simp: safe_step_def)

end

sublocale bystander \<subseteq> protocol_rule 0 f
  by unfold_locales (rule safe_step_core [OF core_same])

lemma core_update [simp]:
  "core (r\<lparr>validation_result := a\<rparr>) = core r" "core (r\<lparr>pending_validation := p\<rparr>) = core r"
  "core (r\<lparr>post_state_by_node := s\<rparr>) = core r" "core (r\<lparr>post_root_by_node := d\<rparr>) = core r"
  "core (r\<lparr>pre_root_by_node := d\<rparr>) = core r" "core (r\<lparr>last_executed_height := i\<rparr>) = core r"
  "core (r\<lparr>timeout_interval_ms := t\<rparr>) = core r" "core (r\<lparr>live_state := l\<rparr>) = core r"
  "core (r\<lparr>chained_root := c\<rparr>) = core r" "core (r\<lparr>outbox := u\<rparr>) = core r"
  "core (r\<lparr>val_queue := q\<rparr>) = core r"
  by (simp_all add: core_def)

lemma core_and_then:
  assumes "core (out_state x) = core r" and "\<And>r1. core (out_state (f r1)) = core r1"
  shows "core (out_state (and_then x f)) = core r"
  using assms by (cases x) auto

interpretation kick: bystander "\<lambda>w. maybe_kick_validation w h" for h
  by unfold_locales
    (simp add: maybe_kick_validation_def Let_def split: option.splits sum.splits)

lemma core_kick_loop: "core (out_state (kick_loop w hs r)) = core r"
  by (induction hs arbitrary: r) (auto intro: core_and_then kick.core_same)

interpretation kicks: bystander try_kick_pending_validations
  by unfold_locales (simp add: try_kick_pending_validations_def core_kick_loop)

lemma core_execute_node: "core (out_state (execute_node w nh nd r)) = core r"
  by (simp add: execute_node_def take_post_state_def take_post_root_def Let_def split: option.splits)

lemma core_execute_loop: "core (out_state (execute_loop w hs r)) = core r"
  by (induction hs arbitrary: r)
    (auto split: option.splits bool.splits intro: core_and_then kick.core_same core_execute_node)

interpretation exec: bystander "\<lambda>w. try_execute_chain w h" for h
  by unfold_locales (simp add: try_execute_chain_def core_execute_loop split: option.splits)

lemma core_retry_loop: "core (out_state (retry_loop w hs r)) = core r"
  by (induction hs arbitrary: r) (auto intro: core_and_then exec.core_same)

interpretation retry: bystander retry_pending_execute
  by unfold_locales (simp add: retry_pending_execute_def core_retry_loop)

interpretation ingest: bystander "\<lambda>w r. Ok (ingest_validation out r)" for out
  by unfold_locales (simp add: ingest_validation_def Let_def split: option.splits)

subsection \<open>The rules\<close>

lemma safe_step_and_then:
  assumes "safe_step n byz w a r (out_state x)"
    and "\<And>r1. safe_step n byz w b r1 (out_state (f r1))"
  shows "safe_step n byz w (a + b) r (out_state (and_then x f))"
  using assms by (cases x) (auto intro: safe_step_trans safe_step_weaken)

lemma safe_step_core_left:
  "core r1 = core r \<Longrightarrow> safe_step n byz w b r1 r' \<Longrightarrow> safe_step n byz w b r r'"
  using safe_step_trans [of n byz w 0 r r1 b r'] safe_step_core [of r1 r n byz w] by simp

lemma safe_step_core_right:
  "core r' = core r1 \<Longrightarrow> safe_step n byz w b r r1 \<Longrightarrow> safe_step n byz w b r r'"
  using safe_step_trans [of n byz w b r r1 0 r'] safe_step_core [of r' r1 n byz w] by simp

lemma safe_step_touch:
  assumes "\<And>H v d. view_ok (env w) n byz (my_id w) H v d \<Longrightarrow> view_ok (env w) n byz (my_id w) H v (f d)"
  shows "safe_step n byz w b r (vd_mut v f r)"
  by (rule safe_stepI) (simp add: safe_inv_vd_mut assms)

lemma form_qc_ok:
  assumes "votes_ok n byz H mt v b" and "iterates (iter_u32 E)"
    and "form_qc E b mt v (quorum_size n) = Some q"
  shows "qc_ok n byz H q \<and> qc_msg_type q = mt \<and> qc_view q = v"
proof -
  have "hm_ok b" using assms(1) by (simp add: votes_ok_def)
  note q = form_qc_SomeD [OF assms(3) this assms(2)]
  have "card (fst ` set (qc_sigs q)) = length (qc_sigs q)"
    using q distinct_card [of "map fst (qc_sigs q)"] by simp
  with q assms(1) show ?thesis
    by (auto simp: qc_ok_def supported_def votes_ok_def intro!: exI [of _ "fst ` set (qc_sigs q)"])
qed

lemma cast_vote_frame [simp]:
  "rs_n (cast_vote w mt v h r) = rs_n r" "rs_quorum (cast_vote w mt v h r) = rs_quorum r"
  "rs_view (cast_vote w mt v h r) = rs_view r" "tree (cast_vote w mt v h r) = tree r"
  "locked_qc (cast_vote w mt v h r) = locked_qc r" "prepare_qc (cast_vote w mt v h r) = prepare_qc r"
  "staged_pre_commit_qc (cast_vote w mt v h r) = staged_pre_commit_qc r"
  "staged_commit_qc (cast_vote w mt v h r) = staged_commit_qc r"
  "staged_decide_qc (cast_vote w mt v h r) = staged_decide_qc r"
  "decided_nodes (cast_vote w mt v h r) = decided_nodes r"
  "history (cast_vote w mt v h r) = Signed (my_id w) mt v h # history r"
  by (simp_all add: cast_vote_def Let_def)

lemma vd_entry_cast_vote:
  "vd_entry (cast_vote w mt v h r) u =
     (if u = v \<and> leader_for (rs_n r) v = my_id w
      then add_vote mt (my_id w) (h, sign_vote (env w) (sk w) mt v h) (vd_entry r v)
      else vd_entry r u)"
  by (simp add: cast_vote_def Let_def vd_entry_vd_mut)

text \<open>A vote that sets its flag, with \<open>r1\<close> the state that already carries the new lock or
  highest certificate.\<close>

lemma safe_inv_cast:
  assumes corr: "correct_replica n byz w" and inv: "safe_inv n byz w r"
    and r1: "r1 = r\<lparr>locked_qc := lq, prepare_qc := pq\<rparr>"
    and ok: "vote_ok (env w) n byz (history r) (my_id w) mt (rs_view r) h"
    and lock: "if mt = Commit then \<exists>q. lq = Some q \<and> qc_view q = rs_view r \<and> qc_node_hash q = h
               else lq = locked_qc r"
    and high: "\<And>q. pq = Some q \<Longrightarrow> prepare_qc r = Some q \<or> qc_ok n byz (history r) q"
    and flag: "\<And>H d. view_ok (env w) n byz (my_id w) H (rs_view r) d \<Longrightarrow>
                  view_ok (env w) n byz (my_id w) H (rs_view r) (f d)"
    and prep: "mt = Prepare \<Longrightarrow> f = (\<lambda>d. d\<lparr>voted_prepare := True\<rparr>)"
  shows "safe_inv n byz w (vd_mut (rs_view r) f (cast_vote w mt (rs_view r) h r1))"
proof -
  let ?v = "rs_view r" and ?i = "my_id w"
  let ?r' = "vd_mut ?v f (cast_vote w mt ?v h r1)" and ?H' = "Signed (my_id w) mt (rs_view r) h # history r"
  have i: "?i \<in> replica_ids n" using corr by (simp add: correct_replica_def)
  have old: "view_ok (env w) n byz ?i (history r) ?v (vd_entry r ?v)" using inv by (rule safe_inv_view)
  have entry: "view_ok (env w) n byz ?i ?H' ?v (vd_entry ?r' ?v)"
  proof (cases "mt = Prepare")
    case True
    have "view_ok (env w) n byz ?i (history r) ?v (vd_entry r ?v\<lparr>voted_prepare := True\<rparr>)"
      using old by (simp add: view_ok_def)
    note sign = view_ok_sign [OF this i, of mt h]
    show ?thesis
      using sign(1) sign(2) [of "sign_vote (env w) (sk w) Prepare ?v h"]
      by (simp add: vd_entry_vd_mut vd_entry_cast_vote r1 prep True view_ok_def)
  next
    case False
    then show ?thesis
      using view_ok_sign [OF old i, of mt h] by (auto simp: vd_entry_vd_mut vd_entry_cast_vote r1 intro: flag)
  qed
  show ?thesis
    by (rule safe_inv_sign [OF inv ok])
      (use lock high entry in \<open>auto simp: r1 vd_entry_vd_mut vd_entry_cast_vote split: if_splits\<close>)
qed

lemma tree_rel_parent_rel:
  assumes "safe_inv n byz w r"
  shows "(tree_rel (tree r))\<^sup>* \<subseteq> (parent_rel (env w) (history r))\<^sup>*"
  using assms by (intro rtrancl_mono) (force simp: tree_rel_def parent_rel_def safe_inv_def)

lemma extends_from_path:
  assumes "safe_inv n byz w r" and "Known nd \<in> set (history r)"
    and "extends_from (env w) nd t (tree r)"
  shows "(node_hash (env w) nd, t) \<in> (parent_rel (env w) (history r))\<^sup>*"
proof (cases "node_hash (env w) nd = t")
  case False
  then obtain k where "ancestor (tree r) (n_parent nd) k = Some t"
    using assms(3) by (auto simp: extends_from_def extends_loop_iff)
  then have "(n_parent nd, t) \<in> (parent_rel (env w) (history r))\<^sup>*"
    using tree_rel_parent_rel [OF assms(1)] by (blast dest: ancestor_reaches)
  moreover have "(node_hash (env w) nd, n_parent nd) \<in> parent_rel (env w) (history r)"
    using assms(2) by (auto simp: parent_rel_def)
  ultimately show ?thesis by (rule converse_rtrancl_into_rtrancl [rotated])
qed simp

lemma safe_node_vote_ok:
  assumes inv: "safe_inv n byz w r" and pr: "proposal (vd_entry r (rs_view r)) = Some (leaf, hq)"
    and fresh: "\<not> voted_prepare (vd_entry r (rs_view r))"
    and sn: "safe_node (env w) leaf hq (locked_qc r) (tree r)"
  shows "vote_ok (env w) n byz (history r) (my_id w) Prepare (rs_view r) (node_hash (env w) leaf)"
proof -
  note view = safe_inv_view [OF inv, of "rs_view r"]
  have kn: "Known leaf \<in> set (history r)" and hq: "\<And>q. hq = Some q \<Longrightarrow> qc_ok n byz (history r) q \<and> n_parent leaf = qc_node_hash q"
    using view pr by (auto simp: view_ok_def)
  have "case lock_of (my_id w) (history r) of None \<Rightarrow> True
        | Some (lv, lh) \<Rightarrow> (node_hash (env w) leaf, lh) \<in> (parent_rel (env w) (history r))\<^sup>* \<or>
            (\<exists>mt v'. lv < v' \<and> supported n byz (history r) mt v' (n_parent leaf))"
  proof (cases "locked_qc r")
    case None
    then show ?thesis using inv by (simp add: safe_inv_def)
  next
    case (Some l)
    then have "lock_of (my_id w) (history r) = Some (qc_view l, qc_node_hash l)"
      using inv by (simp add: safe_inv_def)
    moreover have "extends_from (env w) leaf (qc_node_hash l) (tree r) \<or> (\<exists>q. hq = Some q \<and> qc_view l < qc_view q)"
      using sn Some by (auto simp: safe_node_def split: if_splits option.splits)
    ultimately show ?thesis
      using extends_from_path [OF inv kn] hq by (auto simp: qc_ok_def)
  qed
  moreover have "\<forall>h. Signed (my_id w) Prepare (rs_view r) h \<notin> set (history r)"
    using view fresh by (simp add: view_ok_def)
  ultimately show ?thesis
    using inv kn unfolding vote_ok_def may_prepare_def safe_inv_def by auto
qed

lemma safe_inv_read: "safe_inv n byz w r \<Longrightarrow> safe_inv n byz w (vd_mut v (\<lambda>d. d) r)"
  by (rule safe_inv_vd_mut)

lemma vd_proposal: "Option.bind (vd r v) proposal = Some p \<Longrightarrow> proposal (vd_entry r v) = Some p"
  by (cases "vd r v") (simp_all add: vd_entry_def)

lemma safe_replica_prepare:
  assumes corr: "correct_replica n byz w"
  shows "safe_step n byz w 0 r0 (replica_prepare w r0)"
proof (rule safe_stepI)
  assume inv0: "safe_inv n byz w r0"
  define v where "v = rs_view r0"
  define r where "r = vd_mut v (\<lambda>d. d) r0"
  have inv: "safe_inv n byz w r" unfolding r_def by (rule safe_inv_read [OF inv0])
  have skip: "safe_inv n byz w (log_event v ev x (vd_mut v (\<lambda>d. d\<lparr>voted_prepare := True\<rparr>) r))" for ev x
    by (simp, rule safe_inv_vd_mut [OF inv]) (simp add: view_ok_def)
  have vote: "safe_inv n byz w (log_event v ev x (vd_mut v (\<lambda>d. d\<lparr>voted_prepare := True\<rparr>) (cast_vote w Prepare v (node_hash (env w) leaf) r)))"
    if "Option.bind (vd r0 v) proposal = Some (leaf, hq)" "\<not> voted_prepare (vd_entry r v)"
      "safe_node (env w) leaf hq (locked_qc r) (tree r)" for ev x leaf hq
  proof -
    have "vote_ok (env w) n byz (history r) (my_id w) Prepare (rs_view r) (node_hash (env w) leaf)"
      by (rule safe_node_vote_ok [OF inv, of leaf hq])
        (use that vd_proposal [of r0 v] in \<open>auto simp: r_def v_def vd_entry_vd_mut\<close>)
    from safe_inv_cast [OF corr inv _ this, where ?r1.0 = r and lq = "locked_qc r" and pq = "prepare_qc r"
        and f = "\<lambda>d. d\<lparr>voted_prepare := True\<rparr>"]
    have "safe_inv n byz w (vd_mut v (\<lambda>d. d\<lparr>voted_prepare := True\<rparr>) (cast_vote w Prepare v (node_hash (env w) leaf) r))"
      by (simp add: r_def v_def view_ok_def)
    then show ?thesis by simp
  qed
  show "safe_inv n byz w (replica_prepare w r0) \<and> rs_view (replica_prepare w r0) = rs_view r0 \<and>
        own_ext (my_id w) (history r0) (history (replica_prepare w r0))"
    unfolding replica_prepare_def Let_def v_def [symmetric] r_def [symmetric]
    using inv0 inv skip vote by (auto simp: r_def v_def split: option.splits)
qed

lemma staged_okD:
  assumes "staged_ok n byz H mt s" and "hm_get s v = Some q"
  shows "qc_view q = v" and "supported n byz H mt v (qc_node_hash q)" and "qc_ok n byz H q"
  using assms by (auto simp: staged_ok_def)

lemma safe_replica_pre_commit:
  assumes corr: "correct_replica n byz w"
  shows "safe_step n byz w 0 r0 (replica_pre_commit w r0)"
proof (rule safe_stepI)
  assume inv0: "safe_inv n byz w r0"
  define v where "v = rs_view r0"
  define r where "r = vd_mut v (\<lambda>d. d) r0"
  have inv: "safe_inv n byz w r" unfolding r_def by (rule safe_inv_read [OF inv0])
  have vote: "safe_inv n byz w (log_event v ev x (vd_mut v (\<lambda>d. d\<lparr>voted_precommit := True\<rparr>)
      (cast_vote w PreCommit v (qc_node_hash q) (r\<lparr>prepare_qc := Some q\<rparr>))))"
    if "hm_get (staged_pre_commit_qc r) v = Some q" for ev x q
  proof -
    have "staged_ok n byz (history r) Prepare (staged_pre_commit_qc r)" using inv by (simp add: safe_inv_def)
    note q = staged_okD [OF this that]
    have "vote_ok (env w) n byz (history r) (my_id w) PreCommit (rs_view r) (qc_node_hash q)"
      using q inv by (auto simp: vote_ok_def safe_inv_def r_def v_def)
    from safe_inv_cast [OF corr inv _ this, where ?r1.0 = "r\<lparr>prepare_qc := Some q\<rparr>" and lq = "locked_qc r" and pq = "Some q"
        and f = "\<lambda>d. d\<lparr>voted_precommit := True\<rparr>"]
    have "safe_inv n byz w (vd_mut v (\<lambda>d. d\<lparr>voted_precommit := True\<rparr>)
        (cast_vote w PreCommit v (qc_node_hash q) (r\<lparr>prepare_qc := Some q\<rparr>)))"
      using q by (simp add: r_def v_def view_ok_def)
    then show ?thesis by simp
  qed
  show "safe_inv n byz w (replica_pre_commit w r0) \<and> rs_view (replica_pre_commit w r0) = rs_view r0 \<and>
        own_ext (my_id w) (history r0) (history (replica_pre_commit w r0))"
    unfolding replica_pre_commit_def Let_def v_def [symmetric] r_def [symmetric]
    using inv vote by (auto simp: r_def v_def split: option.splits)
qed

lemma safe_replica_commit:
  assumes corr: "correct_replica n byz w"
  shows "safe_step n byz w 0 r0 (replica_commit w r0)"
proof (rule safe_stepI)
  assume inv0: "safe_inv n byz w r0"
  define v where "v = rs_view r0"
  define r where "r = vd_mut v (\<lambda>d. d) r0"
  have inv: "safe_inv n byz w r" unfolding r_def by (rule safe_inv_read [OF inv0])
  have vote: "safe_inv n byz w (log_event v ev x (vd_mut v (\<lambda>d. d\<lparr>voted_commit := True\<rparr>)
      (cast_vote w Commit v (qc_node_hash q) (r\<lparr>locked_qc := Some q\<rparr>))))"
    if "hm_get (staged_commit_qc r) v = Some q" for ev x q
  proof -
    have "staged_ok n byz (history r) PreCommit (staged_commit_qc r)" using inv by (simp add: safe_inv_def)
    note q = staged_okD [OF this that]
    have "vote_ok (env w) n byz (history r) (my_id w) Commit (rs_view r) (qc_node_hash q)"
      using q inv by (auto simp: vote_ok_def safe_inv_def r_def v_def)
    from safe_inv_cast [OF corr inv _ this, where ?r1.0 = "r\<lparr>locked_qc := Some q\<rparr>" and lq = "Some q" and pq = "prepare_qc r"
        and f = "\<lambda>d. d\<lparr>voted_commit := True\<rparr>"]
    have "safe_inv n byz w (vd_mut v (\<lambda>d. d\<lparr>voted_commit := True\<rparr>)
        (cast_vote w Commit v (qc_node_hash q) (r\<lparr>locked_qc := Some q\<rparr>)))"
      using q by (simp add: r_def v_def view_ok_def)
    then show ?thesis by simp
  qed
  show "safe_inv n byz w (replica_commit w r0) \<and> rs_view (replica_commit w r0) = rs_view r0 \<and>
        own_ext (my_id w) (history r0) (history (replica_commit w r0))"
    unfolding replica_commit_def Let_def v_def [symmetric] r_def [symmetric]
    using inv vote by (auto simp: r_def v_def split: option.splits)
qed

text \<open>A leader that forms a certificate, broadcasts it and stages it for itself.\<close>

lemma safe_inv_announce:
  assumes corr: "correct_replica n byz w" and inv: "safe_inv n byz w r"
    and form: "form_qc (env w) b mt v (rs_quorum r) = Some q"
    and votes: "votes_ok n byz (history r) mt v b"
    and flags: "\<And>H d. view_ok (env w) n byz (my_id w) H v d \<Longrightarrow> view_ok (env w) n byz (my_id w) H v (f d)"
      "\<And>H d. view_ok (env w) n byz (my_id w) H v d \<Longrightarrow> view_ok (env w) n byz (my_id w) H v (g d)"
    and stage: "\<And>r. safe_inv n byz w r \<Longrightarrow> qc_view q = v \<Longrightarrow> qc_ok n byz (history r) q \<Longrightarrow>
                  qc_msg_type q = mt \<Longrightarrow> safe_inv n byz w (stg r)"
  shows "safe_inv n byz w (vd_mut v f (emit e (log_event u ev x r))) \<and>
         safe_inv n byz w (stg (vd_mut v g (vd_mut v f (emit e (log_event u ev x r)))))"
proof -
  let ?r3 = "vd_mut v f (emit e (log_event u ev x r))"
  have q: "qc_ok n byz (history r) q \<and> qc_msg_type q = mt \<and> qc_view q = v"
    using form_qc_ok [OF votes, of "env w" q] form inv corr by (simp add: safe_inv_def correct_replica_def)
  have r3: "safe_inv n byz w ?r3" by (rule safe_inv_vd_mut) (use inv flags in simp_all)
  have "safe_inv n byz w (vd_mut v g ?r3)" by (rule safe_inv_vd_mut [OF r3 flags(2)])
  with r3 q show ?thesis by (simp add: stage)
qed

lemma safe_leader_pre_commit:
  assumes corr: "correct_replica n byz w"
  shows "safe_step n byz w 0 r0 (leader_pre_commit w r0)"
proof (rule safe_stepI)
  assume inv0: "safe_inv n byz w r0"
  define v where "v = rs_view r0"
  define r where "r = vd_mut v (\<lambda>d. d) r0"
  have inv: "safe_inv n byz w r" unfolding r_def by (rule safe_inv_read [OF inv0])
  have votes: "votes_ok n byz (history r) Prepare v (prepare_votes (vd_entry r v))"
    using safe_inv_view [OF inv, of v] by (simp add: view_ok_def)
  have stage: "safe_inv n byz w r3 \<and>
      safe_inv n byz w ((vd_mut v (\<lambda>d. d\<lparr>seen_pre_commit_qc := True\<rparr>) r3)
        \<lparr>staged_pre_commit_qc := hm_insert v q (staged_pre_commit_qc r3)\<rparr>)"
    if "form_qc (env w) (prepare_votes (vd_entry r v)) Prepare v (rs_quorum r) = Some q"
      and "r3 = vd_mut v (\<lambda>d. d\<lparr>broadcast_pre_commit := True\<rparr>) (emit e (log_event u ev x r))" for q e u ev x r3
    using safe_inv_announce [OF corr inv that(1) votes, where f = "\<lambda>d. d\<lparr>broadcast_pre_commit := True\<rparr>"
        and g = "\<lambda>d. d\<lparr>seen_pre_commit_qc := True\<rparr>"
        and stg = "\<lambda>r. r\<lparr>staged_pre_commit_qc := hm_insert v q (staged_pre_commit_qc r)\<rparr>"]
    by (simp add: that(2) view_ok_def safe_inv_stage(1))
  show "safe_inv n byz w (leader_pre_commit w r0) \<and> rs_view (leader_pre_commit w r0) = rs_view r0 \<and>
        own_ext (my_id w) (history r0) (history (leader_pre_commit w r0))"
    unfolding leader_pre_commit_def Let_def v_def [symmetric] r_def [symmetric]
    using inv inv0 stage by (simp add: r_def v_def split: option.splits)
qed

lemma safe_leader_commit:
  assumes corr: "correct_replica n byz w"
  shows "safe_step n byz w 0 r0 (leader_commit w r0)"
proof (rule safe_stepI)
  assume inv0: "safe_inv n byz w r0"
  define v where "v = rs_view r0"
  define r where "r = vd_mut v (\<lambda>d. d) r0"
  have inv: "safe_inv n byz w r" unfolding r_def by (rule safe_inv_read [OF inv0])
  have votes: "votes_ok n byz (history r) PreCommit v (precommit_votes (vd_entry r v))"
    using safe_inv_view [OF inv, of v] by (simp add: view_ok_def)
  have stage: "safe_inv n byz w r3 \<and>
      safe_inv n byz w ((vd_mut v (\<lambda>d. d\<lparr>seen_commit_qc := True\<rparr>) r3)
        \<lparr>staged_commit_qc := hm_insert v q (staged_commit_qc r3)\<rparr>)"
    if "form_qc (env w) (precommit_votes (vd_entry r v)) PreCommit v (rs_quorum r) = Some q"
      and "r3 = vd_mut v (\<lambda>d. d\<lparr>broadcast_commit := True\<rparr>) (emit e (log_event u ev x r))" for q e u ev x r3
    using safe_inv_announce [OF corr inv that(1) votes, where f = "\<lambda>d. d\<lparr>broadcast_commit := True\<rparr>"
        and g = "\<lambda>d. d\<lparr>seen_commit_qc := True\<rparr>"
        and stg = "\<lambda>r. r\<lparr>staged_commit_qc := hm_insert v q (staged_commit_qc r)\<rparr>"]
    by (simp add: that(2) view_ok_def safe_inv_stage(2))
  show "safe_inv n byz w (leader_commit w r0) \<and> rs_view (leader_commit w r0) = rs_view r0 \<and>
        own_ext (my_id w) (history r0) (history (leader_commit w r0))"
    unfolding leader_commit_def Let_def v_def [symmetric] r_def [symmetric]
    using inv inv0 stage by (simp add: r_def v_def split: option.splits)
qed

lemma safe_leader_decide:
  assumes corr: "correct_replica n byz w"
  shows "safe_step n byz w 0 r0 (leader_decide w r0)"
proof (rule safe_stepI)
  assume inv0: "safe_inv n byz w r0"
  define v where "v = rs_view r0"
  define r where "r = vd_mut v (\<lambda>d. d) r0"
  have inv: "safe_inv n byz w r" unfolding r_def by (rule safe_inv_read [OF inv0])
  have votes: "votes_ok n byz (history r) Commit v (commit_votes (vd_entry r v))"
    using safe_inv_view [OF inv, of v] by (simp add: view_ok_def)
  have stage: "safe_inv n byz w r3 \<and>
      safe_inv n byz w ((vd_mut v (\<lambda>d. d\<lparr>seen_decide_qc := True\<rparr>) r3)
        \<lparr>staged_decide_qc := hm_insert v q (staged_decide_qc r3)\<rparr>)"
    if "form_qc (env w) (commit_votes (vd_entry r v)) Commit v (rs_quorum r) = Some q"
      and "r3 = vd_mut v (\<lambda>d. d\<lparr>broadcast_decide := True\<rparr>) (emit e (log_event u ev x r))" for q e u ev x r3
    using safe_inv_announce [OF corr inv that(1) votes, where f = "\<lambda>d. d\<lparr>broadcast_decide := True\<rparr>"
        and g = "\<lambda>d. d\<lparr>seen_decide_qc := True\<rparr>"
        and stg = "\<lambda>r. r\<lparr>staged_decide_qc := hm_insert v q (staged_decide_qc r)\<rparr>"]
    by (simp add: that(2) view_ok_def safe_inv_stage(3))
  show "safe_inv n byz w (leader_decide w r0) \<and> rs_view (leader_decide w r0) = rs_view r0 \<and>
        own_ext (my_id w) (history r0) (history (leader_decide w r0))"
    unfolding leader_decide_def Let_def v_def [symmetric] r_def [symmetric]
    using inv inv0 stage by (simp add: r_def v_def split: option.splits)
qed

lemma max_by_view_mem: "max_by_view qs best = Some q \<Longrightarrow> q \<in> set qs \<or> best = Some q"
  by (induction qs best rule: max_by_view.induct) (auto split: option.splits if_splits)

lemma justifies_mem: "q \<in> set (justifies msgs order) \<Longrightarrow> \<exists>j. hm_get msgs j = Some (Some q)"
  by (induction msgs order rule: justifies.induct) (auto split: option.splits)

lemma highest_qc_mem: "highest_qc E msgs = Some q \<Longrightarrow> \<exists>j. hm_get msgs j = Some (Some q)"
  unfolding highest_qc_def using max_by_view_mem justifies_mem by fastforce

lemma safe_step_kick: "safe_step n byz w 0 r r1 \<Longrightarrow> safe_step n byz w 0 r (out_state (maybe_kick_validation w h r1))"
  by (rule safe_step_core_right [OF kick.core_same])

lemma safe_propose:
  assumes high: "\<And>q. high_qc = Some q \<Longrightarrow> safe_inv n byz w r \<Longrightarrow> qc_ok n byz (history r) q"
  shows "safe_step n byz w 0 r (out_state (propose w v high_qc nh b r))"
  unfolding propose_def Let_def
proof (rule safe_step_kick, rule safe_stepI, intro conjI)
  let ?leaf = "\<lparr>n_parent = (case high_qc of Some q \<Rightarrow> qc_node_hash q | None \<Rightarrow> GENESIS_HASH),
    n_cmd = b_cmd b, n_height = nh\<rparr>"
  assume inv: "safe_inv n byz w r"
  have "qc_ok n byz (Known ?leaf # history r) q \<and> n_parent ?leaf = qc_node_hash q" if "high_qc = Some q" for q
    using high [OF that inv] that by (auto intro: qc_ok_mono)
  then show "safe_inv n byz w (vd_mut v (\<lambda>d. (if proposal d = None then d\<lparr>proposal := Some (?leaf, high_qc)\<rparr> else d)
      \<lparr>broadcast_proposal := True\<rparr>) (emit e (log_event u ev x (tree_insert (node_hash (env w) ?leaf) ?leaf r))))" for e u ev x
    by (intro safe_inv_vd_mut) (use inv safe_inv_tree_insert in \<open>auto simp: view_ok_def tree_insert_def\<close>)
qed (simp_all add: tree_insert_def)

lemma safe_leader_prepare: "safe_step n byz w 0 r0 (out_state (leader_prepare w r0))"
proof -
  define v where "v = rs_view r0"
  define r where "r = vd_mut v (\<lambda>d. d) r0"
  have r: "safe_step n byz w 0 r0 r" unfolding r_def by (rule safe_step_touch)
  have "safe_step n byz w 0 r0 (out_state (propose w v (highest_qc (env w) (new_view_msgs (vd_entry r u))) nh b r))"
    for u nh b
    using safe_step_trans [OF r safe_propose, of "highest_qc (env w) (new_view_msgs (vd_entry r u))" v nh b]
    by (simp, meson highest_qc_mem safe_inv_view view_ok_def)
  with r show ?thesis
    unfolding leader_prepare_def Let_def v_def [symmetric] r_def [symmetric]
    by (simp split: option.splits sum.splits)
qed

lemma safe_enter_new_view: "safe_step n byz w 1 r (enter_new_view w (rs_view r + 1) r)"
proof (unfold safe_step_def, intro impI, elim conjE)
  assume inv: "safe_inv n byz w r" and room: "unat (rs_view r) + 1 < 2 ^ 64"
  have u: "unat (rs_view r + 1) = unat (rs_view r) + 1"
    using room by (simp add: unat_add_no_overflow)
  then have le: "rs_view r \<le> rs_view r + 1" by (simp add: word_le_nat_alt)
  have "safe_inv n byz w (r\<lparr>rs_view := rs_view r + 1\<rparr>)" by (rule safe_inv_raise_view [OF inv le])
  moreover from this have "safe_inv n byz w (vd_mut (rs_view r)
      (\<lambda>d. d\<lparr>new_view_msgs := hm_insert (my_id w) (prepare_qc r) (new_view_msgs d)\<rparr>)
      (log_event u ev x (r\<lparr>rs_view := rs_view r + 1\<rparr>)))" for u ev x
    by (intro safe_inv_vd_mut) (use inv in \<open>auto simp: view_ok_def safe_inv_def\<close>)
  ultimately show "safe_inv n byz w (enter_new_view w (rs_view r + 1) r) \<and>
    unat (rs_view (enter_new_view w (rs_view r + 1) r)) \<le> unat (rs_view r) + 1 \<and>
    rs_view r \<le> rs_view (enter_new_view w (rs_view r + 1) r) \<and>
    own_ext (my_id w) (history r) (history (enter_new_view w (rs_view r + 1) r))"
    using u le by (simp add: enter_new_view_def Let_def)
qed

lemma safe_handle_timer: "safe_step n byz w 1 r (handle_timer w evt r)"
proof -
  let ?r2 = "(log_event (rs_view r) ''next_view'' [(''reason'', JStr ''timeout'')] r)
    \<lparr>timeout_interval_ms := saturating_mul (timeout_interval_ms r) 2\<rparr>"
  have "safe_step n byz w 1 r (enter_new_view w (rs_view ?r2 + 1) ?r2)"
    by (rule safe_step_core_left [OF _ safe_enter_new_view]) simp
  then show ?thesis by (simp add: handle_timer_def Let_def)
qed

lemma safe_replica_decide:
  assumes corr: "correct_replica n byz w"
  shows "safe_step n byz w 1 r0 (out_state (replica_decide w r0))"
proof -
  define v where "v = rs_view r0"
  define r where "r = vd_mut v (\<lambda>d. d) r0"
  have r: "safe_step n byz w 0 r0 r" unfolding r_def by (rule safe_step_touch)
  have r1: "safe_step n byz w 1 r0 r" by (rule safe_step_weaken [OF r]) simp
  have "safe_step n byz w 1 r (out_state (and_then (try_execute_chain w (qc_node_hash q)
            (r\<lparr>decided_nodes := hs_insert (qc_node_hash q) (decided_nodes r)\<rparr>))
          (\<lambda>r1. Ok (enter_new_view w (v + 1)
             ((log_event v ev x r1)\<lparr>timeout_interval_ms := t\<rparr>)))))"
    if "hm_get (staged_decide_qc r) v = Some q" for q ev x t
  proof -
    let ?rd = "r\<lparr>decided_nodes := hs_insert (qc_node_hash q) (decided_nodes r)\<rparr>"
    have d: "safe_step n byz w 0 r ?rd"
    proof (rule safe_stepI)
      assume inv: "safe_inv n byz w r"
      then have "staged_ok n byz (history r) Commit (staged_decide_qc r)" by (simp add: safe_inv_def)
      from safe_inv_decided [OF inv staged_okD(2) [OF this that]]
      show "safe_inv n byz w ?rd \<and> rs_view ?rd = rs_view r \<and> own_ext (my_id w) (history r) (history ?rd)"
        by simp
    qed
    show ?thesis
    proof (cases "try_execute_chain w (qc_node_hash q) ?rd")
      case (Ok r1)
      then have "core r1 = core ?rd" using exec.core_same [of w "qc_node_hash q" ?rd] by simp
      then have s: "safe_step n byz w 0 r r1" and v: "rs_view r1 = v"
        using d safe_step_core_right by (blast, simp add: core_def r_def v_def)
      let ?r3 = "(log_event v ev x r1)\<lparr>timeout_interval_ms := t\<rparr>"
      have "safe_step n byz w 1 r1 (enter_new_view w (rs_view ?r3 + 1) ?r3)"
        by (rule safe_step_core_left [OF _ safe_enter_new_view]) simp
      from safe_step_trans [OF s this] v Ok show ?thesis by simp
    next
      case (Panicked e r1)
      then have "core r1 = core ?rd" using exec.core_same [of w "qc_node_hash q" ?rd] by simp
      then show ?thesis
        using Panicked safe_step_core_right [OF _ safe_step_weaken [OF d, of 1]] by simp
    qed
  qed
  from safe_step_trans [OF r this] r1 show ?thesis
    unfolding replica_decide_def Let_def v_def [symmetric] r_def [symmetric]
    by (simp split: option.splits)
qed

text \<open>Every rule keeps the contract; together they make one pass of \<^verbatim>\<open>try_advance\<close>.\<close>

interpretation r1: protocol_rule 0 leader_prepare
  by unfold_locales (rule safe_leader_prepare)

interpretation r2: protocol_rule 0 "\<lambda>w r. Ok (replica_prepare w r)"
  by unfold_locales (simp add: safe_replica_prepare)

interpretation r3: protocol_rule 0 "\<lambda>w r. Ok (leader_pre_commit w r)"
  by unfold_locales (simp add: safe_leader_pre_commit)

interpretation r4: protocol_rule 0 "\<lambda>w r. Ok (replica_pre_commit w r)"
  by unfold_locales (simp add: safe_replica_pre_commit)

interpretation r5: protocol_rule 0 "\<lambda>w r. Ok (leader_commit w r)"
  by unfold_locales (simp add: safe_leader_commit)

interpretation r6: protocol_rule 0 "\<lambda>w r. Ok (replica_commit w r)"
  by unfold_locales (simp add: safe_replica_commit)

interpretation r7: protocol_rule 0 "\<lambda>w r. Ok (leader_decide w r)"
  by unfold_locales (simp add: safe_leader_decide)

interpretation r8: protocol_rule 1 replica_decide
  by unfold_locales (rule safe_replica_decide)

interpretation timer: protocol_rule 1 "\<lambda>w r. Ok (handle_timer w evt r)" for evt
  by unfold_locales (simp add: safe_handle_timer del: One_nat_def)

interpretation advance: protocol_rule 1 try_advance
proof unfold_locales
  fix n byz w r
  assume corr: "correct_replica n byz w"
  have "safe_step n byz w (0 + (0 + (0 + (0 + (0 + (0 + (0 + (1 + (0 + 0))))))))) r (out_state (try_advance w r))"
    unfolding try_advance_def
    by (rule safe_step_and_then r1.keeps_safe [OF corr] r2.keeps_safe [OF corr] r3.keeps_safe [OF corr]
        r4.keeps_safe [OF corr] r5.keeps_safe [OF corr] r6.keeps_safe [OF corr] r7.keeps_safe [OF corr]
        r8.keeps_safe [OF corr] retry.keeps_safe [OF corr] kicks.keeps_safe [OF corr])+
  then show "safe_step n byz w 1 r (out_state (try_advance w r))" by simp
qed

subsection \<open>The handlers\<close>

lemma verified_qc_ok:
  assumes "verify_qc_sync E q (quorum_size n) keys" and "keys_ok n keys"
    and "unforged E keys byz H (qc_claims q)"
  shows "qc_ok n byz H q"
proof -
  have "valid_signers E keys q \<subseteq> replica_ids n"
    using assms(2) valid_signers_keys [of E keys q] by (auto simp: keys_ok_def hm_keys_dom)
  moreover have "Signed i (qc_msg_type q) (qc_view q) (qc_node_hash q) \<in> set H"
    if i: "i \<in> valid_signers E keys q - byz" for i
  proof -
    obtain s pk where "(i, s) \<in> set (qc_sigs q)" "hm_get keys i = Some pk"
      and "verify_vote_sig E pk (qc_msg_type q) (qc_view q) (qc_node_hash q) s"
      using i by (auto simp: valid_signers_def valid_sig_def)
    moreover from this(1) have "(i, qc_msg_type q, qc_view q, qc_node_hash q, s) \<in> set (qc_claims q)"
      by (force simp: qc_claims_def)
    ultimately show ?thesis using assms(3) i unfolding unforged_def by fast
  qed
  ultimately show ?thesis
    using verify_qc_sound [OF assms(1)] unfolding qc_ok_def supported_def by blast
qed

lemma safe_handle_proposal:
  assumes "keys_ok n keys"
    and "\<And>q. justify = Some q \<Longrightarrow> unforged (env w) keys byz (history r) (qc_claims q)"
  shows "safe_step n byz w 0 r (out_state (handle_proposal w keys view node justify sender r))"
proof (cases "qc_acceptable w keys r justify \<and>
    n_parent node = (case justify of Some q \<Rightarrow> qc_node_hash q | None \<Rightarrow> GENESIS_HASH)")
  case True
  let ?h = "node_hash (env w) node"
  let ?r1 = "vd_mut view (\<lambda>d. d) (tree_insert ?h node r)"
  have "safe_step n byz w 0 r ?r1 \<and>
      safe_step n byz w 0 r (log_event u ev x (vd_mut view (\<lambda>d. d\<lparr>proposal := Some (node, justify)\<rparr>) ?r1))" for u ev x
  proof (intro conjI safe_stepI)
    assume inv: "safe_inv n byz w r"
    have i1: "safe_inv n byz w ?r1" by (intro safe_inv_read safe_inv_tree_insert inv)
    have ok: "qc_ok n byz (Known node # history r) q \<and> n_parent node = qc_node_hash q" if "justify = Some q" for q
    proof -
      have "verify_qc_sync (env w) q (quorum_size n) keys"
        using True that inv by (simp add: qc_acceptable_def safe_inv_def)
      from verified_qc_ok [OF this assms(1) assms(2) [OF that]] True that
      show ?thesis by (auto intro: qc_ok_mono)
    qed
    have "safe_inv n byz w (vd_mut view (\<lambda>d. d\<lparr>proposal := Some (node, justify)\<rparr>) ?r1)"
      by (rule safe_inv_vd_mut [OF i1]) (use ok in \<open>auto simp: view_ok_def tree_insert_def\<close>)
    with i1 show "safe_inv n byz w ?r1"
      and "safe_inv n byz w (log_event u ev x (vd_mut view (\<lambda>d. d\<lparr>proposal := Some (node, justify)\<rparr>) ?r1))"
      by simp_all
  qed (simp_all add: tree_insert_def)
  then show ?thesis
    unfolding handle_proposal_def Let_def by (simp add: safe_step_kick)
qed (auto simp: handle_proposal_def)

lemma safe_stage_qc:
  assumes "expected_qc_type mt = Some (qc_msg_type q)" and "qc_view q = v"
    and "safe_inv n byz w r \<Longrightarrow> qc_ok n byz (history r) q"
  shows "safe_step n byz w 0 r (stage_qc mt v q r)"
proof (rule safe_stepI)
  assume inv: "safe_inv n byz w r"
  note ok = assms(3) [OF inv]
  have flags: "safe_inv n byz w (vd_mut v (\<lambda>d. d\<lparr>seen_pre_commit_qc := True\<rparr>) r)"
    "safe_inv n byz w (vd_mut v (\<lambda>d. d\<lparr>seen_commit_qc := True\<rparr>) r)"
    "safe_inv n byz w (vd_mut v (\<lambda>d. d\<lparr>seen_decide_qc := True\<rparr>) r)"
    by (auto intro!: safe_inv_vd_mut [OF inv] simp: view_ok_def)
  have "safe_inv n byz w (stage_qc mt v q r)"
  proof (cases mt)
    case PreCommit
    then show ?thesis
      using safe_inv_stage(1) [of n byz w "log_event v e x (vd_mut v (\<lambda>d. d\<lparr>seen_pre_commit_qc := True\<rparr>) r)" q v for e x]
        flags ok assms inv by (simp add: stage_qc_def)
  next
    case Commit
    then show ?thesis
      using safe_inv_stage(2) [of n byz w "log_event v e x (vd_mut v (\<lambda>d. d\<lparr>seen_commit_qc := True\<rparr>) r)" q v for e x]
        flags ok assms inv by (simp add: stage_qc_def)
  next
    case Decide
    let ?r = "log_event v ''phase_qc_recv'' [(''phase'', JStr ''decide'')]
      (vd_mut v (\<lambda>d. d\<lparr>seen_decide_qc := True\<rparr>) r)"
    have "safe_inv n byz w (?r\<lparr>decided_nodes := hs_insert (qc_node_hash q) (decided_nodes r)\<rparr>)"
      using safe_inv_decided [of n byz w ?r "qc_view q" "qc_node_hash q"] flags ok Decide assms(1)
      by (simp add: qc_ok_def)
    from safe_inv_stage(3) [OF this, of q v] show ?thesis
      using ok assms inv Decide by (simp add: stage_qc_def)
  qed (use inv in \<open>simp_all add: stage_qc_def\<close>)
  then show "safe_inv n byz w (stage_qc mt v q r) \<and> rs_view (stage_qc mt v q r) = rs_view r \<and>
      own_ext (my_id w) (history r) (history (stage_qc mt v q r))"
    by (cases mt) (simp_all add: stage_qc_def)
qed

lemma safe_handle_phase_qc:
  assumes "keys_ok n keys" and "unforged (env w) keys byz (history r) (qc_claims q)"
  shows "safe_step n byz w 0 r (handle_phase_qc w keys mt view q sender r)"
proof -
  have r: "safe_step n byz w 0 r (vd_mut view (\<lambda>d. d) r)" by (rule safe_step_touch)
  have "safe_step n byz w 0 r (stage_qc mt view q (vd_mut view (\<lambda>d. d) r))"
    if "expected_qc_type mt = Some (qc_msg_type q)" "qc_view q = view"
      and ver: "verify_qc_sync (env w) q (rs_quorum r) keys"
  proof -
    have "qc_ok n byz (history r) q" if "safe_inv n byz w (vd_mut view (\<lambda>d. d) r)"
      using verified_qc_ok [OF _ assms] ver that by (simp add: safe_inv_def)
    then show ?thesis using safe_step_trans [OF r safe_stage_qc [OF that(1,2)]] by simp
  qed
  then show ?thesis
    unfolding handle_phase_qc_def by (auto split: option.splits)
qed

lemma votes_ok_insert:
  assumes "votes_ok n byz H mt v b" and "i \<in> replica_ids n" and "i \<notin> byz \<Longrightarrow> Signed i mt v h \<in> set H"
  shows "votes_ok n byz H mt v (hm_insert i (h, s) b)"
  using assms by (auto simp: votes_ok_def)

lemma view_ok_add_vote:
  assumes "view_ok E n byz j H v d" and "i \<in> replica_ids n" and "i \<notin> byz \<Longrightarrow> Signed i mt v h \<in> set H"
  shows "view_ok E n byz j H v (add_vote mt i (h, s) d)"
  using assms by (cases mt) (auto simp: view_ok_def intro!: votes_ok_insert)

lemma safe_handle_vote:
  assumes "keys_ok n keys" and "unforged (env w) keys byz (history r) [(voter, mt, view, nh, sig)]"
    and "voter \<noteq> my_id w \<or> Signed (my_id w) mt view nh \<in> set (history r)" and "my_id w \<in> replica_ids n"
  shows "safe_step n byz w 0 r (handle_vote w keys mt view nh voter sig r)"
proof (cases "vote_admitted w keys mt view nh voter sig")
  case True
  then have "voter = my_id w \<or> (\<exists>pk. hm_get keys voter = Some pk \<and> verify_vote_sig (env w) pk mt view nh sig)"
    by (auto simp: vote_admitted_def split: option.splits if_splits)
  then have v: "voter \<in> replica_ids n" and s: "voter \<notin> byz \<Longrightarrow> Signed voter mt view nh \<in> set (history r)"
    using assms by (auto simp: keys_ok_def hm_keys_dom unforged_def)
  have "safe_step n byz w 0 r (vd_mut view (\<lambda>d. d) r)" by (rule safe_step_touch)
  moreover have "safe_step n byz w 0 r (vd_mut view (add_vote mt voter (nh, sig)) (vd_mut view (\<lambda>d. d) r))"
    by (rule safe_stepI) (auto intro!: safe_inv_vd_mut view_ok_add_vote v s)
  ultimately show ?thesis
    unfolding handle_vote_def Let_def
    by (auto split: option.splits intro: safe_step_core_right [OF core_log_event])
qed (simp add: handle_vote_def)

lemma safe_handle_new_view:
  assumes "keys_ok n keys"
    and "\<And>q. justify = Some q \<Longrightarrow> unforged (env w) keys byz (history r) (qc_claims q)"
  shows "safe_step n byz w 0 r (handle_new_view w keys view justify sender r)"
proof (cases "qc_acceptable w keys r justify")
  case True
  have "safe_step n byz w 0 r (vd_mut view (\<lambda>d. d) r)" by (rule safe_step_touch)
  moreover have "safe_step n byz w 0 r (vd_mut view (\<lambda>d. d\<lparr>new_view_msgs := hm_insert sender justify (new_view_msgs d)\<rparr>)
      (vd_mut view (\<lambda>d. d) r))"
  proof (rule safe_stepI)
    assume inv: "safe_inv n byz w r"
    have "qc_ok n byz (history r) q" if "justify = Some q" for q
      using True verified_qc_ok [OF _ assms(1) assms(2) [OF that]] inv that
      by (simp add: qc_acceptable_def safe_inv_def)
    with inv show "safe_inv n byz w (vd_mut view (\<lambda>d. d\<lparr>new_view_msgs := hm_insert sender justify (new_view_msgs d)\<rparr>)
        (vd_mut view (\<lambda>d. d) r)) \<and>
      rs_view (vd_mut view (\<lambda>d. d\<lparr>new_view_msgs := hm_insert sender justify (new_view_msgs d)\<rparr>)
        (vd_mut view (\<lambda>d. d) r)) = rs_view r \<and>
      own_ext (my_id w) (history r) (history (vd_mut view
        (\<lambda>d. d\<lparr>new_view_msgs := hm_insert sender justify (new_view_msgs d)\<rparr>) (vd_mut view (\<lambda>d. d) r)))"
      by (auto intro!: safe_inv_vd_mut simp: view_ok_def)
  qed
  ultimately show ?thesis
    unfolding handle_new_view_def Let_def
    by (auto intro: safe_step_core_right [OF core_log_event])
qed (simp add: handle_new_view_def)

lemma safe_handle_msg:
  assumes "admissible n byz w keys (history r) msg" and "my_id w \<in> replica_ids n"
  shows "safe_step n byz w 0 r (out_state (handle_msg w keys msg r))"
  using assms unfolding admissible_def authentic_def
  by (cases msg)
    (auto intro: safe_handle_proposal safe_handle_phase_qc safe_handle_vote safe_handle_new_view)

end
