(* ===== verification/Node_Main.thy ===== *)
theory Node_Main
  imports Rules
begin

text \<open>
  \<^verbatim>\<open>node/consensus-node/src/main.rs\<close>: the arguments, the choice of validator and
  initial state, the start of a node, the events of its loop and the serial validator worker. One
  event is \<open>node_event\<close>: one message, timer or validation outcome, and then
  \<^verbatim>\<open>try_advance\<close>. The process around it, with its channels and connections, is the
  theory \<open>Node_Process\<close>. The parser of the command line, sleeping and the wall clock are not
  modelled (the \<^verbatim>\<open>elapsed_ns\<close> of a log line is left out); the key pair, which
  \<^verbatim>\<open>main\<close> draws at random, is the field \<open>sk\<close> of the wiring.
\<close>

datatype Speed = Fast | Slow

datatype Mode = ModeReexecute | ModeVerify

record Args =
  node_id :: u32
  speed :: Speed
  peers :: string
  port :: "16 word"
  mode :: Mode
  workload_name :: string
  workloads_dir :: path
  slow_delay_per_tx_ns :: u64
  args_timeout_base_ms :: u64

definition this_node_reexecutes :: "Args \<Rightarrow> bool" where
  "this_node_reexecutes args =
     (case mode args of ModeReexecute \<Rightarrow> True | ModeVerify \<Rightarrow> speed args = Fast)"

definition build_validator :: "Platform \<Rightarrow> Args \<Rightarrow> path \<Rightarrow> panic + Validator" where
  "build_validator P args elf =
     (if this_node_reexecutes args
      then Inr (Reexecute (if speed args = Slow then slow_delay_per_tx_ns args else 0))
      else case fs_read P elf of
             None \<Rightarrow> Inl ElfUnreadable
           | Some elf_bytes \<Rightarrow>
               (case sp1_setup P elf_bytes of
                  None \<Rightarrow> Inl ProverSetupFailed
                | Some vkey \<Rightarrow> Inr (Verify vkey)))"

definition init_state :: "Args \<Rightarrow> Workload \<Rightarrow> State" where
  "init_state args wl =
     (if this_node_reexecutes args
      then fold (\<lambda>i s. set_balance s (of_nat i) (initial_balance (wl_manifest wl)))
             [0..<unat (num_accounts (wl_manifest wl))] State_new
      else State_new)"

definition peer_hosts :: "Args \<Rightarrow> string list" where
  "peer_hosts args = filter (\<lambda>s. s \<noteq> []) (split_on CHR '','' (peers args))"

definition num_replicas :: "Args \<Rightarrow> u32" where
  "num_replicas args = of_nat (length (peer_hosts args)) + 1"

definition node_wiring :: "Externals \<Rightarrow> Platform \<Rightarrow> Args \<Rightarrow> digest \<Rightarrow> Workload \<Rightarrow> Wiring" where
  "node_wiring E P args signing_key wl =
     \<lparr>my_id = node_id args, sk = signing_key, env = E, plat = P, workload = wl,
      timeout_base_ms = args_timeout_base_ms args\<rparr>"

text \<open>
  What \<^verbatim>\<open>main\<close> prepares before it connects: the workload, the hosts to dial, the number
  of replicas, the validator and the initial state.
\<close>

definition node_setup :: "Platform \<Rightarrow> Args \<Rightarrow> panic + Workload \<times> string list \<times> u32 \<times> Validator \<times> State" where
  "node_setup P args =
     (case Workload_load P (workloads_dir args @ [workload_name args]) of
        Inl e \<Rightarrow> Inl e
      | Inr wl \<Rightarrow>
          (case build_validator P args (elf_path wl) of
             Inl e \<Rightarrow> Inl e
           | Inr val \<Rightarrow> Inr (wl, peer_hosts args, num_replicas args, val, init_state args wl)))"

definition peers_ready :: "u32 \<Rightarrow> nat \<Rightarrow> bool" where
  "peers_ready n writers \<longleftrightarrow> (of_nat writers :: u32) \<ge> n - 1"

text \<open>The state of a node before \<^verbatim>\<open>start_protocol\<close>, and after the first rule pass.\<close>

definition Replica_new :: "u32 \<Rightarrow> u64 \<Rightarrow> State \<Rightarrow> Replica" where
  "Replica_new n timeout s =
     ReplicaState.extend (ReplicaState_new n timeout)
       (Replica.fields s 0 [] [] [])"

definition boot :: "Wiring \<Rightarrow> u32 \<Rightarrow> State \<Rightarrow> outcome" where
  "boot w n s = try_advance w (start_protocol w (Replica_new n (timeout_base_ms w) s))"

subsection \<open>The event loop\<close>

datatype event =
    Inbox Wire
  | Timer TimerEvent
  | ValOut ValidateOutcome

definition node_done :: "Wiring \<Rightarrow> Replica \<Rightarrow> bool" where
  "node_done w r \<longleftrightarrow> last_executed_height r + 1 \<ge> uint (num_blocks (wl_manifest (workload w)))"

fun on_event :: "Wiring \<Rightarrow> Validator \<Rightarrow> (u32, digest) hashmap \<Rightarrow> event \<Rightarrow> Replica \<Rightarrow> outcome" where
  "on_event w val keys (Inbox msg) r = handle_msg w keys msg r"
| "on_event w val keys (Timer evt) r = Ok (handle_timer w evt r)"
| "on_event w val keys (ValOut out) r =
     Ok (ingest_validation out
           (log_event (rs_view r) ''validate_end''
              [(''kind'', JStr (kind val)), (''valid'', JBool (out_valid out)),
               (''height'', JNum (uint (out_height out)))] r))"

definition node_event ::
  "Wiring \<Rightarrow> Validator \<Rightarrow> (u32, digest) hashmap \<Rightarrow> event \<Rightarrow> Replica \<Rightarrow> outcome" where
  "node_event w val keys ev r = and_then (on_event w val keys ev r) (try_advance w)"

text \<open>
  The transaction counter that follows each event. The addition to \<^verbatim>\<open>last_counted_height\<close>
  stays below \<^verbatim>\<open>last_executed_height\<close>, so it never leaves the range of an \<open>i64\<close>.
\<close>

function count_txs ::
  "Platform \<Rightarrow> Workload \<Rightarrow> int \<Rightarrow> u64 \<Rightarrow> int \<Rightarrow> panic + u64 \<times> int" where
  "count_txs P wl last_exec txs last_counted =
     (if last_counted < last_exec
      then (case block P wl (word_of_int (last_counted + 1)) of
              Inl e \<Rightarrow> Inl e
            | Inr b \<Rightarrow> count_txs P wl last_exec (txs + ucast (txs_total (b_meta b))) (last_counted + 1))
      else Inr (txs, last_counted))"
  by pat_completeness auto
termination
  by (relation "measure (\<lambda>(P, wl, last_exec, txs, last_counted). nat (last_exec - last_counted))") auto

declare count_txs.simps [simp del]

text \<open>
  The worker task: it takes one request at a time off the queue and answers with an outcome; a
  panic inside the validation ends the worker.
\<close>

definition worker_step :: "Wiring \<Rightarrow> Validator \<Rightarrow> Replica \<Rightarrow> (Replica \<times> (panic + ValidateOutcome)) option" where
  "worker_step w val r =
     (case val_queue r of
        [] \<Rightarrow> None
      | (req, snapshot) # rest \<Rightarrow>
          Some (r\<lparr>val_queue := rest\<rparr>, run_validation (plat w) req snapshot val))"

text \<open>The iteration orders of a node's hash maps, which may differ from one step to the next.\<close>

definition reorder :: "(u32 list \<Rightarrow> u32 list) \<Rightarrow> (digest list \<Rightarrow> digest list) \<Rightarrow> Wiring \<Rightarrow> Wiring" where
  "reorder f g w = w\<lparr>env := (env w)\<lparr>iter_u32 := f, iter_digest := g\<rparr>\<rparr>"

lemma reorder_simps [simp]:
  "my_id (reorder f g w) = my_id w" "plat (reorder f g w) = plat w" "workload (reorder f g w) = workload w"
  "timeout_base_ms (reorder f g w) = timeout_base_ms w" "node_hash (env (reorder f g w)) nd = node_hash (env w) nd"
  "iter_u32 (env (reorder f g w)) = f" "iter_digest (env (reorder f g w)) = g"
  by (simp_all add: reorder_def node_hash_def)

end
