(* ===== verification/Agreement.thy ===== *)
theory Agreement
  imports Safety Node_Main
begin

text \<open>
  The network: correct replicas that run the event loop, one event at a time, against an adversary
  that delivers, drops, reorders and invents messages, fires any timer and returns any validation
  outcome, but cannot make a correct replica's signature. What it may deliver is a parameter of the
  network, \<open>adm\<close>: the theorems are for \<open>admissible\<close> messages, among them no vote in the
  receiver's own name that the receiver did not cast, because the receiver does not check the
  signature of such a vote; the theory \<open>Fork\<close> shows that they fail without this. The history
  is shared: it holds what the correct replicas have signed and stored. A replica that panics stops.
\<close>

record Network =
  net_replicas :: "u32 \<Rightarrow> Replica"
  net_stopped :: "u32 set"
  net_history :: "hevent list"

definition wired :: "(u32 \<Rightarrow> Wiring) \<Rightarrow> Externals \<Rightarrow> bool" where
  "wired W E \<longleftrightarrow> (\<forall>i. my_id (W i) = i \<and> env (W i) = E)"

definition local_state :: "Network \<Rightarrow> u32 \<Rightarrow> Replica" where
  "local_state s i = (net_replicas s i)\<lparr>history := net_history s\<rparr>"

definition net_init :: "u32 \<Rightarrow> (u32 \<Rightarrow> Wiring) \<Rightarrow> (u32 \<Rightarrow> State) \<Rightarrow> Network" where
  "net_init n W init =
     \<lparr>net_replicas = (\<lambda>i. Replica_new n (timeout_base_ms (W i)) (init i)),
      net_stopped = {}, net_history = []\<rparr>"

fun panicked :: "outcome \<Rightarrow> bool" where
  "panicked (Ok r) = False"
| "panicked (Panicked e r) = True"

definition net_update :: "Network \<Rightarrow> u32 \<Rightarrow> outcome \<Rightarrow> Network" where
  "net_update s i out =
     \<lparr>net_replicas = (net_replicas s)(i := out_state out),
      net_stopped = (if panicked out then insert i (net_stopped s) else net_stopped s),
      net_history = history (out_state out)\<rparr>"

text \<open>Two increments of the view counter fit: one for the timer or decision, one for the rules.\<close>

definition view_room :: "Replica \<Rightarrow> bool" where
  "view_room r \<longleftrightarrow> unat (rs_view r) + 2 < 2 ^ 64"

type_synonym admission = "Wiring \<Rightarrow> (u32, digest) hashmap \<Rightarrow> hevent list \<Rightarrow> Wire \<Rightarrow> bool"

fun deliverable :: "admission \<Rightarrow> Wiring \<Rightarrow> (u32, digest) hashmap \<Rightarrow> hevent list \<Rightarrow> event \<Rightarrow> bool" where
  "deliverable adm w keys H (Inbox msg) = adm w keys H msg"
| "deliverable adm w keys H _ = True"

inductive net_step ::
  "admission \<Rightarrow> u32 \<Rightarrow> u32 set \<Rightarrow> (u32 \<Rightarrow> Wiring) \<Rightarrow> (u32 \<Rightarrow> Validator) \<Rightarrow> Network \<Rightarrow> Network \<Rightarrow> bool"
  for adm n byz W val where
  start: "net_step adm n byz W val s (net_update s i (try_advance w (start_protocol w (local_state s i))))"
    if "i \<in> replica_ids n" and "i \<notin> byz" and "i \<notin> net_stopped s"
      and "w = reorder f g (W i)" and "iterates f" and "iterates g"
      and "rs_view (local_state s i) = 0"
| event: "net_step adm n byz W val s (net_update s i (node_event w (val i) keys ev (local_state s i)))"
    if "i \<in> replica_ids n" and "i \<notin> byz" and "i \<notin> net_stopped s"
      and "w = reorder f g (W i)" and "iterates f" and "iterates g"
      and "0 < rs_view (local_state s i)" and "view_room (local_state s i)"
      and "\<not> node_done w (local_state s i)"
      and "deliverable adm w keys (net_history s) ev"

definition net_reachable ::
  "admission \<Rightarrow> u32 \<Rightarrow> u32 set \<Rightarrow> (u32 \<Rightarrow> Wiring) \<Rightarrow> (u32 \<Rightarrow> Validator) \<Rightarrow> (u32 \<Rightarrow> State) \<Rightarrow> Network \<Rightarrow> bool" where
  "net_reachable adm n byz W val init s \<longleftrightarrow> (net_step adm n byz W val)\<^sup>*\<^sup>* (net_init n W init) s"

text \<open>The decisions of a replica in a network state.\<close>

definition decided :: "Network \<Rightarrow> u32 \<Rightarrow> digest set" where
  "decided s i = set (decided_nodes (net_replicas s i))"

definition net_inv :: "u32 \<Rightarrow> u32 set \<Rightarrow> (u32 \<Rightarrow> Wiring) \<Rightarrow> Network \<Rightarrow> bool" where
  "net_inv n byz W s \<longleftrightarrow>
     (\<forall>i. i \<in> replica_ids n \<longrightarrow> i \<notin> byz \<longrightarrow> safe_inv n byz (W i) (local_state s i))"

subsection \<open>One replica's step seen by the others\<close>

lemma own_ext_lock_of: "own_ext i H H' \<Longrightarrow> j \<noteq> i \<Longrightarrow> lock_of j H' = lock_of j H"
proof -
  have "list_all (own_event i) new \<Longrightarrow> j \<noteq> i \<Longrightarrow> lock_of j (new @ H) = lock_of j H" for new
  proof (induction new)
    case (Cons e new)
    then show ?case by (cases e) auto
  qed simp
  then show "own_ext i H H' \<Longrightarrow> j \<noteq> i \<Longrightarrow> lock_of j H' = lock_of j H"
    by (auto simp: own_ext_def)
qed

lemma own_ext_Signed_other: "own_ext i H H' \<Longrightarrow> j \<noteq> i \<Longrightarrow> Signed j mt v h \<in> set H' \<Longrightarrow> Signed j mt v h \<in> set H"
  by (fastforce simp: own_ext_def list_all_iff)

lemma safe_inv_other:
  assumes inv: "safe_inv n byz w (r\<lparr>history := H\<rparr>)" and ext: "own_ext i H H'" and "my_id w \<noteq> i"
    and leg: "legal (env w) n byz H'"
  shows "safe_inv n byz w (r\<lparr>history := H'\<rparr>)"
proof -
  have sub: "set H \<subseteq> set H'" using ext by (rule own_ext_subset)
  have lock: "lock_of (my_id w) H' = lock_of (my_id w) H" by (rule own_ext_lock_of [OF ext assms(3)])
  have sgn: "Signed (my_id w) mt v h \<in> set H' \<Longrightarrow> Signed (my_id w) mt v h \<in> set H" for mt v h
    by (rule own_ext_Signed_other [OF ext assms(3)])
  have "view_ok (env w) n byz (my_id w) H' v (vd_entry r v)" for v
    using view_ok_mono [OF _ sub] safe_inv_view [OF inv, of v] sgn by simp
  moreover have "\<forall>h\<in>set (decided_nodes r). \<exists>v. supported n byz H' Commit v h"
    using inv supported_mono [OF _ sub] unfolding safe_inv_def by simp metis
  moreover have "\<forall>mt v h. Signed (my_id w) mt v h \<in> set H' \<longrightarrow> v \<le> rs_view r"
    using inv sgn unfolding safe_inv_def by simp blast
  ultimately show ?thesis
    using inv lock sub leg unfolding safe_inv_def
    by (auto intro: staged_ok_mono qc_ok_mono)
qed

subsection \<open>Iteration orders\<close>

lemma parent_rel_reorder [simp]: "parent_rel (env (reorder f g w)) H = parent_rel (env w) H"
  by (simp add: parent_rel_def)

lemma may_prepare_reorder [simp]:
  "may_prepare (env (reorder f g w)) n byz H i v h = may_prepare (env w) n byz H i v h"
  by (simp add: may_prepare_def split: option.split)

lemma legal_reorder [simp]: "legal (env (reorder f g w)) n byz H = legal (env w) n byz H"
proof (induction H)
  case (Cons e H)
  then show ?case by (cases e) (simp_all add: vote_ok_def cong: MsgType.case_cong)
qed simp

lemma safe_inv_reorder [simp]: "safe_inv n byz (reorder f g w) r = safe_inv n byz w r"
  by (simp add: safe_inv_def view_ok_def)

subsection \<open>The invariant of the network\<close>

lemma history_local [simp]: "history (local_state s i) = net_history s"
  by (simp add: local_state_def)

lemma correct_reorder:
  assumes "faults_ok n byz" and "wired W E" and "i \<in> replica_ids n" and "i \<notin> byz" and "iterates f"
  shows "correct_replica n byz (reorder f g (W i))"
  using assms by (simp add: correct_replica_def wired_def)

lemma safe_start:
  assumes "rs_view r = 0" and "correct_replica n byz w" and "safe_inv n byz w r"
  shows "safe_inv n byz w (out_state (try_advance w (start_protocol w r))) \<and>
         own_ext (my_id w) (history r) (history (out_state (try_advance w (start_protocol w r))))"
proof -
  have "start_protocol w r = enter_new_view w (rs_view r + 1) r"
    using assms(1) by (simp add: start_protocol_def) (simp add: enter_new_view_def)
  then have "safe_step n byz w 1 r (start_protocol w r)"
    using safe_enter_new_view by metis
  from safe_step_trans [OF this advance.keeps_safe [OF assms(2)]] assms(1,3) show ?thesis
    by (simp add: safe_step_def)
qed

lemma safe_on_event:
  assumes "deliverable (admissible n byz) w keys (history r) ev" and "correct_replica n byz w"
  shows "safe_step n byz w 1 r (out_state (on_event w val keys ev r))"
proof (cases ev)
  case (Inbox msg)
  then show ?thesis
    using assms safe_handle_msg [of n byz w keys r msg] safe_step_weaken [of n byz w 0 r _ 1]
    by (simp add: correct_replica_def)
next
  case (Timer evt)
  then show ?thesis using timer.keeps_safe [OF assms(2)] by simp
next
  case (ValOut out)
  have "safe_step n byz w 0 r (ingest_validation out (log_event u e x r))" for u e x
    using ingest.core_same [of out "log_event u e x r"] by (intro safe_step_core) simp
  from safe_step_weaken [OF this, of 1] ValOut show ?thesis by simp
qed

lemma safe_node_event:
  assumes "deliverable (admissible n byz) w keys (history r) ev" and "correct_replica n byz w"
    and "view_room r" and "safe_inv n byz w r"
  shows "safe_inv n byz w (out_state (node_event w val keys ev r)) \<and>
         own_ext (my_id w) (history r) (history (out_state (node_event w val keys ev r)))"
  using safe_step_and_then [OF safe_on_event [OF assms(1,2), of val] advance.keeps_safe [OF assms(2)]] assms(3,4)
  by (simp add: safe_step_def node_event_def view_room_def)

lemma net_inv_update:
  assumes "net_inv n byz W s" and "wired W E" and "i \<in> replica_ids n" and "i \<notin> byz"
    and "safe_inv n byz (W i) (out_state out)" and "own_ext i (net_history s) (history (out_state out))"
  shows "net_inv n byz W (net_update s i out)"
  unfolding net_inv_def
proof (intro allI impI)
  fix j assume j: "j \<in> replica_ids n" "j \<notin> byz"
  have leg: "legal (env (W j)) n byz (history (out_state out))"
    using assms(2,5) by (simp add: safe_inv_def wired_def)
  show "safe_inv n byz (W j) (local_state (net_update s i out) j)"
  proof (cases "j = i")
    case True
    then show ?thesis using assms(5) by (simp add: local_state_def net_update_def)
  next
    case False
    then show ?thesis
      using safe_inv_other [OF _ assms(6) _ leg, of "net_replicas s j"] assms(1,2) j
      by (simp add: net_inv_def local_state_def net_update_def wired_def)
  qed
qed

lemma net_step_inv:
  assumes "net_step (admissible n byz) n byz W val s s'" and "net_inv n byz W s" and "faults_ok n byz" and "wired W E"
  shows "net_inv n byz W s'"
  using assms(1)
proof cases
  case (start i w f g)
  have w: "correct_replica n byz w" "my_id w = i"
    using correct_reorder [OF assms(3,4)] start assms(4) by (simp_all add: wired_def)
  have "safe_inv n byz w (local_state s i)" using assms(2) start by (simp add: net_inv_def)
  from safe_start [OF _ w(1) this] w(2) start net_inv_update [OF assms(2,4), of i] show ?thesis by simp
next
  case (event i w f g keys ev)
  have w: "correct_replica n byz w" "my_id w = i"
    using correct_reorder [OF assms(3,4)] event assms(4) by (simp_all add: wired_def)
  have "safe_inv n byz w (local_state s i)" using assms(2) event by (simp add: net_inv_def)
  from safe_node_event [OF _ w(1) _ this, of keys ev "val i"] w(2) event net_inv_update [OF assms(2,4), of i]
  show ?thesis by simp
qed

lemma net_init_inv: "wired W E \<Longrightarrow> net_inv n byz W (net_init n W init)"
  by (simp add: net_inv_def safe_inv_def local_state_def net_init_def Replica_new_def
      ReplicaState_new_def ReplicaState.defs Replica.defs staged_ok_def view_ok_def vd_entry_def vd_def
      ViewData_default_def votes_ok_def)

lemma net_reachable_inv:
  assumes "net_reachable (admissible n byz) n byz W val init s" and "faults_ok n byz" and "wired W E"
  shows "net_inv n byz W s"
  using assms(1) unfolding net_reachable_def
  by (induction rule: rtranclp_induct) (auto intro: net_init_inv net_step_inv assms(2,3))

lemma net_inv_decided:
  assumes "net_inv n byz W s" and "wired W E" and "i \<in> replica_ids n" and "i \<notin> byz" and "h \<in> decided s i"
  shows "legal E n byz (net_history s)" and "\<exists>v. supported n byz (net_history s) Commit v h"
  using assms by (simp_all add: net_inv_def safe_inv_def wired_def decided_def local_state_def)

lemma decided_comparable:
  assumes "net_reachable (admissible n byz) n byz W val init s" and "faults_ok n byz" and "wired W E"
    and "i \<in> replica_ids n" and "i \<notin> byz" and "j \<in> replica_ids n" and "j \<notin> byz"
    and "h \<in> decided s i" and "h' \<in> decided s j"
  shows "(h, h') \<in> (parent_rel E (net_history s))\<^sup>* \<or> (h', h) \<in> (parent_rel E (net_history s))\<^sup>*"
proof -
  note inv = net_reachable_inv [OF assms(1-3)]
  show ?thesis
    using legal_agreement [OF assms(2)] net_inv_decided [OF inv assms(3-5,8)]
      net_inv_decided [OF inv assms(3,6,7,9)] by metis
qed

text \<open>
  \<^bold>\<open>C1\<close>. Agreement. In every state the network reaches, with at most \<^verbatim>\<open>(n - 1) / 3\<close>
  faulty replicas, any two nodes decided by correct replicas are on one branch: one is reached from
  the other along the parent links of nodes that correct replicas have stored. The adversary may
  send anything except a forged signature of a correct replica and a vote in the receiver's own
  name that the receiver did not cast.
\<close>

theorem agreement:
  assumes "net_reachable (admissible n byz) n byz W val init s" and "faults_ok n byz" and "wired W E"
    and "i \<in> replica_ids n" and "i \<notin> byz" and "j \<in> replica_ids n" and "j \<notin> byz"
    and "h \<in> decided s i" and "h' \<in> decided s j"
  shows "(h, h') \<in> (parent_rel E (net_history s))\<^sup>* \<or> (h', h) \<in> (parent_rel E (net_history s))\<^sup>*"
  using decided_comparable [OF assms] .


end
