(* ===== verification/Execution.thy ===== *)
theory Execution
  imports Node_Main
begin

text \<open>
  What execution keeps true in both validation modes. An execution mode is an invariant of one
  node's execution state together with what its validator worker answers; the locales
  \<open>exec_rules\<close> and \<open>exec_mode\<close> state what a mode must show for the few places that touch
  this state (storing a node, submitting a request, executing a node, ingesting an outcome), and
  derive that the invariant holds in every run of a node, under any messages and timers. The hypothesis of all
  of it is on the nodes stored in the tree: no two have one hash, a child of genesis has height 0,
  and a child is one higher than its parent. The handlers do not check the heights; the leader rule
  makes such nodes.
\<close>

subsection \<open>Definitions\<close>

definition nodes_ok :: "Externals \<Rightarrow> hevent list \<Rightarrow> bool" where
  "nodes_ok E H \<longleftrightarrow>
     (\<forall>a b. Known a \<in> set H \<longrightarrow> Known b \<in> set H \<longrightarrow>
        (node_hash E a = node_hash E b \<longrightarrow> a = b) \<and>
        (n_parent a = GENESIS_HASH \<longrightarrow> n_height a = 0) \<and>
        (n_parent a \<noteq> GENESIS_HASH \<longrightarrow> node_hash E b = n_parent a \<longrightarrow>
           unat (n_height a) = unat (n_height b) + 1))"

text \<open>The heights and nodes a node reports as executed, read off its log lines.\<close>

fun exec_log :: "effect \<Rightarrow> (int \<times> digest) list" where
  "exec_log (LogEvent v ev extras) =
     (if ev = ''execute'' then (case extras of [(k, JNum h), (k', JHex d)] \<Rightarrow> [(h, d)] | _ \<Rightarrow> []) else [])"
| "exec_log _ = []"

definition executed_nodes :: "effect list \<Rightarrow> (int \<times> digest) list" where
  "executed_nodes es = concat (map exec_log es)"

definition executed :: "effect list \<Rightarrow> int list" where
  "executed es = map fst (executed_nodes es)"

text \<open>The part of the state that execution is about.\<close>

definition ecore where
  "ecore r = (last_executed_height r, live_state r, chained_root r, executed_nodes (outbox r), executed (outbox r), tree r,
     pre_root_by_node r, post_root_by_node r, post_state_by_node r, validation_result r, val_queue r)"

text \<open>A step that keeps the invariant \<open>I\<close>, forgets no node and executes only forwards.\<close>

definition exec_step :: "(Wiring \<Rightarrow> Replica \<Rightarrow> bool) \<Rightarrow> Wiring \<Rightarrow> Replica \<Rightarrow> Replica \<Rightarrow> bool" where
  "exec_step I w r r' \<longleftrightarrow>
     set (history r) \<subseteq> set (history r') \<and>
     last_executed_height r \<le> last_executed_height r' \<and>
     (I w r \<and> nodes_ok (env w) (history r') \<longrightarrow> I w r' \<and> hm_get (tree r) \<subseteq>\<^sub>m hm_get (tree r'))"

text \<open>The nodes of the tree are stored under their hashes and recorded in the history.\<close>

definition stored :: "Wiring \<Rightarrow> Replica \<Rightarrow> bool" where
  "stored w r \<longleftrightarrow>
     (\<forall>h nd. hm_get (tree r) h = Some nd \<longrightarrow> node_hash (env w) nd = h \<and> Known nd \<in> set (history r))"

text \<open>The parent links of a tree.\<close>

definition tree_rel :: "(digest, Node) hashmap \<Rightarrow> digest rel" where
  "tree_rel tr = {(h, n_parent nd) | h nd. hm_get tr h = Some nd}"

text \<open>
  A node from its start: any message and timer, the worker taking requests off its own queue, and
  the worker's outcomes in order (\<open>os\<close> are those not yet received).
\<close>

inductive node_run ::
  "Wiring \<Rightarrow> u32 \<Rightarrow> State \<Rightarrow> Validator \<Rightarrow> Replica \<Rightarrow> ValidateOutcome list \<Rightarrow> bool"
  for w n s0 val where
  boot: "node_run w n s0 val r []"
    if "boot (reorder f g w) n s0 = Ok r" and "iterates f" and "iterates g"
| input: "node_run w n s0 val r' os"
    if "node_run w n s0 val r os" and "iterates f" and "iterates g" and "\<not> node_done w r"
      and "ev = Inbox msg \<or> ev = Timer evt"
      and "node_event (reorder f g w) val keys ev r = Ok r'"
| work: "node_run w n s0 val r' (os @ [out])"
    if "node_run w n s0 val r os" and "worker_step w val r = Some (r', Inr out)"
| outcome: "node_run w n s0 val r' os"
    if "node_run w n s0 val r (out # os)" and "iterates f" and "iterates g" and "\<not> node_done w r"
      and "node_event (reorder f g w) val keys (ValOut out) r = Ok r'"

subsection \<open>Facts shared by the modes\<close>

lemma nodes_ok_antimono: "nodes_ok E H' \<Longrightarrow> set H \<subseteq> set H' \<Longrightarrow> nodes_ok E H"
  unfolding nodes_ok_def by blast

lemma nodes_okD:
  assumes "nodes_ok E H" and "Known a \<in> set H"
  shows "Known b \<in> set H \<Longrightarrow> node_hash E a = node_hash E b \<Longrightarrow> a = b"
    and "n_parent a = GENESIS_HASH \<Longrightarrow> n_height a = 0"
    and "Known b \<in> set H \<Longrightarrow> n_parent a \<noteq> GENESIS_HASH \<Longrightarrow> node_hash E b = n_parent a \<Longrightarrow>
           unat (n_height a) = unat (n_height b) + 1"
  using assms unfolding nodes_ok_def by metis+

lemma executed_snoc [simp]:
  "executed_nodes (es @ [e]) = executed_nodes es @ exec_log e" "executed (es @ [e]) = executed es @ map fst (exec_log e)"
  by (simp_all add: executed_nodes_def executed_def)

lemma executed_Nil [simp]: "executed_nodes [] = []" "executed [] = []"
  by (simp_all add: executed_nodes_def executed_def)

lemma block_small: "block P wl h = Inr b \<Longrightarrow> unat h < 2 ^ 32"
proof -
  assume "block P wl h = Inr b"
  then obtain k :: u32 where "ucast k = h"
    by (auto simp: block_def block_at_def split: option.splits if_splits)
  moreover have kb: "unat k < 2 ^ 32" using unsigned_less [of k] by simp
  moreover from kb have "unat (ucast k :: u64) = unat k"
    by (simp add: unsigned_ucast_eq take_bit_nat_eq_self)
  ultimately show "unat h < 2 ^ 32" by auto
qed

lemma sint_small:
  assumes "unat (h :: u64) < 2 ^ 32"
  shows "sint h = uint h" and "uint h = int (unat h)"
proof -
  have "uint h < 2 ^ 32" using assms by (metis of_nat_less_iff of_nat_numeral of_nat_power uint_nat)
  moreover have "0 \<le> uint h" by simp
  moreover have "(2 :: int) ^ 32 < 2 ^ 63" and "- (2 ^ 63) \<le> (0 :: int)" by simp_all
  ultimately have "- (2 ^ 63) \<le> uint h" and "uint h < 2 ^ 63" by linarith+
  then have "signed_take_bit 63 (uint h) = uint h"
    by (rule signed_take_bit_int_eq_self)
  then show "sint h = uint h" by (simp add: sint_uint)
  show "uint h = int (unat h)" by simp
qed

lemma storedD:
  assumes "stored w r" and "hm_get (tree r) h = Some nd"
  shows "node_hash (env w) nd = h" and "Known nd \<in> set (history r)"
  using assms by (auto simp: stored_def)

lemma tree_insert_keeps:
  assumes "stored w r" and "nodes_ok (env w) (history (tree_insert (node_hash (env w) nd) nd r))"
  shows "hm_get (tree r) \<subseteq>\<^sub>m hm_get (tree (tree_insert (node_hash (env w) nd) nd r))"
    and "stored w (tree_insert (node_hash (env w) nd) nd r)"
proof -
  have "nodes_ok (env w) (Known nd # history r)" using assms(2) by (simp add: tree_insert_def)
  then have inj: "node_hash (env w) nd' = node_hash (env w) nd \<Longrightarrow> Known nd' \<in> set (history r) \<Longrightarrow> nd' = nd" for nd'
    unfolding nodes_ok_def by (metis list.set_intros(1,2))
  have "hm_get (tree (tree_insert (node_hash (env w) nd) nd r)) h = Some nd'" if "hm_get (tree r) h = Some nd'" for h nd'
    using storedD [OF assms(1) that] inj [of nd'] that by (auto simp: tree_insert_def)
  then show "hm_get (tree r) \<subseteq>\<^sub>m hm_get (tree (tree_insert (node_hash (env w) nd) nd r))"
    by (auto simp: map_le_def)
  show "stored w (tree_insert (node_hash (env w) nd) nd r)"
    using assms(1) by (auto simp: stored_def tree_insert_def)
qed

text \<open>Submitting a request changes the queue only, by a request for a stored node whose block loads.\<close>

lemma kick_cases:
  obtains (idle) "out_state (maybe_kick_validation w h r) = r"
  | (sent) nd b s where "hm_get (tree r) h = Some nd" and "block (plat w) (workload w) (n_height nd) = Inr b"
      and "kick_input r nd = Some s"
      and "ecore (out_state (maybe_kick_validation w h r)) =
        ecore (r\<lparr>val_queue := val_queue r @ [(\<lparr>req_node_hash = h, req_height = n_height nd, req_txs_path = b_txs_path b,
          req_proof_path = b_proof_path b, req_txs_total = txs_total (b_meta b)\<rparr>, s)]\<rparr>)"
proof (cases "out_state (maybe_kick_validation w h r) = r")
  case False
  then obtain nd b s where *: "hm_get (tree r) h = Some nd" "block (plat w) (workload w) (n_height nd) = Inr b"
      "kick_input r nd = Some s"
    and eq: "maybe_kick_validation w h r = Ok (log_event (rs_view r) ''validate_start'' [(''height'', JNum (uint (n_height nd)))]
      (r\<lparr>pending_validation := Some h, val_queue := val_queue r @ [(\<lparr>req_node_hash = h, req_height = n_height nd,
        req_txs_path = b_txs_path b, req_proof_path = b_proof_path b, req_txs_total = txs_total (b_meta b)\<rparr>, s)]\<rparr>))"
    unfolding maybe_kick_validation_def by (auto simp: Let_def split: option.splits sum.splits if_splits)
  show ?thesis by (rule sent [OF *]) (simp add: eq ecore_def)
qed

lemma kick_frame [simp]:
  "history (out_state (maybe_kick_validation w h r)) = history r"
  "tree (out_state (maybe_kick_validation w h r)) = tree r"
  "last_executed_height (out_state (maybe_kick_validation w h r)) = last_executed_height r"
  by (simp_all add: maybe_kick_validation_def Let_def split: option.splits sum.splits)

lemma execute_node_frame [simp]:
  "history (out_state (execute_node w nh nd r)) = history r" "tree (out_state (execute_node w nh nd r)) = tree r"
  by (simp_all add: execute_node_def take_post_state_def take_post_root_def Let_def split: option.splits)

lemma execute_node_decided [simp]: "decided_nodes (out_state (execute_node w nh nd r)) = decided_nodes r"
  by (simp add: execute_node_def take_post_state_def take_post_root_def Let_def split: option.splits)

lemma kick_decided [simp]: "decided_nodes (out_state (maybe_kick_validation w h r)) = decided_nodes r"
  by (simp add: maybe_kick_validation_def Let_def split: option.splits sum.splits)

lemma execute_loop_decided [simp]: "decided_nodes (out_state (execute_loop w hs r)) = decided_nodes r"
proof (induction hs arbitrary: r)
  case (Cons nh hs)
  have "decided_nodes (out_state (and_then (execute_node w nh nd r) (execute_loop w hs))) = decided_nodes r" for nd
    using Cons execute_node_decided [of w nh nd r] by (cases "execute_node w nh nd r") (simp_all del: execute_node_decided)
  then show ?case by (simp split: option.splits bool.splits)
qed simp

lemma try_execute_decided [simp]: "decided_nodes (out_state (try_execute_chain w h r)) = decided_nodes r"
  by (simp add: try_execute_chain_def split: option.splits)

lemma build_chain_path:
  assumes "build_chain fuel tr lh cur chain = Some c"
  shows "set c \<subseteq> set chain \<union> {h. (cur, h) \<in> (tree_rel tr)\<^sup>*}"
  using assms
proof (induction fuel arbitrary: cur chain)
  case (Suc fuel)
  have "set c \<subseteq> set chain \<union> {h. (cur, h) \<in> (tree_rel tr)\<^sup>*}"
    if nd: "hm_get tr cur = Some nd" and c: "build_chain fuel tr lh (n_parent nd) (chain @ [cur]) = Some c" for nd
  proof -
    have "(cur, n_parent nd) \<in> tree_rel tr" using nd by (auto simp: tree_rel_def)
    then show ?thesis using Suc.IH [OF c] by (auto intro: converse_rtrancl_into_rtrancl)
  qed
  then show ?case using Suc.prems by (auto split: option.splits if_splits)
qed simp

lemma execute_node_height:
  "sint (n_height nd) = last_executed_height r + 1 \<Longrightarrow>
     last_executed_height r \<le> last_executed_height (out_state (execute_node w nh nd r))"
  by (simp add: execute_node_def take_post_state_def take_post_root_def Let_def split: option.splits)

lemma ecore_frame [simp]:
  "ecore (vd_mut v f r) = ecore r" "ecore (r\<lparr>rs_view := a\<rparr>) = ecore r"
  "ecore (r\<lparr>locked_qc := b\<rparr>) = ecore r" "ecore (r\<lparr>prepare_qc := b\<rparr>) = ecore r"
  "ecore (r\<lparr>decided_nodes := d\<rparr>) = ecore r" "ecore (r\<lparr>staged_pre_commit_qc := s\<rparr>) = ecore r"
  "ecore (r\<lparr>staged_commit_qc := s\<rparr>) = ecore r" "ecore (r\<lparr>staged_decide_qc := s\<rparr>) = ecore r"
  "ecore (r\<lparr>timeout_interval_ms := t\<rparr>) = ecore r" "ecore (r\<lparr>history := H\<rparr>) = ecore r"
  "exec_log e = [] \<Longrightarrow> ecore (emit e r) = ecore r"
  "ev \<noteq> ''execute'' \<Longrightarrow> ecore (log_event u ev x r) = ecore r"
  by (simp_all add: ecore_def vd_mut_def)

text \<open>Most rules and handlers only vote and count: they leave execution alone.\<close>

locale voting_step =
  fixes g :: "Wiring \<Rightarrow> Replica \<Rightarrow> Replica"
  assumes quiet: "ecore (g w r) = ecore r"
    and history_grows: "set (history r) \<subseteq> set (history (g w r))"
    and decided_grows: "set (decided_nodes r) \<subseteq> set (decided_nodes (g w r))"

lemma ecore_cast_vote [simp]: "ecore (cast_vote w mt v h r) = ecore r"
  by (simp add: cast_vote_def Let_def)

lemma history_cast_vote [simp]:
  "history (cast_vote w mt v h r) = Signed (my_id w) mt v h # history r"
  "decided_nodes (cast_vote w mt v h r) = decided_nodes r"
  by (simp_all add: cast_vote_def Let_def)

interpretation v2: voting_step replica_prepare
  by unfold_locales (auto simp: replica_prepare_def Let_def split: option.splits)

interpretation v3: voting_step leader_pre_commit
  by unfold_locales (simp_all add: leader_pre_commit_def Let_def split: option.splits)

interpretation v4: voting_step replica_pre_commit
  by unfold_locales (auto simp: replica_pre_commit_def Let_def split: option.splits)

interpretation v5: voting_step leader_commit
  by unfold_locales (simp_all add: leader_commit_def Let_def split: option.splits)

interpretation v6: voting_step replica_commit
  by unfold_locales (auto simp: replica_commit_def Let_def split: option.splits)

interpretation v7: voting_step leader_decide
  by unfold_locales (simp_all add: leader_decide_def Let_def split: option.splits)

interpretation next_view: voting_step "\<lambda>w. enter_new_view w v" for v
  by unfold_locales (simp_all add: enter_new_view_def Let_def)

interpretation on_timer: voting_step "\<lambda>w. handle_timer w evt" for evt
  by unfold_locales
    (simp_all add: handle_timer_def Let_def next_view.quiet order_trans [OF _ next_view.history_grows]
      order_trans [OF _ next_view.decided_grows])

interpretation phase: voting_step "\<lambda>w. handle_phase_qc w keys mt v q sender" for keys mt v q sender
  by unfold_locales
    (simp_all add: handle_phase_qc_def stage_qc_def subset_insertI split: option.splits MsgType.splits)

interpretation vote: voting_step "\<lambda>w. handle_vote w keys mt v nh voter sig" for keys mt v nh voter sig
  by unfold_locales (simp_all add: handle_vote_def Let_def split: option.splits)

interpretation new_view: voting_step "\<lambda>w. handle_new_view w keys v justify sender" for keys v justify sender
  by unfold_locales (simp_all add: handle_new_view_def Let_def)

interpretation start: voting_step start_protocol
  by unfold_locales
    (simp_all add: start_protocol_def next_view.quiet order_trans [OF _ next_view.history_grows]
      order_trans [OF _ next_view.decided_grows])

lemma ingest_frame [simp]:
  "last_executed_height (ingest_validation out r) = last_executed_height r"
  "tree (ingest_validation out r) = tree r" "history (ingest_validation out r) = history r"
  "decided_nodes (ingest_validation out r) = decided_nodes r" "outbox (ingest_validation out r) = outbox r"
  by (simp_all add: ingest_validation_def Let_def split: option.splits)

subsection \<open>Execution modes\<close>

text \<open>What the consensus code asks of an invariant of the execution state, and what it keeps of it.\<close>

locale exec_rules =
  fixes I :: "Wiring \<Rightarrow> Replica \<Rightarrow> bool"
  assumes I_reorder: "I (reorder f g w) r = I w r"
    and I_stored: "I w r \<Longrightarrow> stored w r"
    and I_ecore: "ecore r' = ecore r \<Longrightarrow> set (history r) \<subseteq> set (history r') \<Longrightarrow>
      set (decided_nodes r) \<subseteq> set (decided_nodes r') \<Longrightarrow> I w r \<Longrightarrow> I w r'"
    and I_insert: "I w r \<Longrightarrow> nodes_ok (env w) (history (tree_insert (node_hash (env w) nd) nd r)) \<Longrightarrow>
      I w (tree_insert (node_hash (env w) nd) nd r)"
    and I_kick: "I w r \<Longrightarrow> nodes_ok (env w) (history r) \<Longrightarrow> I w (out_state (maybe_kick_validation w h r))"
    and I_execute: "I w r \<Longrightarrow> d \<in> set (decided_nodes r) \<Longrightarrow> (d, nh) \<in> (tree_rel (tree r))\<^sup>* \<Longrightarrow>
      hm_get (tree r) nh = Some nd \<Longrightarrow> sint (n_height nd) = last_executed_height r + 1 \<Longrightarrow>
      hm_get (validation_result r) nh = Some True \<Longrightarrow> I w (out_state (execute_node w nh nd r))"
begin

lemma step_trans:
  assumes "exec_step I w r r1" and "exec_step I w r1 r2"
  shows "exec_step I w r r2"
proof -
  have sub: "set (history r) \<subseteq> set (history r1)" "set (history r1) \<subseteq> set (history r2)"
    and le: "last_executed_height r \<le> last_executed_height r1" "last_executed_height r1 \<le> last_executed_height r2"
    using assms by (auto simp: exec_step_def)
  have "I w r2 \<and> hm_get (tree r) \<subseteq>\<^sub>m hm_get (tree r2)" if "I w r" and ok: "nodes_ok (env w) (history r2)"
  proof -
    have "nodes_ok (env w) (history r1)" by (rule nodes_ok_antimono [OF ok sub(2)])
    then have "I w r1" "hm_get (tree r) \<subseteq>\<^sub>m hm_get (tree r1)"
      using assms(1) that(1) by (auto simp: exec_step_def)
    moreover from this(1) have "I w r2" "hm_get (tree r1) \<subseteq>\<^sub>m hm_get (tree r2)"
      using assms(2) ok by (auto simp: exec_step_def)
    ultimately show ?thesis by (meson map_le_trans)
  qed
  then show ?thesis using sub le by (auto simp: exec_step_def)
qed

lemma step_and_then:
  assumes "exec_step I w r (out_state x)" and "\<And>r1. exec_step I w r1 (out_state (f r1))"
  shows "exec_step I w r (out_state (and_then x f))"
  using assms by (cases x) (auto intro: step_trans)

lemma step_ecore:
  assumes "ecore r' = ecore r" and "set (history r) \<subseteq> set (history r')" and "set (decided_nodes r) \<subseteq> set (decided_nodes r')"
  shows "exec_step I w r r'"
  using assms I_ecore [OF assms, of w] by (simp add: exec_step_def ecore_def)

lemma step_refl [simp]: "exec_step I w r r"
  by (rule step_ecore) simp_all

lemma step_quiet:
  assumes "exec_step I w r r1" and "ecore r' = ecore r1" and "set (decided_nodes r1) \<subseteq> set (decided_nodes r')"
    and "history r' = history r1"
  shows "exec_step I w r r'"
  using step_trans [OF assms(1) step_ecore [OF assms(2)]] assms(3,4) by simp

lemma step_insert: "exec_step I w r (tree_insert (node_hash (env w) nd) nd r)"
  using I_insert [of w r nd] tree_insert_keeps(1) [OF I_stored, of w r nd]
  by (auto simp: exec_step_def tree_insert_def)

lemma step_kick: "exec_step I w r (out_state (maybe_kick_validation w h r))"
  using I_kick [of w r h] by (simp add: exec_step_def)

lemma step_then_kick: "exec_step I w r r1 \<Longrightarrow> exec_step I w r (out_state (maybe_kick_validation w h r1))"
  using step_trans step_kick by blast

lemma step_execute_loop:
  assumes "d \<in> set (decided_nodes r)" and "set hs \<subseteq> {h. (d, h) \<in> (tree_rel (tree r))\<^sup>*}"
  shows "exec_step I w r (out_state (execute_loop w hs r))"
  using assms
proof (induction hs arbitrary: r)
  case (Cons nh hs)
  have "exec_step I w r (out_state (and_then (execute_node w nh nd r) (execute_loop w hs)))"
    if nd: "hm_get (tree r) nh = Some nd" "sint (n_height nd) = last_executed_height r + 1"
      "hm_get (validation_result r) nh = Some True" for nd
  proof -
    have step: "exec_step I w r (out_state (execute_node w nh nd r))"
      using I_execute [OF _ Cons.prems(1) _ nd] Cons.prems(2) execute_node_height [OF nd(2), of w nh] by (simp add: exec_step_def)
    show ?thesis
    proof (cases "execute_node w nh nd r")
      case (Ok r1)
      then have "exec_step I w r1 (out_state (execute_loop w hs r1))"
        using Cons execute_node_frame(2) [of w nh nd r] execute_node_decided [of w nh nd r] by simp
      then show ?thesis using step_trans [OF step] Ok by simp
    qed (use step in simp)
  qed
  then show ?case using step_kick [of w r nh] by (simp split: option.splits bool.splits)
qed simp

lemma step_try_execute:
  assumes "h \<in> set (decided_nodes r)"
  shows "exec_step I w r (out_state (try_execute_chain w h r))"
proof (cases "build_chain (hm_len (tree r) + 1) (tree r) (last_executed_height r) h []")
  case (Some chain)
  then show ?thesis
    using step_execute_loop [OF assms, of "rev chain" w] build_chain_path [OF Some] by (simp add: try_execute_chain_def)
qed (simp add: try_execute_chain_def)

lemma step_retry_loop: "set hs \<subseteq> set (decided_nodes r) \<Longrightarrow> exec_step I w r (out_state (retry_loop w hs r))"
proof (induction hs arbitrary: r)
  case (Cons h hs)
  have step: "exec_step I w r (out_state (try_execute_chain w h r))" using Cons.prems by (intro step_try_execute) simp
  show ?case
  proof (cases "try_execute_chain w h r")
    case (Ok r1)
    then have "exec_step I w r1 (out_state (retry_loop w hs r1))"
      using Cons try_execute_decided [of w h r] by simp
    then show ?thesis using step_trans [OF step] Ok by simp
  qed (use step in simp)
qed simp

lemma step_kick_loop: "exec_step I w r (out_state (kick_loop w hs r))"
  by (induction hs arbitrary: r) (auto intro: step_and_then step_kick)

lemma step_leader_prepare: "exec_step I w r (out_state (leader_prepare w r))"
proof -
  let ?r = "vd_mut (rs_view r) (\<lambda>d. d) r"
  have r: "exec_step I w r ?r" by (rule step_ecore) simp_all
  have "exec_step I w r (out_state (propose w v hq nh b ?r))" for v hq nh b
    unfolding propose_def Let_def
    by (rule step_then_kick, rule step_quiet [OF step_trans [OF r step_insert]]) simp_all
  with r show ?thesis
    by (simp add: leader_prepare_def Let_def split: option.splits sum.splits)
qed

lemma step_replica_decide: "exec_step I w r (out_state (replica_decide w r))"
proof -
  let ?r = "vd_mut (rs_view r) (\<lambda>d. d) r"
  have r: "exec_step I w r ?r" by (rule step_ecore) simp_all
  have "exec_step I w r (out_state (and_then (try_execute_chain w h (?r\<lparr>decided_nodes := hs_insert h (decided_nodes r)\<rparr>))
      (\<lambda>r1. Ok (enter_new_view w v ((log_event u ''view_decide'' x r1)\<lparr>timeout_interval_ms := t\<rparr>)))))" for h v u x t
  proof (rule step_and_then)
    show "exec_step I w r (out_state (try_execute_chain w h (?r\<lparr>decided_nodes := hs_insert h (decided_nodes r)\<rparr>)))"
      by (rule step_trans [OF step_quiet [OF r] step_try_execute]) (simp_all add: subset_insertI)
    show "exec_step I w r1 (out_state (Ok (enter_new_view w v ((log_event u ''view_decide'' x r1)\<lparr>timeout_interval_ms := t\<rparr>))))" for r1
      using next_view.history_grows [of "(log_event u ''view_decide'' x r1)\<lparr>timeout_interval_ms := t\<rparr>" w v]
        next_view.decided_grows [of "(log_event u ''view_decide'' x r1)\<lparr>timeout_interval_ms := t\<rparr>" w v]
      by (intro step_ecore) (simp_all add: next_view.quiet)
  qed
  with r show ?thesis by (simp add: replica_decide_def Let_def split: option.splits)
qed

lemmas step_voting =
  step_ecore [OF v2.quiet v2.history_grows v2.decided_grows] step_ecore [OF v3.quiet v3.history_grows v3.decided_grows]
  step_ecore [OF v4.quiet v4.history_grows v4.decided_grows] step_ecore [OF v5.quiet v5.history_grows v5.decided_grows]
  step_ecore [OF v6.quiet v6.history_grows v6.decided_grows] step_ecore [OF v7.quiet v7.history_grows v7.decided_grows]
  step_ecore [OF phase.quiet phase.history_grows phase.decided_grows] step_ecore [OF vote.quiet vote.history_grows vote.decided_grows]
  step_ecore [OF new_view.quiet new_view.history_grows new_view.decided_grows] step_ecore [OF on_timer.quiet on_timer.history_grows on_timer.decided_grows]
  step_ecore [OF start.quiet start.history_grows start.decided_grows]

lemma step_retry: "iterates (iter_digest (env w)) \<Longrightarrow> exec_step I w r (out_state (retry_pending_execute w r))"
  by (simp add: retry_pending_execute_def step_retry_loop iterates_set)

lemma step_try_advance: "iterates (iter_digest (env w)) \<Longrightarrow> exec_step I w r (out_state (try_advance w r))"
  unfolding try_advance_def try_kick_pending_validations_def
  by (intro step_and_then step_leader_prepare step_replica_decide step_retry step_kick_loop)
    (simp_all add: step_voting)

lemma step_handle_proposal: "exec_step I w r (out_state (handle_proposal w keys v nd justify sender r))"
proof -
  have r: "exec_step I w r (vd_mut v (\<lambda>d. d) (tree_insert (node_hash (env w) nd) nd r))"
    by (rule step_quiet [OF step_insert]) simp_all
  have "exec_step I w r (log_event v ''propose_recv'' x (vd_mut v f (vd_mut v (\<lambda>d. d) (tree_insert (node_hash (env w) nd) nd r))))" for x f
    by (rule step_quiet [OF r]) simp_all
  with r show ?thesis by (simp add: handle_proposal_def Let_def step_then_kick)
qed

lemma step_input:
  assumes "ev = Inbox msg \<or> ev = Timer evt" and "iterates (iter_digest (env w))"
  shows "exec_step I w r (out_state (node_event w v keys ev r))"
proof -
  have "exec_step I w r (out_state (handle_msg w keys msg r))"
    using step_handle_proposal by (cases msg) (simp_all add: step_voting)
  then show ?thesis
    using assms(1) step_and_then [OF _ step_try_advance [OF assms(2)]] step_trans [OF step_voting(10) step_try_advance [OF assms(2)]]
    unfolding node_event_def by auto
qed

lemma step_reorder: "exec_step I (reorder f g w) r r' = exec_step I w r r'"
  by (simp add: exec_step_def I_reorder nodes_ok_def)

lemma step_boot:
  assumes "boot (reorder f g w) n s = Ok r" and "iterates g"
  shows "exec_step I w (Replica_new n (timeout_base_ms w) s) r"
proof -
  let ?r0 = "Replica_new n (timeout_base_ms w) s"
  have "exec_step I (reorder f g w) ?r0 (out_state (try_advance (reorder f g w) (start_protocol (reorder f g w) ?r0)))"
    by (rule step_trans [OF step_voting(11) step_try_advance]) (simp add: assms(2))
  then show ?thesis using assms(1) by (simp add: boot_def step_reorder)
qed

end

text \<open>A validation mode: an invariant, with what the worker of the mode answers to the requests.\<close>

locale exec_mode = exec_rules I for I +
  fixes answers :: "Wiring \<Rightarrow> Replica \<Rightarrow> ValidateOutcome \<Rightarrow> bool" and val :: Validator and s0 :: State
  assumes I_init: "I w (Replica_new n t s0)"
    and I_work: "I w r \<Longrightarrow> worker_step w val r = Some (r', Inr out) \<Longrightarrow> I w r' \<and> answers w r out"
    and I_ingest: "I w r \<Longrightarrow> answers w r out \<Longrightarrow> I w (ingest_validation out r)"
    and answers_step: "answers w r out \<Longrightarrow> hm_get (tree r) \<subseteq>\<^sub>m hm_get (tree r') \<Longrightarrow>
      last_executed_height r \<le> last_executed_height r' \<Longrightarrow> answers w r' out"
begin

lemma step_keeps:
  assumes "exec_step I w r r'" and "nodes_ok (env w) (history r')"
    and "nodes_ok (env w) (history r) \<Longrightarrow> I w r \<and> (\<forall>out \<in> set os. answers w r out)"
  shows "I w r' \<and> (\<forall>out \<in> set os. answers w r' out)"
proof -
  have "nodes_ok (env w) (history r)"
    using assms(1,2) by (auto simp: exec_step_def intro: nodes_ok_antimono)
  with assms show ?thesis by (auto simp: exec_step_def intro: answers_step)
qed

theorem run_keeps:
  "node_run w n s0 val r os \<Longrightarrow> nodes_ok (env w) (history r) \<Longrightarrow> I w r \<and> (\<forall>out \<in> set os. answers w r out)"
proof (induction rule: node_run.induct)
  case (boot f g r)
  then show ?case using step_keeps [OF step_boot [OF boot(1,3)], of "[]"] I_init by auto
next
  case (input r os f g ev msg evt keys r')
  have "exec_step I w r r'"
    using step_input [OF input.hyps(5), of "reorder f g w" r val keys] input.hyps(3,6) by (simp add: step_reorder)
  then show ?case by (rule step_keeps [OF _ input.prems input.IH])
next
  case (work r os r' out)
  then have r': "I w r" "\<forall>o' \<in> set os. answers w r o'" "history r' = history r" "tree r' = tree r"
    "last_executed_height r' = last_executed_height r"
    by (auto simp: worker_step_def split: list.splits)
  then show ?case using I_work [OF r'(1) work.hyps(2)] answers_step [of w r _ r'] by auto
next
  case (outcome r out os f g keys r')
  let ?l = "log_event (rs_view r) ''validate_end'' [(''kind'', JStr (kind val)),
    (''valid'', JBool (out_valid out)), (''height'', JNum (uint (out_height out)))] r"
  let ?r1 = "ingest_validation out ?l"
  have step: "exec_step I w ?r1 r'"
    using step_try_advance [of "reorder f g w" ?r1] outcome.hyps(3,5) by (simp add: node_event_def step_reorder)
  have "I w ?r1 \<and> (\<forall>o' \<in> set os. answers w ?r1 o')" if "nodes_ok (env w) (history ?r1)"
  proof -
    have r: "I w r" "\<forall>o' \<in> set (out # os). answers w r o'" using outcome.IH that by simp_all
    then have "I w ?l" "answers w ?l out" by (auto intro: I_ecore answers_step)
    then show ?thesis using I_ingest r(2) answers_step [of w r _ ?r1] by auto
  qed
  then show ?case by (rule step_keeps [OF step outcome.prems])
qed

end

end
