(* ===== verification/Replication.thy ===== *)
theory Replication
  imports Agreement Execution
begin

text \<open>
  State machine replication: agreement on the decided nodes together with the execution of one
  replica. A replica only executes nodes on a branch it has decided, so two correct replicas of the
  network never execute different nodes at one height.
\<close>

subsection \<open>Executed nodes are on decided branches\<close>

definition on_decided :: "Wiring \<Rightarrow> Replica \<Rightarrow> int \<Rightarrow> digest \<Rightarrow> bool" where
  "on_decided w r k h \<longleftrightarrow>
     (\<exists>d nd. d \<in> set (decided_nodes r) \<and> (d, h) \<in> (parent_rel (env w) (history r))\<^sup>* \<and>
        Known nd \<in> set (history r) \<and> node_hash (env w) nd = h \<and> uint (n_height nd) = k)"

definition branch_inv :: "Wiring \<Rightarrow> Replica \<Rightarrow> bool" where
  "branch_inv w r \<longleftrightarrow>
     stored w r \<and> (\<forall>k h. (k, h) \<in> set (executed_nodes (outbox r)) \<longrightarrow> on_decided w r k h)"

lemma on_decided_mono:
  assumes "on_decided w r k h" and "set (history r) \<subseteq> set (history r')" and "set (decided_nodes r) \<subseteq> set (decided_nodes r')"
  shows "on_decided w r' k h"
  using assms parent_rel_mono [OF assms(2), of "env w"] unfolding on_decided_def by blast

lemma branch_inv_mono:
  assumes "branch_inv w r" and "set (history r) \<subseteq> set (history r')" and "set (decided_nodes r) \<subseteq> set (decided_nodes r')"
    and "executed_nodes (outbox r') = executed_nodes (outbox r)" and "stored w r'"
  shows "branch_inv w r'"
  using assms on_decided_mono [OF _ assms(2,3)] by (auto simp: branch_inv_def)

lemma tree_path:
  assumes "stored w r" and "(d, h) \<in> (tree_rel (tree r))\<^sup>*"
  shows "(d, h) \<in> (parent_rel (env w) (history r))\<^sup>*"
proof -
  have "tree_rel (tree r) \<subseteq> parent_rel (env w) (history r)"
    using storedD [OF assms(1)] by (fastforce simp: tree_rel_def parent_rel_def)
  then show ?thesis using assms(2) rtrancl_mono by blast
qed

lemma branch_inv_execute:
  assumes inv: "branch_inv w r" and "d \<in> set (decided_nodes r)" and "(d, nh) \<in> (tree_rel (tree r))\<^sup>*"
    and nd: "hm_get (tree r) nh = Some nd"
  shows "branch_inv w (out_state (execute_node w nh nd r))"
proof -
  let ?r = "out_state (execute_node w nh nd r)"
  have st: "stored w r" using inv by (simp add: branch_inv_def)
  have "on_decided w r (uint (n_height nd)) nh"
    using assms(2) tree_path [OF st assms(3)] storedD [OF st nd] by (auto simp: on_decided_def)
  moreover have "executed_nodes (outbox ?r) = executed_nodes (outbox r) \<or>
      executed_nodes (outbox ?r) = executed_nodes (outbox r) @ [(uint (n_height nd), nh)]"
    by (simp add: execute_node_def take_post_state_def take_post_root_def Let_def split: option.splits)
  ultimately show ?thesis
    using inv on_decided_mono [of w r _ _ ?r] st by (auto simp: branch_inv_def stored_def)
qed

interpretation branch: exec_rules branch_inv
proof
  fix w :: Wiring and r r' :: Replica and f g nd h
  show "branch_inv (reorder f g w) r = branch_inv w r" by (simp add: branch_inv_def on_decided_def stored_def)
  show "branch_inv w r \<Longrightarrow> stored w r" by (simp add: branch_inv_def)
  show "ecore r' = ecore r \<Longrightarrow> set (history r) \<subseteq> set (history r') \<Longrightarrow> set (decided_nodes r) \<subseteq> set (decided_nodes r') \<Longrightarrow>
      branch_inv w r \<Longrightarrow> branch_inv w r'"
    by (rule branch_inv_mono [of w r r']) (auto simp: ecore_def branch_inv_def stored_def)
  show "branch_inv w r \<Longrightarrow> nodes_ok (env w) (history (tree_insert (node_hash (env w) nd) nd r)) \<Longrightarrow>
      branch_inv w (tree_insert (node_hash (env w) nd) nd r)"
    by (rule branch_inv_mono [of w r]) (auto simp: branch_inv_def stored_def tree_insert_def)
  show "branch_inv w r \<Longrightarrow> branch_inv w (out_state (maybe_kick_validation w h r))"
    by (rule branch_inv_mono [of w r])
      (auto simp: branch_inv_def stored_def, simp add: maybe_kick_validation_def Let_def split: option.splits sum.splits)
qed (rule branch_inv_execute; assumption)

subsection \<open>In the network\<close>

lemma branch_event:
  assumes "iterates (iter_digest (env w))"
  shows "exec_step branch_inv w r (out_state (node_event w val keys ev r))"
proof (cases ev)
  case (ValOut out)
  let ?r = "ingest_validation out (log_event (rs_view r) ''validate_end'' [(''kind'', JStr (kind val)),
    (''valid'', JBool (out_valid out)), (''height'', JNum (uint (out_height out)))] r)"
  have "branch_inv w ?r = branch_inv w r" by (simp add: branch_inv_def on_decided_def stored_def)
  then have "exec_step branch_inv w r ?r" by (simp add: exec_step_def)
  then show ?thesis using branch.step_trans branch.step_try_advance [OF assms] ValOut by (simp add: node_event_def)
qed (use branch.step_input [of ev _ _ w r val keys] assms in blast)+

definition net_branch_inv :: "u32 \<Rightarrow> u32 set \<Rightarrow> (u32 \<Rightarrow> Wiring) \<Rightarrow> Network \<Rightarrow> bool" where
  "net_branch_inv n byz W s \<longleftrightarrow> (\<forall>i. i \<in> replica_ids n \<longrightarrow> i \<notin> byz \<longrightarrow> branch_inv (W i) (local_state s i))"

lemma net_branch_update:
  assumes "net_branch_inv n byz W s" and "exec_step branch_inv (W i) (local_state s i) (out_state out)"
    and "i \<in> replica_ids n" and "i \<notin> byz" and "nodes_ok (env (W i)) (history (out_state out))"
  shows "net_branch_inv n byz W (net_update s i out)"
  unfolding net_branch_inv_def
proof (intro allI impI)
  fix j assume j: "j \<in> replica_ids n" "j \<notin> byz"
  have sub: "set (net_history s) \<subseteq> set (history (out_state out))" using assms(2) by (simp add: exec_step_def)
  show "branch_inv (W j) (local_state (net_update s i out) j)"
  proof (cases "j = i")
    case True
    then show ?thesis using assms by (simp add: net_branch_inv_def exec_step_def local_state_def net_update_def)
  next
    case False
    have "branch_inv (W j) (local_state s j)" using assms(1) j by (simp add: net_branch_inv_def)
    then show ?thesis
      by (rule branch_inv_mono)
        (use False sub \<open>branch_inv (W j) (local_state s j)\<close> in \<open>auto simp: local_state_def net_update_def branch_inv_def stored_def\<close>)
  qed
qed

lemma net_step_branch:
  assumes "net_step adm n byz W val s s'" and "wired W E"
  obtains i out where "s' = net_update s i out" and "i \<in> replica_ids n" and "i \<notin> byz"
    and "exec_step branch_inv (W i) (local_state s i) (out_state out)"
  using assms(1)
proof cases
  case (start i w f g)
  have "exec_step branch_inv w (local_state s i) (out_state (try_advance w (start_protocol w (local_state s i))))"
    by (rule branch.step_trans [OF branch.step_voting(11) branch.step_try_advance]) (use start in simp)
  then show ?thesis using that start by (simp add: branch.step_reorder)
next
  case (event i w f g keys ev)
  have "exec_step branch_inv w (local_state s i) (out_state (node_event w (val i) keys ev (local_state s i)))"
    by (rule branch_event) (use event in simp)
  then show ?thesis using that event by (simp add: branch.step_reorder)
qed

lemma net_reachable_branch:
  assumes "net_reachable adm n byz W val init s" and "wired W E" and "nodes_ok E (net_history s)"
  shows "net_branch_inv n byz W s"
  using assms(1,3) unfolding net_reachable_def
proof (induction rule: rtranclp_induct)
  case base
  show ?case
    by (simp add: net_branch_inv_def branch_inv_def stored_def local_state_def net_init_def Replica_new_def
        ReplicaState_new_def ReplicaState.defs Replica.defs)
next
  case (step s s')
  obtain i out where s': "s' = net_update s i out" and i: "i \<in> replica_ids n" "i \<notin> byz"
    and st: "exec_step branch_inv (W i) (local_state s i) (out_state out)"
    by (rule net_step_branch [OF step.hyps(2) assms(2)])
  have "nodes_ok E (net_history s)"
    by (rule nodes_ok_antimono [OF step.prems]) (use st in \<open>simp add: s' net_update_def exec_step_def\<close>)
  then show ?case
    using net_branch_update [OF step.IH st i] step.prems assms(2) by (simp add: s' net_update_def wired_def)
qed

subsection \<open>Branches\<close>

lemma parent_rel_single_valued: "nodes_ok E H \<Longrightarrow> single_valued (parent_rel E H)"
  using nodes_okD(1) by (fastforce simp: single_valued_def parent_rel_def)

lemma height_drops:
  assumes ok: "nodes_ok E H" and gen: "\<And>nd. Known nd \<in> set H \<Longrightarrow> node_hash E nd \<noteq> GENESIS_HASH"
    and "(a, b) \<in> (parent_rel E H)\<^sup>*" and b: "Known nb \<in> set H" "node_hash E nb = b"
  shows "Known na \<in> set H \<Longrightarrow> node_hash E na = a \<Longrightarrow> a = b \<or> unat (n_height nb) < unat (n_height na)"
  using assms(3)
proof (induction arbitrary: na rule: converse_rtrancl_induct)
  case (step a c)
  obtain nd where nd: "Known nd \<in> set H" "node_hash E nd = a" "n_parent nd = c"
    using step.hyps(1) by (auto simp: parent_rel_def)
  have na: "na = nd" using nodes_okD(1) [OF ok step.prems(1) nd(1)] step.prems(2) nd(2) by simp
  obtain nc where nc: "Known nc \<in> set H" "node_hash E nc = c"
  proof (cases "c = b")
    case True
    then show ?thesis using that b by blast
  next
    case False
    then obtain x where "(c, x) \<in> parent_rel E H" using step.hyps(2) by (auto elim: converse_rtranclE)
    then show ?thesis using that by (auto simp: parent_rel_def)
  qed
  have "unat (n_height nd) = unat (n_height nc) + 1"
    using nodes_okD(3) [OF ok nd(1) nc(1)] nc(2) nd(3) gen [OF nc(1)] by simp
  moreover have "c = b \<Longrightarrow> nc = nb" using nodes_okD(1) [OF ok nc(1) b(1)] nc(2) b(2) by simp
  ultimately show ?case using step.IH [OF nc] na by auto
qed simp

lemma branch_unique:
  assumes ok: "nodes_ok E H" and gen: "\<And>nd. Known nd \<in> set H \<Longrightarrow> node_hash E nd \<noteq> GENESIS_HASH"
    and "(d, node_hash E a) \<in> (parent_rel E H)\<^sup>*" and "(d, node_hash E b) \<in> (parent_rel E H)\<^sup>*"
    and ab: "Known a \<in> set H" "Known b \<in> set H" and "n_height a = n_height b"
  shows "node_hash E a = node_hash E b"
proof -
  consider "(node_hash E a, node_hash E b) \<in> (parent_rel E H)\<^sup>*" | "(node_hash E b, node_hash E a) \<in> (parent_rel E H)\<^sup>*"
    using single_valued_confluent [OF parent_rel_single_valued [OF ok] assms(3,4)] by blast
  then show ?thesis
    by cases (use height_drops [OF ok gen] ab assms(7) in fastforce)+
qed


end
