(* ===== verification/Sample.thy ===== *)
theory Sample
  imports Node_Main
begin

text \<open>
  Small concrete instances of the external functions, on which the definitions are evaluated: a
  sum in place of SHA-256, signatures that repeat key and message, hash maps walked in
  insertion order, and a disk with two blocks of one transaction each.
\<close>

definition sample_sha :: "bytes \<Rightarrow> digest" where
  "sample_sha bs = fold (\<lambda>b a. a + ucast b) bs 1"

fun msg_tag :: "MsgType \<Rightarrow> u8" where
  "msg_tag NewView = 0"
| "msg_tag Prepare = 1"
| "msg_tag PreCommit = 2"
| "msg_tag Commit = 3"
| "msg_tag Decide = 4"

definition sample_env :: Externals where
  "sample_env =
     \<lparr>sha256 = sample_sha,
      bincode_vote = (\<lambda>(mt, v, h). [msg_tag mt, ucast v, ucast h]),
      ed_sign = (\<lambda>k m. ucast k # m),
      ed_from_slice = Some,
      ed_verify = (\<lambda>k m s. s = ucast k # m),
      iter_u32 = (\<lambda>xs. xs), iter_digest = (\<lambda>xs. xs)\<rparr>"

definition sample_plat :: Platform where
  "sample_plat =
     \<lparr>fs_read = (\<lambda>p.
        if last p \<noteq> ''commit.json'' then Some []
        else if p ! 1 = ''block_0000'' then Some [0]
        else if p ! 1 = ''block_0001'' then Some [1] else None),
      parse_manifest = (\<lambda>b. Some \<lparr>num_accounts = 2, initial_balance = 100, num_blocks = 2\<rparr>),
      parse_commit = (\<lambda>b.
        if b = [0] then Some \<lparr>block_number = 0, meta_tx_hash = ''30'', txs_total = 1\<rparr>
        else if b = [1] then Some \<lparr>block_number = 1, meta_tx_hash = ''31'', txs_total = 1\<rparr>
        else None),
      hex_decode = (\<lambda>s. if s = ''30'' then Some 48 else if s = ''31'' then Some 49 else None),
      de_txs = (\<lambda>b. Some [\<lparr>tx_from = 0, tx_to = 1, tx_amount = 5\<rparr>]),
      de_proof = Some,
      sp1_setup = Some,
      sp1_verify = (\<lambda>pf vk. True),
      read_public_values = (\<lambda>pf. Some \<lparr>pre_state_root = 1, post_state_root = 2, tx_hash = 3\<rparr>)\<rparr>"

definition sample_workload :: Workload where
  "sample_workload =
     \<lparr>wl_dir = [''w''], wl_manifest = \<lparr>num_accounts = 2, initial_balance = 100, num_blocks = 2\<rparr>\<rparr>"

definition sample_wiring :: "u32 \<Rightarrow> Wiring" where
  "sample_wiring i =
     \<lparr>my_id = i, sk = ucast i + 7, env = sample_env, plat = sample_plat,
      workload = sample_workload, timeout_base_ms = 1000\<rparr>"

definition sample_state :: State where
  "sample_state = set_balance (set_balance State_new 0 100) 1 100"

end
