(* ===== verification/Sample_Run.thy ===== *)
theory Sample_Run
  imports Replication Sample
begin

text \<open>
  A run of the network on the sample environment, evaluated step by step: one replica, two blocks
  proposed, validated, voted in three phases and decided. The guards of each step are checked, so
  the final state is one the network reaches.
\<close>

datatype action = Boot u32 | Handle u32 "(u32, digest) hashmap" event

fun perform ::
  "admission \<Rightarrow> u32 \<Rightarrow> u32 set \<Rightarrow> (u32 \<Rightarrow> Wiring) \<Rightarrow> (u32 \<Rightarrow> Validator) \<Rightarrow> action \<Rightarrow> Network \<Rightarrow> Network option" where
  "perform adm n byz W val (Boot i) s =
     (let w = reorder (\<lambda>xs. xs) (\<lambda>xs. xs) (W i); r = local_state s i in
      if i < n \<and> i \<notin> byz \<and> i \<notin> net_stopped s \<and> rs_view r = 0
      then Some (net_update s i (try_advance w (start_protocol w r))) else None)"
| "perform adm n byz W val (Handle i keys ev) s =
     (let w = reorder (\<lambda>xs. xs) (\<lambda>xs. xs) (W i); r = local_state s i in
      if i < n \<and> i \<notin> byz \<and> i \<notin> net_stopped s \<and> 0 < rs_view r \<and> view_room r \<and> \<not> node_done w r \<and>
         deliverable adm w keys (net_history s) ev
      then Some (net_update s i (node_event w (val i) keys ev r)) else None)"

fun perform_all ::
  "admission \<Rightarrow> u32 \<Rightarrow> u32 set \<Rightarrow> (u32 \<Rightarrow> Wiring) \<Rightarrow> (u32 \<Rightarrow> Validator) \<Rightarrow> action list \<Rightarrow> Network \<Rightarrow> Network option" where
  "perform_all adm n byz W val [] s = Some s"
| "perform_all adm n byz W val (a # as) s =
     (case perform adm n byz W val a s of None \<Rightarrow> None | Some s' \<Rightarrow> perform_all adm n byz W val as s')"

lemma perform_step: "perform adm n byz W val a s = Some s' \<Longrightarrow> net_step adm n byz W val s s'"
  by (cases a)
    (auto simp: Let_def replica_ids_def iterates_id intro!: net_step.intros split: if_splits)

lemma perform_all_reachable:
  assumes "perform_all adm n byz W val as s = Some s'" and "net_reachable adm n byz W val init s"
  shows "net_reachable adm n byz W val init s'"
  using assms
proof (induction as arbitrary: s)
  case (Cons a as)
  then obtain s1 where "perform adm n byz W val a s = Some s1" "perform_all adm n byz W val as s1 = Some s'"
    by (auto split: option.splits)
  with Cons show ?case
    by (meson net_reachable_def perform_step rtranclp.rtrancl_into_rtrancl)
qed simp

lemma and_then_weak_cong: "x = y \<Longrightarrow> and_then x f = and_then y f"
  by simp

text \<open>Recursion over a numeral unfolds through its predecessor.\<close>

lemma numeral_unfold:
  "le_bytes (numeral k) x = ucast x # le_bytes (pred_numeral k) (drop_bit 8 x)"
  "replicate (numeral k) c = c # replicate (pred_numeral k) c"
  "build_chain (numeral k) tr l cur ch =
     (case hm_get tr cur of None \<Rightarrow> Some ch
      | Some node \<Rightarrow>
          if sint (n_height node) \<le> l then Some ch
          else if n_parent node = GENESIS_HASH then Some (ch @ [cur])
          else build_chain (pred_numeral k) tr l (n_parent node) (ch @ [cur]))"
  by (simp_all add: numeral_eq_Suc)

lemma sample_wiring_simps:
  "my_id (sample_wiring i) = i" "env (sample_wiring i) = sample_env" "plat (sample_wiring i) = sample_plat"
  "workload (sample_wiring i) = sample_workload" "timeout_base_ms (sample_wiring i) = 1000"
  "num_blocks (wl_manifest sample_workload) = 2"
  "iter_u32 sample_env = (\<lambda>xs. xs)" "iter_digest sample_env = (\<lambda>xs. xs)"
  "sign_vote sample_env (sk (sample_wiring i)) mt v h = [ucast (ucast i + 7 :: digest), msg_tag mt, ucast v, ucast h]"
  "reorder (\<lambda>xs. xs) (\<lambda>xs. xs) (sample_wiring i) = sample_wiring i"
  by (simp_all add: sample_wiring_def sample_workload_def sample_env_def reorder_def sign_vote_def
      vote_digest_def)

lemma sample_sig: "verify_vote_sig sample_env pk mt v h s \<longleftrightarrow> s = [ucast pk, msg_tag mt, ucast v, ucast h]"
  by (simp add: verify_vote_sig_def sample_env_def vote_digest_def)

lemma sample_hash:
  "node_hash sample_env \<lparr>n_parent = 0, n_cmd = 48, n_height = 0\<rparr> = 49"
  "node_hash sample_env \<lparr>n_parent = 49, n_cmd = 49, n_height = 1\<rparr> = 100"
  by (simp_all add: node_hash_def sample_env_def sample_sha_def digest_bytes_def u64_le_def numeral_unfold)

lemma sample_block:
  "block sample_plat sample_workload 0 =
     Inr \<lparr>b_cmd = 48, b_meta = \<lparr>block_number = 0, meta_tx_hash = ''30'', txs_total = 1\<rparr>,
          b_txs_path = [''w'', ''block_0000'', ''transactions.bin''],
          b_proof_path = [''w'', ''block_0000'', ''proof.bin'']\<rparr>"
  "block sample_plat sample_workload 1 =
     Inr \<lparr>b_cmd = 49, b_meta = \<lparr>block_number = 1, meta_tx_hash = ''31'', txs_total = 1\<rparr>,
          b_txs_path = [''w'', ''block_0001'', ''transactions.bin''],
          b_proof_path = [''w'', ''block_0001'', ''proof.bin'']\<rparr>"
  by (simp_all add: block_def block_at_def block_dir_def pad4_def decimal.simps digit_simps
      numeral_unfold sample_plat_def sample_workload_def)

lemma word_numeral_le_one: "(numeral k :: u64) \<le> 1 \<longleftrightarrow> unat (numeral k :: u64) \<le> 1"
  by (simp add: word_le_nat_alt)

lemmas collection_defs = hm_empty_def hm_get_def hm_insert_def hm_keys_def hm_len_def hm_remove_def
  hs_insert_def

lemmas state_defs = Replica_new_def ReplicaState_new_def ReplicaState.defs Replica.defs
  quorum_size_def max_faulty_def leader_for_def vd_mut_def vd_entry_def vd_def log_event_def emit_def
  ViewData_default_def tree_insert_def saturating_sub_def GENESIS_HASH_def

lemmas rule_defs = try_advance_def start_protocol_def enter_new_view_def leader_prepare_def propose_def
  highest_qc_def next_height_def cast_vote_def replica_prepare_def leader_pre_commit_def
  replica_pre_commit_def leader_commit_def replica_commit_def leader_decide_def replica_decide_def
  form_qc_def bucket_entry_def safe_node_def extends_from_def extends_loop.simps

lemmas execute_defs = maybe_kick_validation_def kick_input_def try_kick_pending_validations_def
  retry_pending_execute_def try_execute_chain_def execute_node_def take_post_state_def take_post_root_def

lemmas network_defs = net_init_def net_update_def local_state_def view_room_def
  node_done_def node_event_def handle_timer_def ingest_validation_def decided_def

lemmas run_defs = Let_def numeral_unfold sample_wiring_simps sample_hash sample_block
  word_numeral_le_one collection_defs state_defs rule_defs execute_defs network_defs

definition sample_outcome :: "digest \<Rightarrow> u64 \<Rightarrow> ValidateOutcome" where
  "sample_outcome h k =
     \<lparr>out_node_hash = h, out_height = k, out_valid = True, out_post_state = Some State_new,
      out_post_root = None, out_pre_root = None\<rparr>"

definition sample_run :: "action list" where
  "sample_run = [Boot 0, Handle 0 [] (ValOut (sample_outcome 49 0)),
     Handle 0 [] (Timer \<lparr>evt_view = 1\<rparr>), Handle 0 [] (ValOut (sample_outcome 100 1))]"

lemma sample_outcome_simps:
  "out_node_hash (sample_outcome h k) = h" "out_height (sample_outcome h k) = k" "out_valid (sample_outcome h k)"
  "out_post_state (sample_outcome h k) = Some State_new" "out_post_root (sample_outcome h k) = None"
  "out_pre_root (sample_outcome h k) = None"
  by (simp_all add: sample_outcome_def)

lemma sample_run_decides:
  "\<exists>s. perform_all (admissible 1 {}) 1 {} sample_wiring (\<lambda>i. Reexecute 0) sample_run
         (net_init 1 sample_wiring (\<lambda>i. sample_state)) = Some s \<and> decided s 0 = {49, 100} \<and>
     Signed 0 PreCommit 1 49 \<in> set (net_history s) \<and> Signed 0 Commit 1 49 \<in> set (net_history s) \<and>
     executed_nodes (outbox (net_replicas s 0)) = [(0, 49), (1, 100)] \<and>
     (\<forall>nd. Known nd \<in> set (net_history s) \<longrightarrow>
        nd = \<lparr>n_parent = 0, n_cmd = 48, n_height = 0\<rparr> \<or> nd = \<lparr>n_parent = 49, n_cmd = 49, n_height = 1\<rparr>)"
  by (simp add: run_defs sample_run_def sample_outcome_simps executed_nodes_def cong: let_weak_cong and_then_weak_cong)

theorem agreement_witness:
  "\<exists>s. net_reachable (admissible 1 {}) 1 {} sample_wiring (\<lambda>i. Reexecute 0) (\<lambda>i. sample_state) s \<and>
     decided s 0 = {49, 100} \<and>
     ((49, 100) \<in> (parent_rel sample_env (net_history s))\<^sup>* \<or>
      (100, 49) \<in> (parent_rel sample_env (net_history s))\<^sup>*)"
proof -
  obtain s where run: "perform_all (admissible 1 {}) 1 {} sample_wiring (\<lambda>i. Reexecute 0) sample_run
      (net_init 1 sample_wiring (\<lambda>i. sample_state)) = Some s" and d: "decided s 0 = {49, 100}"
    using sample_run_decides by blast
  have reach: "net_reachable (admissible 1 {}) 1 {} sample_wiring (\<lambda>i. Reexecute 0) (\<lambda>i. sample_state) s"
    by (rule perform_all_reachable [OF run]) (simp add: net_reachable_def)
  have "faults_ok 1 {}" and "wired sample_wiring sample_env"
    by (simp_all add: faults_ok_def wired_def sample_wiring_def)
  from agreement [OF reach this, of 0 0 49 100] reach d show ?thesis
    by (auto simp: replica_ids_def)
qed

end
