(* ===== verification/Generator.thy ===== *)
theory Generator
  imports Workload
begin

text \<open>
  The workload generator \<^verbatim>\<open>zkvm/script/src/bin/network.rs\<close> and the benchmark
  \<^verbatim>\<open>zkvm/script/src/bin/main.rs\<close>: pseudo-random transactions, the block loop that executes,
  proves, checks and saves each block, and resuming. The disk is a map from paths to contents,
  returned in whatever state a failure leaves it. The prover, the encoders, the success of
  each disk operation and the measured times are parameters.
\<close>

datatype tool_error =
    RemainderByZero
  | RootFailed
  | DirFailed path
  | FileFailed path
  | SerializeFailed
  | SetupFailed
  | ProveFailed
  | PublicValuesFailed
  | AssertFailed
  | VerifyFailed
  | UsageError

subsection \<open>Transactions and initial state\<close>

definition lcg :: "u64 \<Rightarrow> u64" where
  "lcg seed = seed * 6364136223846793005 + 1"

definition rem_u64 :: "u64 \<Rightarrow> u64 \<Rightarrow> tool_error + u64" where
  "rem_u64 a b = (if b = 0 then Inl RemainderByZero else Inr (a mod b))"

definition gen_tx :: "u32 \<Rightarrow> u64 \<Rightarrow> tool_error + Tx \<times> u64" where
  "gen_tx accounts seed =
     (let seed1 = lcg seed in
      sum_bind (rem_u64 seed1 (ucast accounts)) (\<lambda>a.
      let sender = ucast a; seed2 = lcg seed1 in
      sum_bind (rem_u64 seed2 (ucast accounts)) (\<lambda>b.
      let receiver = (if ucast b = sender then (ucast b + 1) mod accounts else ucast b);
          seed3 = lcg seed2;
          amount = seed3 mod 10 + 1 in
      Inr (\<lparr>tx_from = sender, tx_to = receiver, tx_amount = amount\<rparr>, seed3))))"

fun generate_loop :: "nat \<Rightarrow> u32 \<Rightarrow> u64 \<Rightarrow> Tx list \<Rightarrow> tool_error + Tx list \<times> u64" where
  "generate_loop 0 accounts seed txs = Inr (txs, seed)"
| "generate_loop (Suc k) accounts seed txs =
     sum_bind (gen_tx accounts seed) (\<lambda>(tx, seed'). generate_loop k accounts seed' (txs @ [tx]))"

definition generate_txs :: "u32 \<Rightarrow> u32 \<Rightarrow> u64 \<Rightarrow> tool_error + Tx list \<times> u64" where
  "generate_txs num_txs accounts seed = generate_loop (unat num_txs) accounts seed []"

definition generate_initial_state :: "u32 \<Rightarrow> u64 \<Rightarrow> State" where
  "generate_initial_state accounts balance =
     fold (\<lambda>i s. set_balance s (of_nat i) balance) [0..<unat accounts] State_new"

subsection \<open>Files\<close>

record GenManifest = Manifest +
  num_txs_per_block :: u32

record FullMeta = BlockMeta +
  meta_pre_root :: string
  meta_post_root :: string
  meta_txs_applied :: u32

record GenMeta = FullMeta +
  native_execution_us :: u64
  network_prove_us :: u64
  verify_us :: u64

record Toolchain = Platform +
  tool_sha :: "bytes \<Rightarrow> digest"
  hex_encode :: "digest \<Rightarrow> string"
  ser_manifest :: "GenManifest \<Rightarrow> bytes"
  ser_commit :: "GenMeta \<Rightarrow> bytes"
  parse_full_manifest :: "bytes \<Rightarrow> GenManifest option"
  parse_full_commit :: "bytes \<Rightarrow> FullMeta option"
  ser_txs :: "Tx list \<Rightarrow> bytes option"
  ser_proof :: "bytes \<Rightarrow> bytes option"
  ledger_elf :: bytes
  sp1_prove :: "bytes \<Rightarrow> State \<Rightarrow> Tx list \<Rightarrow> bytes option"
  sp1_execute :: "bytes \<Rightarrow> State \<Rightarrow> Tx list \<Rightarrow> BlockCommit option"
  timings :: "u32 \<Rightarrow> u64 \<times> u64 \<times> u64"
  can_mkdir :: "path \<Rightarrow> bool"
  can_write_file :: "path \<Rightarrow> bool"

type_synonym disk = "path \<Rightarrow> bytes option"

text \<open>An operation on the disk ends in an error or a value, with the disk as it is then.\<close>

type_synonym 'a io = "tool_error \<times> disk + 'a \<times> disk"

definition fs_write :: "Toolchain \<Rightarrow> path \<Rightarrow> bytes \<Rightarrow> disk \<Rightarrow> unit io" where
  "fs_write X p bs d = (if can_write_file X p then Inr ((), d(p \<mapsto> bs)) else Inl (FileFailed p, d))"

definition create_dir_all :: "Toolchain \<Rightarrow> path \<Rightarrow> disk \<Rightarrow> unit io" where
  "create_dir_all X p d = (if can_mkdir X p then Inr ((), d) else Inl (DirFailed p, d))"

text \<open>A step that does not touch the disk.\<close>

fun pure_io :: "tool_error + 'a \<Rightarrow> disk \<Rightarrow> 'a io" where
  "pure_io (Inl e) d = Inl (e, d)"
| "pure_io (Inr x) d = Inr (x, d)"

definition need :: "tool_error \<Rightarrow> 'a option \<Rightarrow> tool_error + 'a" where
  "need e x = (case x of None \<Rightarrow> Inl e | Some y \<Rightarrow> Inr y)"

definition ensure :: "tool_error \<Rightarrow> bool \<Rightarrow> tool_error + unit" where
  "ensure e b = (if b then Inr () else Inl e)"

definition io_bind :: "'a io \<Rightarrow> ('a \<Rightarrow> disk \<Rightarrow> 'b io) \<Rightarrow> 'b io" where
  "io_bind x f = sum_bind x (\<lambda>(a, d). f a d)"

subsection \<open>One block\<close>

record Native =
  nat_pre :: digest
  nat_state :: State
  nat_applied :: u32
  nat_post :: digest
  nat_tx_hash :: digest

definition native_run :: "(bytes \<Rightarrow> digest) \<Rightarrow> State \<Rightarrow> Tx list \<Rightarrow> tool_error + Native" where
  "native_run sha s txs =
     sum_bind (need RootFailed (compute_state_root sha s)) (\<lambda>pre.
     case apply_block s txs of (s', applied) \<Rightarrow>
     sum_bind (need RootFailed (compute_state_root sha s')) (\<lambda>post.
     Inr \<lparr>nat_pre = pre, nat_state = s', nat_applied = applied, nat_post = post,
          nat_tx_hash = hash_transactions sha txs\<rparr>))"

definition commit_matches :: "BlockCommit \<Rightarrow> Native \<Rightarrow> bool" where
  "commit_matches c n \<longleftrightarrow>
     pre_state_root c = nat_pre n \<and> post_state_root c = nat_post n \<and> tx_hash c = nat_tx_hash n"

record GenArgs =
  ga_num_blocks :: u32
  ga_num_txs :: u32
  ga_num_accounts :: u32
  ga_initial_balance :: u64
  ga_dir :: path
  ga_resume_from :: u32

definition block_meta :: "Toolchain \<Rightarrow> GenArgs \<Rightarrow> u32 \<Rightarrow> Native \<Rightarrow> GenMeta" where
  "block_meta X args block_num n =
     (case timings X block_num of (native_us, prove_us, check_us) \<Rightarrow>
      \<lparr>block_number = block_num, meta_tx_hash = hex_encode X (nat_tx_hash n), txs_total = ga_num_txs args,
       meta_pre_root = hex_encode X (nat_pre n), meta_post_root = hex_encode X (nat_post n),
       meta_txs_applied = nat_applied n, native_execution_us = native_us, network_prove_us = prove_us,
       verify_us = check_us\<rparr>)"

definition gen_block :: "Toolchain \<Rightarrow> GenArgs \<Rightarrow> bytes \<Rightarrow> u32 \<Rightarrow> State \<times> u64 \<Rightarrow> disk \<Rightarrow> (State \<times> u64) io" where
  "gen_block X args vk block_num st d =
     (case st of (s, seed) \<Rightarrow>
      let dir = block_dir (ga_dir args) (ucast block_num) in
      io_bind (create_dir_all X dir d) (\<lambda>_ d.
      io_bind (pure_io (generate_txs (ga_num_txs args) (ga_num_accounts args) seed) d) (\<lambda>(txs, seed') d.
      io_bind (pure_io (native_run (tool_sha X) s txs) d) (\<lambda>n d.
      io_bind (pure_io (need SerializeFailed (ser_txs X txs)) d) (\<lambda>txs_bytes d.
      io_bind (fs_write X (dir @ [''transactions.bin'']) txs_bytes d) (\<lambda>_ d.
      io_bind (pure_io (need ProveFailed (sp1_prove X (ledger_elf X) s txs)) d) (\<lambda>pf d.
      io_bind (pure_io (need PublicValuesFailed (read_public_values X pf)) d) (\<lambda>c d.
      io_bind (pure_io (ensure AssertFailed (commit_matches c n)) d) (\<lambda>_ d.
      io_bind (pure_io (ensure VerifyFailed (sp1_verify X pf vk)) d) (\<lambda>_ d.
      io_bind (pure_io (need SerializeFailed (ser_proof X pf)) d) (\<lambda>proof_bytes d.
      io_bind (fs_write X (dir @ [''proof.bin'']) proof_bytes d) (\<lambda>_ d.
      io_bind (fs_write X (dir @ [''commit.json'']) (ser_commit X (block_meta X args block_num n)) d) (\<lambda>_ d.
      Inr ((nat_state n, seed'), d))))))))))))))"

subsection \<open>The generator\<close>

fun gen_blocks :: "Toolchain \<Rightarrow> GenArgs \<Rightarrow> bytes \<Rightarrow> nat list \<Rightarrow> State \<times> u64 \<Rightarrow> disk \<Rightarrow> (State \<times> u64) io" where
  "gen_blocks X args vk [] st d = Inr (st, d)"
| "gen_blocks X args vk (b # bs) st d =
     io_bind (gen_block X args vk (of_nat b) st d) (gen_blocks X args vk bs)"

text \<open>Resuming: the skipped blocks are generated and applied, not saved.\<close>

fun skip_blocks :: "GenArgs \<Rightarrow> nat \<Rightarrow> State \<times> u64 \<Rightarrow> tool_error + State \<times> u64" where
  "skip_blocks args 0 st = Inr st"
| "skip_blocks args (Suc k) (s, seed) =
     sum_bind (generate_txs (ga_num_txs args) (ga_num_accounts args) seed) (\<lambda>(txs, seed').
       skip_blocks args k (fst (apply_block s txs), seed'))"

definition gen_manifest :: "GenArgs \<Rightarrow> GenManifest" where
  "gen_manifest args =
     \<lparr>num_accounts = ga_num_accounts args, initial_balance = ga_initial_balance args,
      num_blocks = ga_num_blocks args, num_txs_per_block = ga_num_txs args\<rparr>"

definition gen_main :: "Toolchain \<Rightarrow> GenArgs \<Rightarrow> disk \<Rightarrow> State io" where
  "gen_main X args d =
     (let manifest_path = ga_dir args @ [''manifest.json'']; manifest = ser_manifest X (gen_manifest args) in
      io_bind (create_dir_all X (ga_dir args) d) (\<lambda>_ d.
      io_bind (fs_write X (ga_dir args @ [''ledger-program.elf'']) (ledger_elf X) d) (\<lambda>_ d.
      io_bind (fs_write X manifest_path manifest d) (\<lambda>_ d.
      io_bind (pure_io (need SetupFailed (sp1_setup X (ledger_elf X))) d) (\<lambda>vk d.
      io_bind (pure_io (skip_blocks args (unat (ga_resume_from args))
                 (generate_initial_state (ga_num_accounts args) (ga_initial_balance args), 12345)) d) (\<lambda>st d.
      io_bind (gen_blocks X args vk [unat (ga_resume_from args)..<unat (ga_num_blocks args)] st d) (\<lambda>st d.
      io_bind (fs_write X manifest_path manifest d) (\<lambda>_ d.
      Inr (fst st, d)))))))))"

subsection \<open>The benchmark\<close>

record ScriptArgs =
  sa_execute :: bool
  sa_prove :: bool
  sa_num_txs :: u32
  sa_num_accounts :: u32
  sa_initial_balance :: u64

definition script_generate_txs :: "u32 \<Rightarrow> u32 \<Rightarrow> tool_error + Tx list" where
  "script_generate_txs num_txs accounts =
     sum_bind (generate_loop (unat num_txs) accounts 12345 []) (\<lambda>(txs, seed). Inr txs)"

definition script_main :: "Toolchain \<Rightarrow> ScriptArgs \<Rightarrow> tool_error + Native" where
  "script_main X args =
     (if sa_execute args = sa_prove args then Inl UsageError else
      let s = generate_initial_state (sa_num_accounts args) (sa_initial_balance args) in
      sum_bind (script_generate_txs (sa_num_txs args) (sa_num_accounts args)) (\<lambda>txs.
      sum_bind (native_run (tool_sha X) s txs) (\<lambda>n.
      if sa_execute args
      then sum_bind (need ProveFailed (sp1_execute X (ledger_elf X) s txs)) (\<lambda>c.
           sum_bind (ensure AssertFailed (commit_matches c n)) (\<lambda>_. Inr n))
      else sum_bind (need SetupFailed (sp1_setup X (ledger_elf X))) (\<lambda>vk.
           sum_bind (need ProveFailed (sp1_prove X (ledger_elf X) s txs)) (\<lambda>pf.
           sum_bind (need PublicValuesFailed (read_public_values X pf)) (\<lambda>c.
           sum_bind (ensure AssertFailed (commit_matches c n)) (\<lambda>_.
           sum_bind (ensure VerifyFailed (sp1_verify X pf vk)) (\<lambda>_. Inr n))))))))"

subsection \<open>What is generated\<close>

lemma unat_ucast_u64: "unat (ucast (n :: u32) :: u64) = unat n"
proof -
  have "unat n < 2 ^ LENGTH(32)" by (rule unsigned_less)
  then show ?thesis by (simp add: unsigned_ucast_eq take_bit_nat_eq_self)
qed

lemma unat_rem_account: "0 < n \<Longrightarrow> unat (ucast (x mod ucast (n :: u32) :: u64) :: u32) = unat x mod unat n"
proof -
  assume "0 < n"
  have n32: "unat n < 2 ^ LENGTH(32)" by (rule unsigned_less)
  have "unat (x mod ucast n) = unat x mod unat n"
    by (simp add: unat_mod unat_ucast_u64)
  moreover have "unat x mod unat n < 2 ^ 32"
    using n32 order.strict_trans [OF mod_less_divisor [of "unat n" "unat x"]] \<open>0 < n\<close>
    by (simp add: word_less_nat_alt)
  ultimately show ?thesis by (simp add: unsigned_ucast_eq take_bit_nat_eq_self)
qed

lemma next_account:
  assumes "a < (n :: u32)"
  shows "(a + 1) mod n < n" and "2 \<le> n \<Longrightarrow> a \<noteq> (a + 1) mod n"
proof -
  have "unat n < 2 ^ LENGTH(32)" by (rule unsigned_less)
  then have "unat (a + 1) = unat a + 1"
    using assms unat_add_lem [of a 1] by (simp add: word_less_nat_alt)
  then have u: "unat ((a + 1) mod n) = (unat a + 1) mod unat n" by (simp add: unat_mod)
  then show "(a + 1) mod n < n"
    using assms by (simp add: word_less_nat_alt)
  show "a \<noteq> (a + 1) mod n" if "2 \<le> n"
  proof
    assume "a = (a + 1) mod n"
    then have "(unat a + 1) mod unat n = unat a" using u by simp
    moreover have "unat a < unat n" "2 \<le> unat n"
      using assms that by (simp_all add: word_less_nat_alt word_le_nat_alt)
    ultimately show False by (cases "unat a + 1 = unat n") auto
  qed
qed

definition tx_in_range :: "u32 \<Rightarrow> Tx \<Rightarrow> bool" where
  "tx_in_range n tx \<longleftrightarrow> tx_from tx < n \<and> tx_to tx < n \<and> 1 \<le> tx_amount tx \<and> tx_amount tx \<le> 10 \<and>
     (2 \<le> n \<longrightarrow> tx_from tx \<noteq> tx_to tx)"

lemma amount_range: "1 \<le> (x :: u64) mod 10 + 1 \<and> x mod 10 + 1 \<le> 10"
proof -
  have m: "unat (x mod 10) < 10" by (simp add: unat_mod)
  then have "unat (x mod 10 + 1) = unat (x mod 10) + 1"
    by (subst unat_add_lem [THEN iffD1]) simp_all
  then show ?thesis using m by (simp add: word_le_nat_alt)
qed

lemma gen_tx_ok:
  assumes "0 < n"
  shows "\<exists>tx seed'. gen_tx n seed = Inr (tx, seed') \<and> tx_in_range n tx"
proof -
  have nz: "(ucast n :: u64) \<noteq> 0"
    using assms unat_ucast_u64 [of n] by (metis unat_0 unat_gt_0 word_neq_0_conv)
  have lt: "(ucast (x mod ucast n :: u64) :: u32) < n" for x :: u64
    using assms unat_rem_account [OF assms, of x] by (simp add: word_less_nat_alt)
  show ?thesis
    using nz lt amount_range next_account by (auto simp: gen_tx_def rem_u64_def Let_def tx_in_range_def)
qed

lemma generate_loop_ok:
  assumes "0 < n" and "list_all (tx_in_range n) txs"
  shows "\<exists>txs' seed'. generate_loop k n seed txs = Inr (txs', seed') \<and> length txs' = length txs + k \<and>
    list_all (tx_in_range n) txs'"
  using assms(2)
proof (induction k arbitrary: seed txs)
  case (Suc k)
  obtain tx seed1 where "gen_tx n seed = Inr (tx, seed1)" "tx_in_range n tx"
    using gen_tx_ok [OF assms(1)] by blast
  then show ?case using Suc.IH [of "txs @ [tx]" seed1] Suc.prems by simp
qed simp

text \<open>
  \<^bold>\<open>C35\<close>. The generator returns, whatever the seed, the requested number of
  transactions, between accounts that exist, between two different accounts if there are two,
  and of 1 to 10 units; without accounts it panics as soon as a transaction is asked for.
\<close>

theorem generate_txs_in_range:
  "(0 < n \<longrightarrow> (\<exists>txs seed'. generate_txs k n seed = Inr (txs, seed') \<and> length txs = unat k \<and>
      list_all (tx_in_range n) txs)) \<and>
   (0 < k \<longrightarrow> generate_txs k 0 seed = Inl RemainderByZero)"
proof
  show "0 < n \<longrightarrow> (\<exists>txs seed'. generate_txs k n seed = Inr (txs, seed') \<and> length txs = unat k \<and>
      list_all (tx_in_range n) txs)"
    using generate_loop_ok [of n "[]" "unat k" seed] by (simp add: generate_txs_def)
  show "0 < k \<longrightarrow> generate_txs k 0 seed = Inl RemainderByZero"
    by (cases "unat k") (auto simp: generate_txs_def gen_tx_def rem_u64_def unat_eq_zero)
qed

subsection \<open>The generated ledger\<close>

text \<open>A ledger on exactly the accounts \<open>0 ..< n\<close>.\<close>

definition accounts_ok :: "u32 \<Rightarrow> State \<Rightarrow> bool" where
  "accounts_ok n s \<longleftrightarrow> state_ok s \<and> dom (bt_get (balances s)) = {a. a < n}"

lemma initial_fold:
  "balances (fold (\<lambda>i s. set_balance s (of_nat i) b) is s) = fold (\<lambda>k. bt_insert k b) (map of_nat is) (balances s)"
  by (induction "is" arbitrary: s) (simp_all add: set_balance_def)

lemma of_nat_below: "of_nat ` {0..<unat n} = {a :: u32. a < n}"
proof
  show "of_nat ` {0..<unat n} \<subseteq> {a :: u32. a < n}"
    by (auto simp: word_less_nat_alt unat_of_nat)
  show "{a :: u32. a < n} \<subseteq> of_nat ` {0..<unat n}"
  proof
    fix a assume "a \<in> {a :: u32. a < n}"
    then have "unat a \<in> {0..<unat n}" by (simp add: word_less_nat_alt)
    then show "a \<in> of_nat ` {0..<unat n}" by (rule rev_image_eqI) simp
  qed
qed

lemma accounts_ok_initial: "accounts_ok n (generate_initial_state n b)"
proof -
  let ?m = "balances (generate_initial_state n b)"
  have m: "?m = fold (\<lambda>k. bt_insert k b) (map of_nat [0..<unat n]) bt_empty"
    by (simp add: generate_initial_state_def initial_fold State_new_def)
  then have "bt_ok ?m" by (simp add: btree_dict.ok_fill btree_dict.ok_empty)
  moreover have "dom (bt_get ?m) = {a. a < n}"
    unfolding m of_nat_below [symmetric]
    by (auto simp: btree_dict.get_fill btree_dict.ok_empty btree_dict.get_empty dom_def split: if_splits)
  ultimately show ?thesis by (simp add: accounts_ok_def state_ok_def)
qed

lemma accounts_ok_set: "accounts_ok n s \<Longrightarrow> a < n \<Longrightarrow> accounts_ok n (set_balance s a v)"
  by (auto simp: accounts_ok_def set_balance_def state_ok_def btree_dict.ok_insert btree_dict.get_insert_map)

lemma accounts_ok_apply_txs:
  "accounts_ok n s \<Longrightarrow> list_all (tx_in_range n) txs \<Longrightarrow> accounts_ok n (fst (apply_txs s k txs))"
  by (induction s k txs rule: apply_txs.induct)
    (auto simp: apply_tx_def Let_def tx_in_range_def intro!: accounts_ok_set)

lemma supply_initial: "total_supply (generate_initial_state n b) = unat n * unat b"
proof -
  have "k \<le> unat n \<Longrightarrow> state_ok (fold (\<lambda>i s. set_balance s (of_nat i) b) [0..<k] State_new) \<and>
      (\<forall>a. k \<le> unat a \<longrightarrow> get_balance (fold (\<lambda>i s. set_balance s (of_nat i) b) [0..<k] State_new) a = 0) \<and>
      total_supply (fold (\<lambda>i s. set_balance s (of_nat i) b) [0..<k] State_new) = k * unat b" for k
  proof (induction k)
    case 0
    then show ?case by (simp add: State_new_def get_balance_def bt_empty_def total_supply_def state_ok_def bt_ok_def)
  next
    case (Suc k)
    let ?s = "fold (\<lambda>i s. set_balance s (of_nat i) b) [0..<k] State_new"
    have "unat n < 2 ^ LENGTH(32)" by (rule unsigned_less)
    then have k: "unat (of_nat k :: u32) = k" using Suc.prems by (simp add: unat_of_nat)
    then have "get_balance ?s (of_nat k) = 0" using Suc by simp
    then show ?case
      using Suc k supply_set_balance [of ?s "of_nat k" b] by (auto simp: get_set_balance)
  qed
  then show ?thesis by (simp add: generate_initial_state_def)
qed

lemma accounts_ok_len: "accounts_ok n s \<Longrightarrow> bt_len (balances s) = unat n"
proof -
  assume ok: "accounts_ok n s"
  have "unat n < 2 ^ LENGTH(32)" by (rule unsigned_less)
  then have "unat (of_nat k :: u32) = k" if "k < unat n" for k using that by (simp add: unat_of_nat)
  then have "inj_on (of_nat :: nat \<Rightarrow> u32) {0..<unat n}"
    by (intro inj_on_inverseI [where g = unat]) simp
  then have "card {a. a < n} = unat n" by (simp add: of_nat_below [symmetric] card_image)
  then show ?thesis using ok by (simp add: accounts_ok_def state_ok_def btree_dict.len_card)
qed

text \<open>
  \<^bold>\<open>C34\<close>. On the ledgers the tools produce, with accounts \<open>0 ..< n\<close>, the state root
  determines the whole state: two such states with one root are equal, unless SHA-256 collides on
  the bytes hashed for the two roots.
\<close>

theorem root_determines_state:
  assumes "accounts_ok n s" and "accounts_ok n s'" and "unat n \<le> 2 ^ 31"
    and "inj_on sha (root_preimages sha s \<union> root_preimages sha s')"
    and "compute_state_root sha s = compute_state_root sha s'"
  shows "s = s'"
proof -
  have len: "bt_len (balances s) \<le> 2 ^ 31" "bt_len (balances s') \<le> 2 ^ 31"
    using assms(1-3) by (simp_all add: accounts_ok_len)
  then obtain k where "num_leaves s = 2 ^ k" "bt_len (balances s) \<le> 2 ^ k" using num_leaves_pow2 by metis
  then have cover: "unat n \<le> num_leaves s" using accounts_ok_len [OF assms(1)] by simp
  have ok: "bt_ok (balances s)" "bt_ok (balances s')"
    and dom: "dom (bt_get (balances s)) = {a. a < n}" "dom (bt_get (balances s')) = {a. a < n}"
    using assms(1,2) by (auto simp: accounts_ok_def state_ok_def)
  have "bt_get (balances s) a = bt_get (balances s') a" for a
  proof (cases "a < n")
    case True
    then have "get_balance s a = get_balance s' a"
      using root_binding [OF len assms(4,5)] cover by (simp add: word_less_nat_alt)
    moreover have "a \<in> dom (bt_get (balances s))" "a \<in> dom (bt_get (balances s'))" using True dom by auto
    ultimately show ?thesis by (auto simp: get_balance_def)
  next
    case False
    then have "a \<notin> dom (bt_get (balances s))" "a \<notin> dom (bt_get (balances s'))" using dom by auto
    then show ?thesis by (simp add: domIff)
  qed
  then have "balances s = balances s'" by (rule bt_eqI [OF ok])
  then show ?thesis by simp
qed

subsection \<open>What a block leaves on the disk\<close>

definition in_block :: "path \<Rightarrow> u32 \<Rightarrow> path \<Rightarrow> bool" where
  "in_block dir b p \<longleftrightarrow> (\<exists>f. p = block_dir dir (ucast b) @ [f])"

lemma need_Inr: "need e x = Inr y \<longleftrightarrow> x = Some y"
  by (simp add: need_def split: option.splits)

lemma ensure_Inr: "ensure e b = Inr u \<longleftrightarrow> b"
  by (simp add: ensure_def)

lemma pure_io_Inr: "pure_io x d = Inr (y, d') \<longleftrightarrow> x = Inr y \<and> d' = d"
  by (cases x) auto

lemma fs_write_Inr: "fs_write X p bs d = Inr (u, d') \<longleftrightarrow> can_write_file X p \<and> d' = d(p \<mapsto> bs)"
  by (auto simp: fs_write_def)

lemma create_dir_all_Inr: "create_dir_all X p d = Inr (u, d') \<longleftrightarrow> can_mkdir X p \<and> d' = d"
  by (auto simp: create_dir_all_def)

lemma io_bind_Inr: "io_bind x f = Inr z \<longleftrightarrow> (\<exists>a d. x = Inr (a, d) \<and> f a d = Inr z)"
  by (auto simp: io_bind_def sum_bind_Inr_iff)

lemmas io_Inr = need_Inr ensure_Inr pure_io_Inr fs_write_Inr create_dir_all_Inr io_bind_Inr

lemma native_run_Inr:
  "native_run sha s txs = Inr n \<longleftrightarrow>
     compute_state_root sha s = Some (nat_pre n) \<and>
     compute_state_root sha (fst (apply_block s txs)) = Some (nat_post n) \<and>
     nat_state n = fst (apply_block s txs) \<and> nat_applied n = snd (apply_block s txs) \<and>
     nat_tx_hash n = hash_transactions sha txs"
  by (cases "apply_block s txs") (auto simp: native_run_def sum_bind_Inr_iff need_Inr intro!: Native.equality)

lemma gen_block_Inr:
  assumes "gen_block X args vk b (s, seed) d = Inr (st', d')"
  obtains txs seed' n tb pf c pb where
    "generate_txs (ga_num_txs args) (ga_num_accounts args) seed = Inr (txs, seed')"
    and "native_run (tool_sha X) s txs = Inr n" and "st' = (nat_state n, seed')"
    and "ser_txs X txs = Some tb" and "sp1_prove X (ledger_elf X) s txs = Some pf"
    and "read_public_values X pf = Some c" and "commit_matches c n" and "sp1_verify X pf vk"
    and "ser_proof X pf = Some pb"
    and "d' = d(block_dir (ga_dir args) (ucast b) @ [''transactions.bin''] \<mapsto> tb,
                block_dir (ga_dir args) (ucast b) @ [''proof.bin''] \<mapsto> pb,
                block_dir (ga_dir args) (ucast b) @ [''commit.json''] \<mapsto> ser_commit X (block_meta X args b n))"
  using assms unfolding gen_block_def by (auto simp: io_Inr Let_def split: prod.splits)

lemma gen_block_frame:
  assumes "gen_block X args vk b st d = Inr (st', d')" and "\<not> in_block (ga_dir args) b p"
  shows "d' p = d p"
proof -
  obtain s seed where st: "st = (s, seed)" by (cases st)
  from assms(1) show ?thesis
    unfolding st by (rule gen_block_Inr) (use assms(2) in \<open>auto simp: in_block_def\<close>)
qed

lemma gen_blocks_frame:
  assumes "gen_blocks X args vk bs st d = Inr (st', d')"
    and "\<forall>b \<in> set bs. \<not> in_block (ga_dir args) (of_nat b) p"
  shows "d' p = d p"
  using assms
proof (induction bs arbitrary: st d)
  case (Cons b bs)
  then obtain st1 d1 where "gen_block X args vk (of_nat b) st d = Inr (st1, d1)"
    and "gen_blocks X args vk bs st1 d1 = Inr (st', d')" by (auto simp: io_bind_Inr)
  then show ?case using Cons.IH Cons.prems(2) gen_block_frame by (metis list.set_intros)
qed simp

lemma gen_blocks_append:
  "gen_blocks X args vk (as @ bs) st d = io_bind (gen_blocks X args vk as st d) (gen_blocks X args vk bs)"
proof (induction as arbitrary: st d)
  case (Cons a as)
  then show ?case by (cases "gen_block X args vk (of_nat a) st d") (auto simp: io_bind_def)
qed (simp add: io_bind_def)

subsection \<open>Resuming\<close>

definition map_disk :: "(disk \<Rightarrow> disk) \<Rightarrow> 'a io \<Rightarrow> 'a io" where
  "map_disk f r = map_sum (apsnd f) (apsnd f) r"

lemma map_disk_bind:
  assumes "\<And>a d. g a (f d) = map_disk f (g a d)"
  shows "io_bind (map_disk f x) g = map_disk f (io_bind x g)"
  using assms by (cases x) (auto simp: io_bind_def map_disk_def)

lemma gen_block_upd:
  assumes "\<not> in_block (ga_dir args) b p"
  shows "gen_block X args vk b st (d(p \<mapsto> v)) = map_disk (\<lambda>d. d(p \<mapsto> v)) (gen_block X args vk b st d)"
proof -
  have "block_dir (ga_dir args) (ucast b) @ [f] \<noteq> p" for f using assms by (auto simp: in_block_def)
  then have w: "fs_write X (block_dir (ga_dir args) (ucast b) @ [f]) bs (d(p \<mapsto> v)) =
      map_disk (\<lambda>d. d(p \<mapsto> v)) (fs_write X (block_dir (ga_dir args) (ucast b) @ [f]) bs d)" for f bs d
    by (simp add: fs_write_def map_disk_def fun_upd_twist)
  have p: "pure_io x (d(p \<mapsto> v)) = map_disk (\<lambda>d. d(p \<mapsto> v)) (pure_io x d)" for x :: "tool_error + 'b" and d
    by (cases x) (simp_all add: map_disk_def)
  have c: "create_dir_all X q (d(p \<mapsto> v)) = map_disk (\<lambda>d. d(p \<mapsto> v)) (create_dir_all X q d)" for q d
    by (simp add: create_dir_all_def map_disk_def)
  have r: "(Inr (x, d(p \<mapsto> v)) :: 'c io) = map_disk (\<lambda>d. d(p \<mapsto> v)) (Inr (x, d))" for x d
    by (simp add: map_disk_def)
  show ?thesis
    unfolding gen_block_def Let_def by (simp add: w p c r map_disk_bind split: prod.split)
qed

lemma gen_blocks_upd:
  assumes "\<forall>b \<in> set bs. \<not> in_block (ga_dir args) (of_nat b) p"
  shows "gen_blocks X args vk bs st (d(p \<mapsto> v)) = map_disk (\<lambda>d. d(p \<mapsto> v)) (gen_blocks X args vk bs st d)"
  using assms
proof (induction bs arbitrary: st d)
  case Nil
  then show ?case by (simp add: map_disk_def)
next
  case (Cons b bs)
  then have "gen_block X args vk (of_nat b) st (d(p \<mapsto> v)) =
      map_disk (\<lambda>d. d(p \<mapsto> v)) (gen_block X args vk (of_nat b) st d)"
    by (intro gen_block_upd) simp
  then show ?case
    using map_disk_bind [of "gen_blocks X args vk bs" "\<lambda>d. d(p \<mapsto> v)"] Cons.IH Cons.prems
    by (simp del: fun_upd_apply)
qed

lemma gen_blocks_skip:
  "gen_blocks X args vk bs st d = Inr (st', d') \<Longrightarrow> skip_blocks args (length bs) st = Inr st'"
proof (induction bs arbitrary: st d)
  case (Cons b bs)
  obtain s seed where st: "st = (s, seed)" by (cases st)
  from Cons.prems obtain st1 d1 where b: "gen_block X args vk (of_nat b) (s, seed) d = Inr (st1, d1)"
    and "gen_blocks X args vk bs st1 d1 = Inr (st', d')" by (auto simp: io_bind_Inr st)
  then have rest: "skip_blocks args (length bs) st1 = Inr st'" using Cons.IH by simp
  from b show ?case
    by (rule gen_block_Inr) (use rest st in \<open>auto simp: native_run_Inr\<close>)
qed simp

lemma args_frame [simp]:
  "gen_block X (args\<lparr>ga_num_blocks := k\<rparr>) = gen_block X args"
  "gen_block X (args\<lparr>ga_resume_from := k\<rparr>) = gen_block X args"
  "gen_blocks X (args\<lparr>ga_num_blocks := k\<rparr>) vk bs = gen_blocks X args vk bs"
  "gen_blocks X (args\<lparr>ga_resume_from := k\<rparr>) vk bs = gen_blocks X args vk bs"
  "skip_blocks (args\<lparr>ga_num_blocks := k\<rparr>) j = skip_blocks args j"
  "skip_blocks (args\<lparr>ga_resume_from := k\<rparr>) j = skip_blocks args j"
proof -
  show b: "gen_block X (args\<lparr>ga_num_blocks := k\<rparr>) = gen_block X args"
    "gen_block X (args\<lparr>ga_resume_from := k\<rparr>) = gen_block X args"
    by (intro ext; simp add: gen_block_def block_meta_def)+
  show "gen_blocks X (args\<lparr>ga_num_blocks := k\<rparr>) vk bs = gen_blocks X args vk bs"
    "gen_blocks X (args\<lparr>ga_resume_from := k\<rparr>) vk bs = gen_blocks X args vk bs"
    by (induction bs; intro ext; simp add: b)+
  have "skip_blocks (args\<lparr>ga_num_blocks := k\<rparr>) j st = skip_blocks args j st"
    "skip_blocks (args\<lparr>ga_resume_from := k\<rparr>) j st = skip_blocks args j st" for st
    by (induction args j st rule: skip_blocks.induct) simp_all
  then show "skip_blocks (args\<lparr>ga_num_blocks := k\<rparr>) j = skip_blocks args j"
    "skip_blocks (args\<lparr>ga_resume_from := k\<rparr>) j = skip_blocks args j"
    by (simp_all add: fun_eq_iff)
qed

lemma not_in_block [simp]: "\<not> in_block dir b (dir @ [f])"
  by (simp add: in_block_def block_dir_def)

text \<open>The generator after its setup.\<close>

lemma gen_main_Inr:
  assumes "gen_main X args d = Inr (s, d')"
  obtains vk st st' d1 where
    "can_mkdir X (ga_dir args)" and "can_write_file X (ga_dir args @ [''ledger-program.elf''])"
    and "can_write_file X (ga_dir args @ [''manifest.json''])" and "sp1_setup X (ledger_elf X) = Some vk"
    and "skip_blocks args (unat (ga_resume_from args))
           (generate_initial_state (ga_num_accounts args) (ga_initial_balance args), 12345) = Inr st"
    and "gen_blocks X args vk [unat (ga_resume_from args)..<unat (ga_num_blocks args)] st
           (d(ga_dir args @ [''ledger-program.elf''] \<mapsto> ledger_elf X,
              ga_dir args @ [''manifest.json''] \<mapsto> ser_manifest X (gen_manifest args))) = Inr (st', d1)"
    and "s = fst st'" and "d' = d1(ga_dir args @ [''manifest.json''] \<mapsto> ser_manifest X (gen_manifest args))"
  using assms unfolding gen_main_def by (auto simp: io_Inr Let_def)

text \<open>
  \<^bold>\<open>C33\<close>. Resuming is sound: a run that stops after \<open>k\<close> blocks, followed by a run that
  resumes from \<open>k\<close>, has the same result as one run over all blocks, errors included, and
  leaves the same disk.
\<close>

theorem resume_equivalent:
  assumes first: "gen_main X (args\<lparr>ga_num_blocks := k, ga_resume_from := 0\<rparr>) d = Inr (s1, d1)"
    and "k \<le> ga_num_blocks args"
  shows "gen_main X (args\<lparr>ga_resume_from := k\<rparr>) d1 = gen_main X (args\<lparr>ga_resume_from := 0\<rparr>) d"
proof -
  let ?elf = "ga_dir args @ [''ledger-program.elf'']" and ?man = "ga_dir args @ [''manifest.json'']"
  let ?m = "\<lambda>k. ser_manifest X (gen_manifest (args\<lparr>ga_num_blocks := k\<rparr>))" and ?N = "ga_num_blocks args"
  let ?st0 = "(generate_initial_state (ga_num_accounts args) (ga_initial_balance args), 12345)"
  have man [simp]: "gen_manifest (args\<lparr>ga_num_blocks := j, ga_resume_from := i\<rparr>) = gen_manifest (args\<lparr>ga_num_blocks := j\<rparr>)"
    "gen_manifest (args\<lparr>ga_resume_from := i\<rparr>) = gen_manifest args" for i j
    by (simp_all add: gen_manifest_def)
  have N: "?m ?N = ser_manifest X (gen_manifest args)" by (simp add: gen_manifest_def)
  from first obtain vk st' d2 where ok: "can_mkdir X (ga_dir args)" "can_write_file X ?elf" "can_write_file X ?man"
      "sp1_setup X (ledger_elf X) = Some vk"
    and run: "gen_blocks X args vk [0..<unat k] ?st0 (d(?elf \<mapsto> ledger_elf X, ?man \<mapsto> ?m k)) = Inr (st', d2)"
    and d1: "d1 = d2(?man \<mapsto> ?m k)"
    by (rule gen_main_Inr) simp
  have run': "gen_blocks X args vk [0..<unat k] ?st0 (d(?elf \<mapsto> ledger_elf X, ?man \<mapsto> ?m ?N)) = Inr (st', d2(?man \<mapsto> ?m ?N))"
    using gen_blocks_upd [of "[0..<unat k]" args ?man X vk ?st0 "d(?elf \<mapsto> ledger_elf X, ?man \<mapsto> ?m k)" "?m ?N"] run
    by (simp add: map_disk_def)
  have skip: "skip_blocks args (unat k) ?st0 = Inr st'" using gen_blocks_skip [OF run] by simp
  have "d2 ?elf = Some (ledger_elf X)" using gen_blocks_frame [OF run, of ?elf] by simp
  then have disk: "d1(?elf \<mapsto> ledger_elf X, ?man \<mapsto> ?m ?N) = d2(?man \<mapsto> ?m ?N)"
    unfolding d1 by (auto simp: fun_eq_iff)
  have "[0..<unat ?N] = [0..<unat k] @ [unat k..<unat ?N]"
    using assms(2) upt_add_eq_append [of 0 "unat k" "unat ?N - unat k"] by (simp add: word_le_nat_alt)
  then have "gen_blocks X args vk [0..<unat ?N] ?st0 (d(?elf \<mapsto> ledger_elf X, ?man \<mapsto> ?m ?N)) =
      gen_blocks X args vk [unat k..<unat ?N] st' (d2(?man \<mapsto> ?m ?N))"
    using run' by (simp add: gen_blocks_append io_bind_def)
  then show ?thesis
    using ok skip disk unfolding gen_main_def N
    by (simp add: fs_write_def create_dir_all_def need_def io_bind_def Let_def)
qed

subsection \<open>Completion\<close>

text \<open>
  The surroundings work: disk and encoders never fail, and the proof system is complete, so that
  the guest program's result on any input it accepts has a proof that verifies.
\<close>

definition tools_ok :: "Toolchain \<Rightarrow> bytes \<Rightarrow> bool" where
  "tools_ok X vk \<longleftrightarrow>
     (\<forall>p. can_mkdir X p) \<and> (\<forall>p. can_write_file X p) \<and> (\<forall>txs. ser_txs X txs \<noteq> None) \<and>
     (\<forall>pf. ser_proof X pf \<noteq> None) \<and> sp1_setup X (ledger_elf X) = Some vk \<and>
     (\<forall>s txs c. guest_main (tool_sha X) s txs = Some c \<longrightarrow>
        (\<exists>pf. sp1_prove X (ledger_elf X) s txs = Some pf \<and> read_public_values X pf = Some c \<and> sp1_verify X pf vk))"

lemma accounts_ok_root:
  assumes "accounts_ok n s" and "unat n \<le> 2 ^ 31"
  shows "\<exists>root. compute_state_root sha s = Some root"
  using compute_state_root_mroot [of s sha] accounts_ok_len [OF assms(1)] assms(2) by auto

lemma generated_block:
  assumes "0 < n" and "unat n \<le> 2 ^ 31" and "accounts_ok n s"
  obtains txs seed' m where "generate_txs k n seed = Inr (txs, seed')" and "native_run sha s txs = Inr m"
    and "accounts_ok n (nat_state m)" and "nat_state m = fst (apply_block s txs)"
    and "guest_main sha s txs = Some \<lparr>pre_state_root = nat_pre m, post_state_root = nat_post m, tx_hash = nat_tx_hash m\<rparr>"
proof -
  obtain txs seed' where txs: "generate_txs k n seed = Inr (txs, seed')" "list_all (tx_in_range n) txs"
    using generate_loop_ok [OF assms(1), of "[]" "unat k" seed] by (auto simp: generate_txs_def)
  let ?s' = "fst (apply_block s txs)"
  have ok': "accounts_ok n ?s'" using accounts_ok_apply_txs [OF assms(3) txs(2)] by (simp add: apply_block_def)
  obtain pre post where "compute_state_root sha s = Some pre" "compute_state_root sha ?s' = Some post"
    using accounts_ok_root [OF assms(3,2)] accounts_ok_root [OF ok' assms(2)] by metis
  then show ?thesis
    using that [OF txs(1), of "\<lparr>nat_pre = pre, nat_state = ?s', nat_applied = snd (apply_block s txs), nat_post = post,
      nat_tx_hash = hash_transactions sha txs\<rparr>"] ok'
    by (simp add: native_run_Inr guest_main_def Let_def)
qed

lemma gen_block_completes:
  assumes "tools_ok X vk" and "0 < ga_num_accounts args" and "unat (ga_num_accounts args) \<le> 2 ^ 31"
    and "accounts_ok (ga_num_accounts args) s"
  shows "\<exists>txs seed' d'. gen_block X args vk b (s, seed) d = Inr ((fst (apply_block s txs), seed'), d') \<and>
    accounts_ok (ga_num_accounts args) (fst (apply_block s txs))"
proof -
  obtain txs seed' m where g: "generate_txs (ga_num_txs args) (ga_num_accounts args) seed = Inr (txs, seed')"
    and m: "native_run (tool_sha X) s txs = Inr m" "accounts_ok (ga_num_accounts args) (nat_state m)"
      "nat_state m = fst (apply_block s txs)"
    and c: "guest_main (tool_sha X) s txs = Some \<lparr>pre_state_root = nat_pre m, post_state_root = nat_post m, tx_hash = nat_tx_hash m\<rparr>"
    by (rule generated_block [OF assms(2-4)])
  obtain pf where "sp1_prove X (ledger_elf X) s txs = Some pf" "sp1_verify X pf vk"
    "read_public_values X pf = Some \<lparr>pre_state_root = nat_pre m, post_state_root = nat_post m, tx_hash = nat_tx_hash m\<rparr>"
    using assms(1) c unfolding tools_ok_def by blast
  moreover obtain tb pb where "ser_txs X txs = Some tb" "ser_proof X pf = Some pb"
    using assms(1) unfolding tools_ok_def by blast
  moreover have "can_mkdir X p" "can_write_file X p" for p using assms(1) by (simp_all add: tools_ok_def)
  ultimately show ?thesis
    using g m by (auto simp: gen_block_def Let_def io_bind_def create_dir_all_def fs_write_def need_def ensure_def
        commit_matches_def)
qed

lemma gen_blocks_completes:
  assumes "tools_ok X vk" and "0 < ga_num_accounts args" and "unat (ga_num_accounts args) \<le> 2 ^ 31"
    and "accounts_ok (ga_num_accounts args) (fst st)" and "total_supply (fst st) < 2 ^ 64"
  shows "\<exists>st' d'. gen_blocks X args vk bs st d = Inr (st', d') \<and> accounts_ok (ga_num_accounts args) (fst st') \<and>
    total_supply (fst st') = total_supply (fst st)"
  using assms(4,5)
proof (induction bs arbitrary: st d)
  case (Cons b bs)
  obtain s seed where st: "st = (s, seed)" by (cases st)
  obtain txs seed' d1 where b: "gen_block X args vk (of_nat b) (s, seed) d = Inr ((fst (apply_block s txs), seed'), d1)"
    "accounts_ok (ga_num_accounts args) (fst (apply_block s txs))"
    using gen_block_completes [OF assms(1-3), of s "of_nat b" seed d] Cons.prems(1) st by auto
  have "total_supply (fst (apply_block s txs)) = total_supply s"
    using Cons.prems st by (simp add: apply_block_def apply_txs_supply accounts_ok_def)
  then show ?case
    using Cons.IH [of "(fst (apply_block s txs), seed')" d1] b Cons.prems(2) st by (simp add: io_bind_def)
qed simp

lemma gen_main_completes:
  assumes "tools_ok X vk" and "0 < ga_num_accounts args" and "unat (ga_num_accounts args) \<le> 2 ^ 31"
    and "unat (ga_num_accounts args) * unat (ga_initial_balance args) < 2 ^ 64" and "ga_resume_from args = 0"
  shows "\<exists>s d'. gen_main X args d = Inr (s, d') \<and> accounts_ok (ga_num_accounts args) s \<and>
    total_supply s = unat (ga_num_accounts args) * unat (ga_initial_balance args)"
proof -
  let ?s0 = "generate_initial_state (ga_num_accounts args) (ga_initial_balance args)"
  have "can_mkdir X p" "can_write_file X p" "sp1_setup X (ledger_elf X) = Some vk" for p
    using assms(1) by (simp_all add: tools_ok_def)
  moreover have "\<exists>st' d'. gen_blocks X args vk bs (?s0, 12345) d = Inr (st', d') \<and>
      accounts_ok (ga_num_accounts args) (fst st') \<and> total_supply (fst st') = total_supply ?s0" for bs d
    using gen_blocks_completes [OF assms(1-3), of "(?s0, 12345)" bs d] assms(4)
    by (simp add: accounts_ok_initial supply_initial)
  ultimately show ?thesis
    using assms(5)
    by (fastforce simp: gen_main_def Let_def io_bind_def create_dir_all_def fs_write_def need_def supply_initial
        sum_bind_Inr_iff)
qed


end
