(* ===== verification/Reexecution.thy ===== *)
theory Reexecution
  imports Execution
begin

text \<open>
  Execution correctness of a re-executing node: whatever messages and timers it receives, its live
  state is the initial state after the workload's blocks 0, 1, 2, ... up to the last executed
  height, and it executes each height once and in order.
\<close>

subsection \<open>Reference: replaying the workload\<close>

definition block_txs :: "Platform \<Rightarrow> Workload \<Rightarrow> nat \<Rightarrow> Tx list option" where
  "block_txs P wl k =
     (case block P wl (of_nat k) of
        Inl e \<Rightarrow> None
      | Inr b \<Rightarrow> (case fs_read P (b_txs_path b) of None \<Rightarrow> None | Some bs \<Rightarrow> de_txs P bs))"

fun replay :: "Platform \<Rightarrow> Workload \<Rightarrow> State \<Rightarrow> nat \<Rightarrow> State option" where
  "replay P wl s0 0 = Some s0"
| "replay P wl s0 (Suc k) =
     (case replay P wl s0 k of
        None \<Rightarrow> None
      | Some s \<Rightarrow> map_option (\<lambda>txs. fst (apply_block s txs)) (block_txs P wl k))"

subsection \<open>The invariant\<close>

definition request_ok :: "Wiring \<Rightarrow> State \<Rightarrow> Replica \<Rightarrow> ValidateRequest \<times> State \<Rightarrow> bool" where
  "request_ok w s0 r q \<longleftrightarrow>
     (case q of (req, s) \<Rightarrow>
        \<exists>nd b. hm_get (tree r) (req_node_hash req) = Some nd \<and>
          block (plat w) (workload w) (n_height nd) = Inr b \<and> req_txs_path req = b_txs_path b \<and>
          (last_executed_height r < uint (n_height nd) \<longrightarrow>
             replay (plat w) (workload w) s0 (unat (n_height nd)) = Some s))"

definition outcome_ok :: "Wiring \<Rightarrow> State \<Rightarrow> Replica \<Rightarrow> ValidateOutcome \<Rightarrow> bool" where
  "outcome_ok w s0 r out \<longleftrightarrow>
     (\<exists>nd b. hm_get (tree r) (out_node_hash out) = Some nd \<and>
        block (plat w) (workload w) (n_height nd) = Inr b \<and>
        out_pre_root out = None \<and> (out_valid out \<longrightarrow> out_post_state out \<noteq> None) \<and>
        (\<forall>ps. out_post_state out = Some ps \<longrightarrow> last_executed_height r < uint (n_height nd) \<longrightarrow>
           replay (plat w) (workload w) s0 (Suc (unat (n_height nd))) = Some ps))"

definition exec_inv :: "Wiring \<Rightarrow> State \<Rightarrow> Replica \<Rightarrow> bool" where
  "exec_inv w s0 r \<longleftrightarrow>
     - 1 \<le> last_executed_height r \<and>
     replay (plat w) (workload w) s0 (nat (last_executed_height r + 1)) = Some (live_state r) \<and>
     executed (outbox r) = [0..last_executed_height r] \<and>
     stored w r \<and>
     pre_root_by_node r = hm_empty \<and>
     (\<forall>h ps. hm_get (post_state_by_node r) h = Some ps \<longrightarrow>
        (\<exists>nd. hm_get (tree r) h = Some nd \<and>
           (last_executed_height r < uint (n_height nd) \<longrightarrow>
              replay (plat w) (workload w) s0 (Suc (unat (n_height nd))) = Some ps))) \<and>
     (\<forall>h valid. hm_get (validation_result r) h = Some valid \<longrightarrow>
        (\<exists>nd b. hm_get (tree r) h = Some nd \<and> block (plat w) (workload w) (n_height nd) = Inr b \<and>
           (valid \<longrightarrow> last_executed_height r < uint (n_height nd) \<longrightarrow> hm_get (post_state_by_node r) h \<noteq> None))) \<and>
     (\<forall>q \<in> set (val_queue r). request_ok w s0 r q)"

declare replay.simps(2) [simp del]

lemma exec_invD:
  assumes "exec_inv w s0 r"
  shows "- 1 \<le> last_executed_height r"
    and "replay (plat w) (workload w) s0 (nat (last_executed_height r + 1)) = Some (live_state r)"
    and "executed (outbox r) = [0..last_executed_height r]"
    and "pre_root_by_node r = hm_empty"
    and "hm_get (tree r) h = Some nd \<Longrightarrow> node_hash (env w) nd = h"
    and "hm_get (tree r) h = Some nd \<Longrightarrow> Known nd \<in> set (history r)"
    and "q \<in> set (val_queue r) \<Longrightarrow> request_ok w s0 r q"
    and "hm_get (post_state_by_node r) h = Some ps \<Longrightarrow> hm_get (tree r) h = Some nd \<Longrightarrow>
      last_executed_height r < uint (n_height nd) \<Longrightarrow>
      replay (plat w) (workload w) s0 (Suc (unat (n_height nd))) = Some ps"
    and "hm_get (validation_result r) h = Some True \<Longrightarrow> hm_get (tree r) h = Some nd \<Longrightarrow>
      last_executed_height r < uint (n_height nd) \<Longrightarrow> hm_get (post_state_by_node r) h \<noteq> None"
    and "hm_get (validation_result r) h = Some valid \<Longrightarrow> hm_get (tree r) h = Some nd \<Longrightarrow>
      \<exists>b. block (plat w) (workload w) (n_height nd) = Inr b"
  using assms unfolding exec_inv_def stored_def by fastforce+

lemma exec_inv_validated:
  assumes "exec_inv w s0 r" and "hm_get (validation_result r) h = Some v"
  obtains nd b where "hm_get (tree r) h = Some nd" and "block (plat w) (workload w) (n_height nd) = Inr b"
    and "v \<longrightarrow> last_executed_height r < uint (n_height nd) \<longrightarrow> hm_get (post_state_by_node r) h \<noteq> None"
  using assms unfolding exec_inv_def by meson

lemma exec_inv_post:
  assumes "exec_inv w s0 r" and "hm_get (post_state_by_node r) h = Some ps"
  obtains nd where "hm_get (tree r) h = Some nd"
    and "last_executed_height r < uint (n_height nd) \<longrightarrow>
         replay (plat w) (workload w) s0 (Suc (unat (n_height nd))) = Some ps"
  using assms unfolding exec_inv_def by meson

lemma exec_inv_ecore:
  assumes "ecore r' = ecore r" and "set (history r) \<subseteq> set (history r')" and "exec_inv w s0 r"
  shows "exec_inv w s0 r'"
  using assms unfolding exec_inv_def ecore_def request_ok_def stored_def by (auto split: prod.splits)

subsection \<open>The primitive updates\<close>

lemma exec_inv_insert:
  assumes inv: "exec_inv w s0 r" and ok: "nodes_ok (env w) (history (tree_insert (node_hash (env w) nd) nd r))"
  shows "exec_inv w s0 (tree_insert (node_hash (env w) nd) nd r)"
proof -
  let ?r = "tree_insert (node_hash (env w) nd) nd r"
  have st: "stored w r" using inv by (simp add: exec_inv_def)
  have keep: "hm_get (tree r) h = Some nd' \<Longrightarrow> hm_get (tree ?r) h = Some nd'" for h nd'
    using tree_insert_keeps(1) [OF st ok] by (metis map_le_def domI)
  have same: "last_executed_height ?r = last_executed_height r \<and> live_state ?r = live_state r \<and> outbox ?r = outbox r \<and>
      pre_root_by_node ?r = pre_root_by_node r \<and> post_state_by_node ?r = post_state_by_node r \<and>
      validation_result ?r = validation_result r \<and> val_queue ?r = val_queue r"
    by (simp add: tree_insert_def)
  have "request_ok w s0 ?r q" if "q \<in> set (val_queue r)" for q
  proof -
    have "request_ok w s0 r q" using inv that by (simp add: exec_inv_def)
    then show ?thesis using keep same by (auto simp: request_ok_def split: prod.splits)
  qed
  moreover have "\<exists>nd. hm_get (tree ?r) h = Some nd \<and>
      (last_executed_height r < uint (n_height nd) \<longrightarrow>
         replay (plat w) (workload w) s0 (Suc (unat (n_height nd))) = Some ps)"
    if "hm_get (post_state_by_node r) h = Some ps" for h ps
    using inv that keep unfolding exec_inv_def by meson
  moreover have "\<exists>nd b. hm_get (tree ?r) h = Some nd \<and> block (plat w) (workload w) (n_height nd) = Inr b \<and>
      (valid \<longrightarrow> last_executed_height r < uint (n_height nd) \<longrightarrow> hm_get (post_state_by_node r) h \<noteq> None)"
    if "hm_get (validation_result r) h = Some valid" for h valid
    using inv that keep unfolding exec_inv_def by meson
  ultimately show ?thesis
    using inv same tree_insert_keeps(2) [OF st ok] unfolding exec_inv_def by simp
qed

text \<open>The snapshot a request is sent with is the state before its block.\<close>

lemma kick_input_replay:
  assumes inv: "exec_inv w s0 r" and ok: "nodes_ok (env w) (history r)"
    and nd: "hm_get (tree r) h = Some nd" and b: "block (plat w) (workload w) (n_height nd) = Inr b"
    and s: "kick_input r nd = Some s" and above: "last_executed_height r < uint (n_height nd)"
  shows "replay (plat w) (workload w) s0 (unat (n_height nd)) = Some s"
proof (cases "n_parent nd = GENESIS_HASH")
  case True
  then have "last_executed_height r = - 1" and "s = live_state r"
    using s exec_invD(1) [OF inv] by (auto simp: kick_input_def split: if_splits)
  then show ?thesis
    using exec_invD(2) [OF inv] nodes_okD(2) [OF ok exec_invD(6) [OF inv nd] True] by simp
next
  case False
  then obtain p where p: "hm_get (tree r) (n_parent nd) = Some p"
    and s': "if sint (n_height p) \<le> last_executed_height r then s = live_state r
             else hm_get (post_state_by_node r) (n_parent nd) = Some s"
    using s by (auto simp: kick_input_def split: option.splits if_splits)
  have k: "unat (n_height nd) = unat (n_height p) + 1"
    by (rule nodes_okD(3) [OF ok exec_invD(6) [OF inv nd] exec_invD(6) [OF inv p] False exec_invD(5) [OF inv p]])
  then have "unat (n_height p) < 2 ^ 32" using block_small [OF b] by simp
  note hp = sint_small [OF this] and hn = sint_small [OF block_small [OF b]]
  show ?thesis
  proof (cases "sint (n_height p) \<le> last_executed_height r")
    case True
    then have "last_executed_height r + 1 = int (unat (n_height nd))"
      using above hp hn k by linarith
    then have "nat (last_executed_height r + 1) = unat (n_height nd)" by linarith
    then show ?thesis using exec_invD(2) [OF inv] s' True by simp
  next
    case False
    then have "hm_get (post_state_by_node r) (n_parent nd) = Some s" "last_executed_height r < uint (n_height p)"
      using s' hp(1) by simp_all
    from exec_invD(8) [OF inv this(1) p this(2)] k show ?thesis by simp
  qed
qed

lemma exec_inv_kick:
  assumes inv: "exec_inv w s0 r" and ok: "nodes_ok (env w) (history r)"
  shows "exec_inv w s0 (out_state (maybe_kick_validation w h r))"
proof (cases rule: kick_cases [of w h r])
  case idle
  then show ?thesis using inv by simp
next
  case (sent nd b s)
  let ?q = "(\<lparr>req_node_hash = h, req_height = n_height nd, req_txs_path = b_txs_path b,
    req_proof_path = b_proof_path b, req_txs_total = txs_total (b_meta b)\<rparr>, s)"
  have "request_ok w s0 r ?q"
    using kick_input_replay [OF inv ok sent(1-3)] sent(1,2) by (simp add: request_ok_def)
  then have "exec_inv w s0 (r\<lparr>val_queue := val_queue r @ [?q]\<rparr>)"
    using inv by (auto simp: exec_inv_def request_ok_def stored_def)
  then show ?thesis using exec_inv_ecore [OF sent(4), of w s0] by simp
qed

subsection \<open>Executing a node\<close>

lemma request_ok_raise:
  assumes "request_ok w s0 r q" and "tree r' = tree r" and "last_executed_height r \<le> last_executed_height r'"
  shows "request_ok w s0 r' q"
  using assms by (force simp: request_ok_def split: prod.splits)

lemma execute_node_state:
  assumes inv: "exec_inv w s0 r"
    and nd: "hm_get (tree r) nh = Some nd" and h: "sint (n_height nd) = last_executed_height r + 1"
    and valid: "hm_get (validation_result r) nh = Some True"
  obtains ps where "sint (n_height nd) = uint (n_height nd)"
    and "replay (plat w) (workload w) s0 (nat (last_executed_height r + 2)) = Some ps"
    and "out_state (execute_node w nh nd r) =
      log_event (rs_view r) ''execute'' [(''height'', JNum (uint (n_height nd))), (''node_hash'', JHex nh)]
        (r\<lparr>post_state_by_node := hm_remove nh (post_state_by_node r), live_state := ps,
           last_executed_height := sint (n_height nd)\<rparr>)"
proof -
  obtain b where "block (plat w) (workload w) (n_height nd) = Inr b"
    using exec_invD(10) [OF inv valid nd] by blast
  note small = sint_small [OF block_small [OF this]]
  have above: "last_executed_height r < uint (n_height nd)" using h small(1) by linarith
  obtain ps where ps: "hm_get (post_state_by_node r) nh = Some ps"
    using exec_invD(9) [OF inv valid nd above] by auto
  have "nat (last_executed_height r + 2) = Suc (unat (n_height nd))" using h small by linarith
  then show ?thesis
    using that [OF small(1)] exec_invD(8) [OF inv ps nd above] ps exec_invD(4) [OF inv]
    by (simp add: execute_node_def take_post_state_def Let_def)
qed

lemma exec_inv_execute:
  assumes inv: "exec_inv w s0 r"
    and nd: "hm_get (tree r) nh = Some nd" and h: "sint (n_height nd) = last_executed_height r + 1"
    and valid: "hm_get (validation_result r) nh = Some True"
  shows "exec_inv w s0 (out_state (execute_node w nh nd r))"
proof -
  let ?r = "out_state (execute_node w nh nd r)"
  have hist: "history ?r = history r" "last_executed_height r \<le> last_executed_height ?r" "tree ?r = tree r"
    using execute_node_height [OF h] by simp_all
  obtain ps where small: "sint (n_height nd) = uint (n_height nd)"
    and ps: "replay (plat w) (workload w) s0 (nat (last_executed_height r + 2)) = Some ps"
    and eq: "?r = log_event (rs_view r) ''execute'' [(''height'', JNum (uint (n_height nd))), (''node_hash'', JHex nh)]
      (r\<lparr>post_state_by_node := hm_remove nh (post_state_by_node r), live_state := ps,
         last_executed_height := sint (n_height nd)\<rparr>)"
    by (rule execute_node_state [OF assms])
  have "replay (plat w) (workload w) s0 (nat (last_executed_height ?r + 1)) = Some (live_state ?r)"
    using ps h by (simp add: eq add.commute)
  moreover have "executed (outbox ?r) = [0..last_executed_height ?r]"
    using exec_invD(1,3) [OF inv] h small by (simp add: eq upto_rec2)
  moreover have "request_ok w s0 ?r q" if "q \<in> set (val_queue ?r)" for q
    by (rule request_ok_raise [OF exec_invD(7) [OF inv] hist(3,2)]) (use that in \<open>simp add: eq\<close>)
  moreover have "\<exists>nd' b. hm_get (tree ?r) h' = Some nd' \<and> block (plat w) (workload w) (n_height nd') = Inr b \<and>
      (v \<longrightarrow> last_executed_height ?r < uint (n_height nd') \<longrightarrow> hm_get (post_state_by_node ?r) h' \<noteq> None)"
    if v: "hm_get (validation_result ?r) h' = Some v" for h' v
  proof -
    have "hm_get (validation_result r) h' = Some v" using v by (simp add: eq)
    then obtain nd' b'
      where "hm_get (tree r) h' = Some nd'" "block (plat w) (workload w) (n_height nd') = Inr b'"
        "v \<longrightarrow> last_executed_height r < uint (n_height nd') \<longrightarrow> hm_get (post_state_by_node r) h' \<noteq> None"
      by (rule exec_inv_validated [OF inv])
    then show ?thesis using nd small h by (auto simp: eq)
  qed
  moreover have "\<exists>nd'. hm_get (tree ?r) h' = Some nd' \<and> (last_executed_height ?r < uint (n_height nd') \<longrightarrow>
      replay (plat w) (workload w) s0 (Suc (unat (n_height nd'))) = Some ps')"
    if v: "hm_get (post_state_by_node ?r) h' = Some ps'" for h' ps'
  proof -
    have "hm_get (post_state_by_node r) h' = Some ps'" using v by (simp add: eq split: if_splits)
    then obtain nd' where "hm_get (tree r) h' = Some nd'"
      "last_executed_height r < uint (n_height nd') \<longrightarrow>
       replay (plat w) (workload w) s0 (Suc (unat (n_height nd'))) = Some ps'"
      by (rule exec_inv_post [OF inv])
    then show ?thesis using h by (auto simp: eq)
  qed
  moreover have "- 1 \<le> last_executed_height ?r" using exec_invD(1) [OF inv] hist(2) by linarith
  moreover have "pre_root_by_node ?r = hm_empty" using exec_invD(4) [OF inv] by (simp add: eq)
  moreover have "stored w ?r" using inv by (simp add: exec_inv_def stored_def)
  ultimately show ?thesis unfolding exec_inv_def by blast
qed

subsection \<open>The validator worker\<close>

lemma exec_ingest:
  assumes inv: "exec_inv w s0 r" and out: "outcome_ok w s0 r out"
  shows "exec_inv w s0 (ingest_validation out r)"
proof -
  obtain nd b where nd: "hm_get (tree r) (out_node_hash out) = Some nd" "block (plat w) (workload w) (n_height nd) = Inr b"
    and pre: "out_pre_root out = None" and has: "out_valid out \<longrightarrow> out_post_state out \<noteq> None"
    and post: "\<forall>ps. out_post_state out = Some ps \<longrightarrow> last_executed_height r < uint (n_height nd) \<longrightarrow>
      replay (plat w) (workload w) s0 (Suc (unat (n_height nd))) = Some ps"
    using out unfolding outcome_ok_def by blast
  let ?r = "ingest_validation out r"
  have same: "last_executed_height ?r = last_executed_height r" "live_state ?r = live_state r" "outbox ?r = outbox r"
    "tree ?r = tree r" "history ?r = history r" "pre_root_by_node ?r = pre_root_by_node r" "val_queue ?r = val_queue r"
    "validation_result ?r = hm_insert (out_node_hash out) (out_valid out) (validation_result r)"
    "post_state_by_node ?r = (case out_post_state out of None \<Rightarrow> post_state_by_node r
       | Some ps \<Rightarrow> hm_insert (out_node_hash out) ps (post_state_by_node r))"
    using pre by (simp_all add: ingest_validation_def Let_def split: option.splits)
  have "request_ok w s0 ?r q" if "q \<in> set (val_queue r)" for q
    by (rule request_ok_raise [OF exec_invD(7) [OF inv that]]) (simp_all add: same)
  moreover have "\<exists>nd. hm_get (tree r) h = Some nd \<and> (last_executed_height r < uint (n_height nd) \<longrightarrow>
      replay (plat w) (workload w) s0 (Suc (unat (n_height nd))) = Some ps)"
    if "hm_get (post_state_by_node ?r) h = Some ps" for h ps
    using that nd post exec_inv_post [OF inv, of h ps]
    by (cases "out_post_state out") (auto simp: same split: if_splits)
  moreover have "\<exists>nd b. hm_get (tree r) h = Some nd \<and> block (plat w) (workload w) (n_height nd) = Inr b \<and>
      (v \<longrightarrow> last_executed_height r < uint (n_height nd) \<longrightarrow> hm_get (post_state_by_node ?r) h \<noteq> None)"
    if v: "hm_get (validation_result ?r) h = Some v" for h v
  proof (cases "h = out_node_hash out")
    case True
    then show ?thesis using v nd has by (auto simp: same split: option.splits)
  next
    case False
    then have "hm_get (validation_result r) h = Some v" using v by (simp add: same)
    then obtain nd' b' where "hm_get (tree r) h = Some nd'" "block (plat w) (workload w) (n_height nd') = Inr b'"
      "v \<longrightarrow> last_executed_height r < uint (n_height nd') \<longrightarrow> hm_get (post_state_by_node r) h \<noteq> None"
      by (rule exec_inv_validated [OF inv])
    then show ?thesis using False by (auto simp: same split: option.splits)
  qed
  moreover have "stored w ?r" using inv by (simp add: exec_inv_def stored_def)
  ultimately show ?thesis
    using inv unfolding exec_inv_def same(1-7) by blast
qed

lemma run_validation_outcome:
  assumes req: "request_ok w s0 r (req, s)" and run: "run_validation (plat w) req s (Reexecute d) = Inr out"
  shows "outcome_ok w s0 r out"
proof -
  obtain nd b where nd: "hm_get (tree r) (req_node_hash req) = Some nd"
    "block (plat w) (workload w) (n_height nd) = Inr b" "req_txs_path req = b_txs_path b"
    and s: "last_executed_height r < uint (n_height nd) \<longrightarrow>
      replay (plat w) (workload w) s0 (unat (n_height nd)) = Some s"
    using req by (auto simp: request_ok_def)
  have "replay (plat w) (workload w) s0 (Suc (unat (n_height nd))) = Some ps"
    if "out_post_state out = Some ps" "last_executed_height r < uint (n_height nd)" for ps
    using that run s nd
    by (auto simp: replay.simps(2) block_txs_def invalid_outcome_def split: option.splits)
  then show ?thesis
    using run nd by (auto simp: outcome_ok_def invalid_outcome_def split: option.splits)
qed

lemma outcome_ok_step:
  assumes "outcome_ok w s0 r out" and "hm_get (tree r) \<subseteq>\<^sub>m hm_get (tree r')"
    and "last_executed_height r \<le> last_executed_height r'"
  shows "outcome_ok w s0 r' out"
proof -
  have "hm_get (tree r) h = Some nd \<Longrightarrow> hm_get (tree r') h = Some nd" for h nd
    using assms(2) by (metis map_le_def domI)
  then show ?thesis using assms(1,3) unfolding outcome_ok_def by (meson order_le_less_trans)
qed

interpretation reexec: exec_mode "\<lambda>w. exec_inv w s0" "\<lambda>w. outcome_ok w s0" "Reexecute d" s0 for s0 d
proof
  fix w :: Wiring and r :: Replica and n t f g
  show "exec_inv w s0 (Replica_new n t s0)"
    by (simp add: exec_inv_def stored_def Replica_new_def ReplicaState_new_def ReplicaState.defs Replica.defs executed_def)
  show "exec_inv (reorder f g w) s0 r = exec_inv w s0 r"
    by (simp add: exec_inv_def request_ok_def stored_def)
  show "exec_inv w s0 r \<Longrightarrow> stored w r" by (simp add: exec_inv_def)
next
  fix w :: Wiring and r r' :: Replica and out
  assume inv: "exec_inv w s0 r" and "worker_step w (Reexecute d) r = Some (r', Inr out)"
  then obtain req s rest where q: "val_queue r = (req, s) # rest" "r' = r\<lparr>val_queue := rest\<rparr>"
    "run_validation (plat w) req s (Reexecute d) = Inr out"
    by (auto simp: worker_step_def split: list.splits)
  have "request_ok w s0 r (req, s)" using exec_invD(7) [OF inv] q(1) by simp
  then have "outcome_ok w s0 r out" by (rule run_validation_outcome [OF _ q(3)])
  moreover have "exec_inv w s0 r'" using inv q(1,2) by (simp add: exec_inv_def request_ok_def stored_def)
  ultimately show "exec_inv w s0 r' \<and> outcome_ok w s0 r out" by simp
qed (rule exec_inv_ecore exec_inv_insert exec_inv_kick exec_inv_execute exec_ingest outcome_ok_step; assumption)+

lemma node_run_replay:
  assumes "node_run w n s0 (Reexecute d) r os" and "nodes_ok (env w) (history r)"
  shows "replay (plat w) (workload w) s0 (nat (last_executed_height r + 1)) = Some (live_state r)"
    and "executed (outbox r) = [0..last_executed_height r]"
  using reexec.run_keeps [OF assms] exec_invD(2,3) by blast+


end
