(* ===== verification/Proof_Chain.thy ===== *)
theory Proof_Chain
  imports Execution
begin

text \<open>
  Execution correctness of a verifying node: it keeps no ledger, only the root it has reached. In
  every run that root is the post-state root of the last executed block's proof, each executed
  block has a proof that verifies, and the proofs are linked, each one starting from the root
  the one before ended in. The first block's pre-state root is not compared with anything.
\<close>

subsection \<open>Reference: the chain of proofs\<close>

definition proof_commit :: "Platform \<Rightarrow> Workload \<Rightarrow> bytes \<Rightarrow> nat \<Rightarrow> BlockCommit option" where
  "proof_commit P wl vkey k =
     (case block P wl (of_nat k) of
        Inl e \<Rightarrow> None
      | Inr b \<Rightarrow>
          (case fs_read P (b_proof_path b) of
             None \<Rightarrow> None
           | Some bs \<Rightarrow>
               (case de_proof P bs of
                  None \<Rightarrow> None
                | Some pf \<Rightarrow> if sp1_verify P pf vkey then read_public_values P pf else None)))"

fun chain_root :: "Platform \<Rightarrow> Workload \<Rightarrow> bytes \<Rightarrow> nat \<Rightarrow> digest option" where
  "chain_root P wl vkey 0 = Some 0"
| "chain_root P wl vkey (Suc k) =
     (case chain_root P wl vkey k of
        None \<Rightarrow> None
      | Some root \<Rightarrow>
          (case proof_commit P wl vkey k of
             None \<Rightarrow> None
           | Some c \<Rightarrow> if k = 0 \<or> pre_state_root c = root then Some (post_state_root c) else None))"

declare chain_root.simps(2) [simp del]

subsection \<open>The invariant\<close>

text \<open>
  A verifying node has no post-states, so it validates a block only when the parent is executed.
\<close>

definition parent_done :: "Replica \<Rightarrow> Node \<Rightarrow> bool" where
  "parent_done r nd \<longleftrightarrow> n_parent nd = GENESIS_HASH \<or>
     (\<exists>np. hm_get (tree r) (n_parent nd) = Some np \<and> sint (n_height np) \<le> last_executed_height r)"

lemma parent_done_mono:
  assumes "parent_done r nd" and "hm_get (tree r) \<subseteq>\<^sub>m hm_get (tree r')"
    and "last_executed_height r \<le> last_executed_height r'"
  shows "parent_done r' nd"
  using assms unfolding parent_done_def map_le_def by (metis domI order_trans)

lemma parent_done_queue [simp]: "parent_done (r\<lparr>val_queue := q\<rparr>) nd = parent_done r nd"
  by (simp add: parent_done_def)

definition proof_request :: "Wiring \<Rightarrow> Replica \<Rightarrow> ValidateRequest \<times> State \<Rightarrow> bool" where
  "proof_request w r q \<longleftrightarrow>
     (\<exists>nd b. hm_get (tree r) (req_node_hash (fst q)) = Some nd \<and>
        block (plat w) (workload w) (n_height nd) = Inr b \<and> req_proof_path (fst q) = b_proof_path b \<and> parent_done r nd)"

definition roots_ok :: "Wiring \<Rightarrow> bytes \<Rightarrow> Replica \<Rightarrow> digest \<Rightarrow> Node \<Rightarrow> bool" where
  "roots_ok w vkey r h nd \<longleftrightarrow>
     (\<exists>c. proof_commit (plat w) (workload w) vkey (unat (n_height nd)) = Some c \<and>
        hm_get (pre_root_by_node r) h = Some (pre_state_root c) \<and>
        hm_get (post_root_by_node r) h = Some (post_state_root c))"

definition proof_answer :: "Wiring \<Rightarrow> bytes \<Rightarrow> Replica \<Rightarrow> ValidateOutcome \<Rightarrow> bool" where
  "proof_answer w vkey r out \<longleftrightarrow>
     (\<exists>nd b. hm_get (tree r) (out_node_hash out) = Some nd \<and>
        block (plat w) (workload w) (n_height nd) = Inr b \<and> out_post_state out = None \<and> parent_done r nd \<and>
        (out_valid out \<longrightarrow>
           (\<exists>c. proof_commit (plat w) (workload w) vkey (unat (n_height nd)) = Some c \<and>
              out_pre_root out = Some (pre_state_root c) \<and> out_post_root out = Some (post_state_root c))))"

definition proof_inv :: "Wiring \<Rightarrow> bytes \<Rightarrow> Replica \<Rightarrow> bool" where
  "proof_inv w vkey r \<longleftrightarrow>
     - 1 \<le> last_executed_height r \<and>
     chain_root (plat w) (workload w) vkey (nat (last_executed_height r + 1)) = Some (chained_root r) \<and>
     executed (outbox r) = [0..last_executed_height r] \<and>
     stored w r \<and>
     post_state_by_node r = hm_empty \<and>
     (\<forall>h valid. hm_get (validation_result r) h = Some valid \<longrightarrow>
        (\<exists>nd b. hm_get (tree r) h = Some nd \<and> block (plat w) (workload w) (n_height nd) = Inr b \<and> parent_done r nd \<and>
           (valid \<longrightarrow> last_executed_height r < uint (n_height nd) \<longrightarrow> roots_ok w vkey r h nd))) \<and>
     (\<forall>q \<in> set (val_queue r). proof_request w r q)"

lemma proof_invD:
  assumes "proof_inv w vkey r"
  shows "- 1 \<le> last_executed_height r"
    and "chain_root (plat w) (workload w) vkey (nat (last_executed_height r + 1)) = Some (chained_root r)"
    and "executed (outbox r) = [0..last_executed_height r]" and "stored w r" and "post_state_by_node r = hm_empty"
    and "q \<in> set (val_queue r) \<Longrightarrow> proof_request w r q"
  using assms unfolding proof_inv_def by simp_all

lemma proof_inv_validated:
  assumes "proof_inv w vkey r" and "hm_get (validation_result r) h = Some v"
  obtains nd b where "hm_get (tree r) h = Some nd" and "block (plat w) (workload w) (n_height nd) = Inr b"
    and "parent_done r nd" and "v \<longrightarrow> last_executed_height r < uint (n_height nd) \<longrightarrow> roots_ok w vkey r h nd"
  using assms unfolding proof_inv_def by meson

lemma proof_inv_ecore:
  assumes "ecore r' = ecore r" and "set (history r) \<subseteq> set (history r')" and "proof_inv w vkey r"
  shows "proof_inv w vkey r'"
  using assms unfolding proof_inv_def ecore_def proof_request_def stored_def roots_ok_def parent_done_def by auto

subsection \<open>The primitive updates\<close>

lemma proof_inv_insert:
  assumes inv: "proof_inv w vkey r" and ok: "nodes_ok (env w) (history (tree_insert (node_hash (env w) nd) nd r))"
  shows "proof_inv w vkey (tree_insert (node_hash (env w) nd) nd r)"
proof -
  let ?r = "tree_insert (node_hash (env w) nd) nd r"
  have keep: "hm_get (tree r) h = Some nd' \<Longrightarrow> hm_get (tree ?r) h = Some nd'" for h nd'
    using tree_insert_keeps(1) [OF proof_invD(4) [OF inv] ok] by (metis map_le_def domI)
  have same: "last_executed_height ?r = last_executed_height r \<and> chained_root ?r = chained_root r \<and> outbox ?r = outbox r \<and>
      pre_root_by_node ?r = pre_root_by_node r \<and> post_root_by_node ?r = post_root_by_node r \<and>
      post_state_by_node ?r = post_state_by_node r \<and> validation_result ?r = validation_result r \<and> val_queue ?r = val_queue r"
    by (simp add: tree_insert_def)
  have pd: "parent_done r nd' \<Longrightarrow> parent_done ?r nd'" for nd'
    using parent_done_mono [of r nd' ?r] tree_insert_keeps(1) [OF proof_invD(4) [OF inv] ok] same by simp
  have "proof_request w ?r q" if "q \<in> set (val_queue r)" for q
    using proof_invD(6) [OF inv that] keep pd unfolding proof_request_def by meson
  moreover have "\<exists>nd b. hm_get (tree ?r) h = Some nd \<and> block (plat w) (workload w) (n_height nd) = Inr b \<and> parent_done ?r nd \<and>
      (v \<longrightarrow> last_executed_height r < uint (n_height nd) \<longrightarrow> roots_ok w vkey ?r h nd)"
    if "hm_get (validation_result r) h = Some v" for h v
    by (rule proof_inv_validated [OF inv that]) (use keep same pd in \<open>auto simp: roots_ok_def\<close>)
  ultimately show ?thesis
    using inv same tree_insert_keeps(2) [OF proof_invD(4) [OF inv] ok] unfolding proof_inv_def by simp
qed

lemma proof_inv_kick:
  assumes inv: "proof_inv w vkey r"
  shows "proof_inv w vkey (out_state (maybe_kick_validation w h r))"
proof (cases rule: kick_cases [of w h r])
  case idle
  then show ?thesis using inv by simp
next
  case (sent nd b s)
  let ?q = "(\<lparr>req_node_hash = h, req_height = n_height nd, req_txs_path = b_txs_path b,
    req_proof_path = b_proof_path b, req_txs_total = txs_total (b_meta b)\<rparr>, s)"
  have "parent_done r nd"
    using sent(3) proof_invD(5) [OF inv] by (auto simp: kick_input_def parent_done_def split: if_splits option.splits)
  then have "proof_inv w vkey (r\<lparr>val_queue := val_queue r @ [?q]\<rparr>)"
    using inv sent(1,2) by (auto simp: proof_inv_def proof_request_def stored_def roots_ok_def parent_done_def)
  then show ?thesis using proof_inv_ecore [OF sent(4), of w vkey] by simp
qed

lemma proof_inv_execute:
  assumes inv: "proof_inv w vkey r" and nd: "hm_get (tree r) nh = Some nd"
    and h: "sint (n_height nd) = last_executed_height r + 1" and valid: "hm_get (validation_result r) nh = Some True"
  shows "proof_inv w vkey (out_state (execute_node w nh nd r))"
proof -
  let ?k = "unat (n_height nd)" and ?P = "plat w" and ?wl = "workload w"
  obtain b where "block ?P ?wl (n_height nd) = Inr b"
    and roots: "last_executed_height r < uint (n_height nd) \<longrightarrow> roots_ok w vkey r nh nd"
    by (rule proof_inv_validated [OF inv valid]) (use nd in simp)
  then have small: "sint (n_height nd) = uint (n_height nd)" "uint (n_height nd) = int ?k"
    using sint_small [OF block_small] by blast+
  have above: "last_executed_height r < uint (n_height nd)" using h small(1) by linarith
  obtain c where c: "proof_commit ?P ?wl vkey ?k = Some c" "hm_get (pre_root_by_node r) nh = Some (pre_state_root c)"
    "hm_get (post_root_by_node r) nh = Some (post_state_root c)"
    using roots above by (auto simp: roots_ok_def)
  have ps: "take_post_state nh r = r" using proof_invD(5) [OF inv] by (simp add: take_post_state_def)
  show ?thesis
  proof (cases "n_height nd > 0 \<and> pre_state_root c \<noteq> chained_root r")
    case True
    then show ?thesis using inv c(2) ps by (simp add: execute_node_def Let_def)
  next
    case False
    let ?r' = "r\<lparr>post_root_by_node := hm_remove nh (post_root_by_node r), chained_root := post_state_root c,
      last_executed_height := sint (n_height nd)\<rparr>"
    let ?r = "log_event (rs_view r) ''execute'' [(''height'', JNum (uint (n_height nd))), (''node_hash'', JHex nh)] ?r'"
    have eq: "out_state (execute_node w nh nd r) = ?r"
      using False c ps by (auto simp: execute_node_def take_post_root_def Let_def)
    have "nat (last_executed_height r + 1) = ?k" using h small by linarith
    then have "chain_root ?P ?wl vkey ?k = Some (chained_root r)" using proof_invD(2) [OF inv] by simp
    moreover have "?k = 0 \<or> pre_state_root c = chained_root r" using False by (auto simp: word_gt_0 unat_eq_zero)
    ultimately have "chain_root ?P ?wl vkey (Suc ?k) = Some (post_state_root c)" using c(1) by (simp add: chain_root.simps(2))
    moreover have "nat (sint (n_height nd) + 1) = Suc ?k" using small by linarith
    moreover have "executed (outbox ?r) = [0..sint (n_height nd)]"
      using proof_invD(1,3) [OF inv] h small(1) by (simp add: upto_rec2)
    moreover have pd: "parent_done r nd' \<Longrightarrow> parent_done ?r nd'" for nd'
      using parent_done_mono [of r nd' ?r] h by simp
    have "\<exists>nd' b. hm_get (tree r) h' = Some nd' \<and> block ?P ?wl (n_height nd') = Inr b \<and> parent_done ?r nd' \<and>
        (v \<longrightarrow> sint (n_height nd) < uint (n_height nd') \<longrightarrow> roots_ok w vkey ?r h' nd')"
      if "hm_get (validation_result r) h' = Some v" for h' v
      by (rule proof_inv_validated [OF inv that]) (use nd small(1) h pd in \<open>auto simp: roots_ok_def\<close>)
    moreover have "proof_request w ?r q" if "q \<in> set (val_queue r)" for q
      using proof_invD(6) [OF inv that] pd unfolding proof_request_def by simp blast
    ultimately show ?thesis
      using inv h unfolding eq proof_inv_def stored_def by (simp del: of_nat_Suc)
  qed
qed

subsection \<open>The validator worker\<close>

lemma proof_inv_ingest:
  assumes inv: "proof_inv w vkey r" and out: "proof_answer w vkey r out"
  shows "proof_inv w vkey (ingest_validation out r)"
proof -
  let ?r = "ingest_validation out r" and ?nh = "out_node_hash out"
  obtain nd b where nd: "hm_get (tree r) ?nh = Some nd" "block (plat w) (workload w) (n_height nd) = Inr b"
    and none: "out_post_state out = None" and pd: "parent_done r nd"
    and c: "out_valid out \<longrightarrow> (\<exists>c. proof_commit (plat w) (workload w) vkey (unat (n_height nd)) = Some c \<and>
      out_pre_root out = Some (pre_state_root c) \<and> out_post_root out = Some (post_state_root c))"
    using out unfolding proof_answer_def by blast
  have same: "chained_root ?r = chained_root r" "outbox ?r = outbox r" "val_queue ?r = val_queue r"
    "post_state_by_node ?r = post_state_by_node r"
    "validation_result ?r = hm_insert ?nh (out_valid out) (validation_result r)"
    "pre_root_by_node ?r = (case out_pre_root out of None \<Rightarrow> pre_root_by_node r | Some pr \<Rightarrow> hm_insert ?nh pr (pre_root_by_node r))"
    "post_root_by_node ?r = (case out_post_root out of None \<Rightarrow> post_root_by_node r | Some pr \<Rightarrow> hm_insert ?nh pr (post_root_by_node r))"
    using none by (simp_all add: ingest_validation_def Let_def split: option.splits)
  have "\<exists>nd b. hm_get (tree r) h = Some nd \<and> block (plat w) (workload w) (n_height nd) = Inr b \<and> parent_done r nd \<and>
      (v \<longrightarrow> last_executed_height r < uint (n_height nd) \<longrightarrow> roots_ok w vkey ?r h nd)"
    if v: "hm_get (validation_result ?r) h = Some v" for h v
  proof (cases "h = ?nh")
    case True
    then show ?thesis using v nd c pd by (auto simp: same roots_ok_def)
  next
    case False
    then have "hm_get (validation_result r) h = Some v" using v by (simp add: same)
    then show ?thesis
      by (rule proof_inv_validated [OF inv]) (use False in \<open>auto simp: same roots_ok_def split: option.splits\<close>)
  qed
  then show ?thesis
    using inv unfolding proof_inv_def stored_def proof_request_def parent_done_def ingest_frame same(1-4) by blast
qed

lemma proof_answer_step:
  assumes "proof_answer w vkey r out" and "hm_get (tree r) \<subseteq>\<^sub>m hm_get (tree r')"
    and "last_executed_height r \<le> last_executed_height r'"
  shows "proof_answer w vkey r' out"
proof -
  have "hm_get (tree r) h = Some nd \<Longrightarrow> hm_get (tree r') h = Some nd" for h nd
    using assms(2) by (metis map_le_def domI)
  then show ?thesis using assms(1) parent_done_mono [OF _ assms(2,3)] unfolding proof_answer_def by meson
qed

interpretation verify: exec_mode "\<lambda>w. proof_inv w vkey" "\<lambda>w. proof_answer w vkey" "Verify vkey" s0 for vkey s0
proof
  fix w :: Wiring and r :: Replica and n t f g
  show "proof_inv w vkey (Replica_new n t s0)"
    by (simp add: proof_inv_def stored_def Replica_new_def ReplicaState_new_def ReplicaState.defs Replica.defs executed_def)
  show "proof_inv (reorder f g w) vkey r = proof_inv w vkey r"
    by (simp add: proof_inv_def proof_request_def stored_def roots_ok_def)
  show "proof_inv w vkey r \<Longrightarrow> stored w r" by (simp add: proof_inv_def)
next
  fix w :: Wiring and r r' :: Replica and out
  assume inv: "proof_inv w vkey r" and "worker_step w (Verify vkey) r = Some (r', Inr out)"
  then obtain req s rest where q: "val_queue r = (req, s) # rest" "r' = r\<lparr>val_queue := rest\<rparr>"
    and run: "run_validation (plat w) req s (Verify vkey) = Inr out"
    by (auto simp: worker_step_def split: list.splits)
  obtain nd b where "hm_get (tree r) (req_node_hash req) = Some nd" "block (plat w) (workload w) (n_height nd) = Inr b"
    "req_proof_path req = b_proof_path b" "parent_done r nd"
    using proof_invD(6) [OF inv, of "(req, s)"] q(1) by (auto simp: proof_request_def)
  then have "proof_answer w vkey r out"
    using run by (auto simp: proof_answer_def proof_commit_def invalid_outcome_def split: option.splits if_splits)
  moreover have "proof_inv w vkey r'"
    using inv q(1,2) by (simp add: proof_inv_def proof_request_def stored_def roots_ok_def)
  ultimately show "proof_inv w vkey r' \<and> proof_answer w vkey r out" by simp
qed (rule proof_inv_ecore proof_inv_insert proof_inv_kick proof_inv_execute proof_inv_ingest proof_answer_step; assumption)+

lemma node_run_chain:
  assumes "node_run w n s0 (Verify vkey) r os" and "nodes_ok (env w) (history r)"
  shows "chain_root (plat w) (workload w) vkey (nat (last_executed_height r + 1)) = Some (chained_root r)"
    and "executed (outbox r) = [0..last_executed_height r]"
  using verify.run_keeps [OF assms] proof_invD(2,3) by blast+


lemma parent_done_height:
  assumes "stored w r" and "nodes_ok (env w) (history r)" and "- 1 \<le> last_executed_height r"
    and "hm_get (tree r) h = Some nd" and "parent_done r nd" and "block (plat w) (workload w) (n_height nd) = Inr b"
  shows "uint (n_height nd) \<le> last_executed_height r + 1"
proof (cases "n_parent nd = GENESIS_HASH")
  case True
  then show ?thesis using nodes_okD(2) [OF assms(2) storedD(2) [OF assms(1,4)]] assms(3) by simp
next
  case False
  then obtain np where np: "hm_get (tree r) (n_parent nd) = Some np" "sint (n_height np) \<le> last_executed_height r"
    using assms(5) by (auto simp: parent_done_def)
  have "unat (n_height nd) = unat (n_height np) + 1"
    using nodes_okD(3) [OF assms(2) storedD(2) [OF assms(1,4)], of np] storedD [OF assms(1) np(1)] False by simp
  moreover have "unat (n_height np) < 2 ^ 32" using block_small [OF assms(6)] calculation by linarith
  note sint_small [OF this]
  moreover note sint_small(2) [OF block_small [OF assms(6)]]
  ultimately show ?thesis using np(2) by linarith
qed


end
