(* ===== verification/Run_Workload.thy ===== *)
theory Run_Workload
  imports Generator Reexecution Proof_Chain
begin

text \<open>
  \<^verbatim>\<open>node/run-workload/src/main.rs\<close>: the tool that replays a saved workload, comparing each
  block's roots, hash and counter with the saved metadata and with the proof, and verifying the
  proof. Times and printed lines are not modelled; \<^verbatim>\<open>exit(1)\<close> and a panic are both
  values of \<open>replay_error\<close>.
\<close>

datatype compared = TxsApplied | PreRoot | PostRoot | TxHash | ProofPreRoot | ProofPostRoot | ProofTxHash

datatype replay_error =
    ReadFailed path
  | ParseFailed path
  | ReplaySetupFailed
  | Corruption path u32
  | ReplayRootFailed
  | Mismatch u32 compared
  | ProofUnreadable u32
  | VerificationFailed u32

definition read_file :: "Toolchain \<Rightarrow> path \<Rightarrow> (bytes \<Rightarrow> 'a option) \<Rightarrow> replay_error + 'a" where
  "read_file X p parse =
     (case fs_read X p of
        None \<Rightarrow> Inl (ReadFailed p)
      | Some bs \<Rightarrow> (case parse bs of None \<Rightarrow> Inl (ParseFailed p) | Some x \<Rightarrow> Inr x))"

definition expect :: "'e \<Rightarrow> 'a option \<Rightarrow> 'e + 'a" where
  "expect e x = (case x of None \<Rightarrow> Inl e | Some y \<Rightarrow> Inr y)"

definition check :: "'e \<Rightarrow> bool \<Rightarrow> 'e + unit" where
  "check e b = (if b then Inr () else Inl e)"

definition replay_block :: "Toolchain \<Rightarrow> path \<Rightarrow> bytes \<Rightarrow> u32 \<Rightarrow> State \<Rightarrow> replay_error + State" where
  "replay_block X workload_dir vk block_num s =
     (let dir = block_dir workload_dir (ucast block_num) in
      sum_bind (read_file X (dir @ [''commit.json'']) (parse_full_commit X)) (\<lambda>meta.
      sum_bind (check (Corruption dir (block_number meta)) (block_number meta = block_num)) (\<lambda>_.
      sum_bind (read_file X (dir @ [''transactions.bin'']) (de_txs X)) (\<lambda>txs.
      sum_bind (expect ReplayRootFailed (compute_state_root (tool_sha X) s)) (\<lambda>pre_root.
      case apply_block s txs of (new_state, applied) \<Rightarrow>
      sum_bind (expect ReplayRootFailed (compute_state_root (tool_sha X) new_state)) (\<lambda>post_root.
      let txh = hash_transactions (tool_sha X) txs in
      sum_bind (check (Mismatch block_num TxsApplied) (applied = meta_txs_applied meta)) (\<lambda>_.
      sum_bind (check (Mismatch block_num PreRoot) (hex_encode X pre_root = meta_pre_root meta)) (\<lambda>_.
      sum_bind (check (Mismatch block_num PostRoot) (hex_encode X post_root = meta_post_root meta)) (\<lambda>_.
      sum_bind (check (Mismatch block_num TxHash) (hex_encode X txh = meta_tx_hash meta)) (\<lambda>_.
      sum_bind (read_file X (dir @ [''proof.bin'']) (de_proof X)) (\<lambda>pf.
      sum_bind (expect (ProofUnreadable block_num) (read_public_values X pf)) (\<lambda>commit.
      sum_bind (check (Mismatch block_num ProofPreRoot) (pre_state_root commit = pre_root)) (\<lambda>_.
      sum_bind (check (Mismatch block_num ProofPostRoot) (post_state_root commit = post_root)) (\<lambda>_.
      sum_bind (check (Mismatch block_num ProofTxHash) (tx_hash commit = txh)) (\<lambda>_.
      sum_bind (check (VerificationFailed block_num) (sp1_verify X pf vk)) (\<lambda>_.
      Inr new_state))))))))))))))))"

fun replay_blocks :: "Toolchain \<Rightarrow> path \<Rightarrow> bytes \<Rightarrow> nat list \<Rightarrow> State \<Rightarrow> replay_error + State" where
  "replay_blocks X dir vk [] s = Inr s"
| "replay_blocks X dir vk (b # bs) s = sum_bind (replay_block X dir vk (of_nat b) s) (replay_blocks X dir vk bs)"

definition run_workload :: "Toolchain \<Rightarrow> path \<Rightarrow> path \<Rightarrow> replay_error + State" where
  "run_workload X dir elf =
     sum_bind (read_file X (dir @ [''manifest.json'']) (parse_full_manifest X)) (\<lambda>manifest.
     sum_bind (expect (ReadFailed elf) (fs_read X elf)) (\<lambda>elf_bytes.
     sum_bind (expect ReplaySetupFailed (sp1_setup X elf_bytes)) (\<lambda>vk.
     replay_blocks X dir vk [0..<unat (num_blocks manifest)]
       (fold (\<lambda>i s. set_balance s (of_nat i) (initial_balance manifest))
          [0..<unat (num_accounts manifest)] State_new))))"

subsection \<open>What the replay establishes\<close>

lemma read_file_Inr: "read_file X p parse = Inr x \<longleftrightarrow> (\<exists>bs. fs_read X p = Some bs \<and> parse bs = Some x)"
  by (auto simp: read_file_def split: option.splits)

lemma expect_Inr: "expect e x = Inr y \<longleftrightarrow> x = Some y"
  by (simp add: expect_def split: option.splits)

lemma check_Inr: "check e b = Inr u \<longleftrightarrow> b"
  by (simp add: check_def)

lemmas replay_Inr = sum_bind_Inr_iff read_file_Inr expect_Inr check_Inr

text \<open>
  The block \<open>b\<close> on disk takes state \<open>s\<close> to \<open>s'\<close>, and its proof verifies with
  exactly the public values that the guest program commits to on \<open>s\<close> and the transactions.
\<close>

definition block_proved :: "Toolchain \<Rightarrow> path \<Rightarrow> bytes \<Rightarrow> u32 \<Rightarrow> State \<Rightarrow> State \<Rightarrow> bool" where
  "block_proved X dir vk b s s' \<longleftrightarrow>
     (\<exists>tb txs pb pf.
        fs_read X (block_dir dir (ucast b) @ [''transactions.bin'']) = Some tb \<and> de_txs X tb = Some txs \<and>
        fs_read X (block_dir dir (ucast b) @ [''proof.bin'']) = Some pb \<and> de_proof X pb = Some pf \<and>
        sp1_verify X pf vk \<and> guest_main (tool_sha X) s txs \<noteq> None \<and>
        read_public_values X pf = guest_main (tool_sha X) s txs \<and> s' = fst (apply_block s txs))"

lemma replay_block_proved:
  "replay_block X dir vk b s = Inr s' \<Longrightarrow> block_proved X dir vk b s s'"
proof -
  assume "replay_block X dir vk b s = Inr s'"
  then obtain tb txs pb pf c where
    files: "fs_read X (block_dir dir (ucast b) @ [''transactions.bin'']) = Some tb" "de_txs X tb = Some txs"
      "fs_read X (block_dir dir (ucast b) @ [''proof.bin'']) = Some pb" "de_proof X pb = Some pf"
    and roots: "compute_state_root (tool_sha X) s = Some (pre_state_root c)"
      "compute_state_root (tool_sha X) (fst (apply_block s txs)) = Some (post_state_root c)"
    and pf: "sp1_verify X pf vk" "read_public_values X pf = Some c" "tx_hash c = hash_transactions (tool_sha X) txs"
    and s': "s' = fst (apply_block s txs)"
    by (auto simp: replay_block_def replay_Inr Let_def case_prod_beta)
  have "guest_main (tool_sha X) s txs = Some c"
    using roots pf(3) by (simp add: guest_main_def Let_def)
  then show ?thesis using files pf s' by (auto simp: block_proved_def)
qed

lemma replay_blocks_states:
  assumes "replay_blocks X dir vk [a..<a + k] s = Inr s'"
  shows "\<exists>st. st a = s \<and> st (a + k) = s' \<and> (\<forall>b \<in> {a..<a + k}. block_proved X dir vk (of_nat b) (st b) (st (Suc b)))"
  using assms
proof (induction k arbitrary: a s)
  case (Suc k)
  have "[a..<a + Suc k] = a # [Suc a..<Suc a + k]" by (simp add: upt_conv_Cons)
  with Suc.prems obtain s1 where b: "replay_block X dir vk (of_nat a) s = Inr s1"
    and "replay_blocks X dir vk [Suc a..<Suc a + k] s1 = Inr s'" by (auto simp: sum_bind_Inr_iff)
  from Suc.IH [OF this(2)] obtain st where st: "st (Suc a) = s1" "st (Suc a + k) = s'"
    "\<forall>b \<in> {Suc a..<Suc a + k}. block_proved X dir vk (of_nat b) (st b) (st (Suc b))" by blast
  show ?case
  proof (intro exI [of _ "st(a := s)"] conjI ballI)
    fix b assume "b \<in> {a..<a + Suc k}"
    then show "block_proved X dir vk (of_nat b) ((st(a := s)) b) ((st(a := s)) (Suc b))"
      using st replay_block_proved [OF b] by (cases "b = a") auto
  qed (use st in auto)
qed (auto intro: exI [of _ "\<lambda>_. s'"])

text \<open>
  \<^bold>\<open>C31\<close>. A workload the replay tool accepts is proved block by block: there is a chain of
  states from the initial ledger of the manifest to the returned one, in which each block's
  transactions lead from one state to the next and each block's proof verifies under the key of
  the program, with the public values the guest program commits to on that state.
\<close>

theorem run_workload_sound:
  assumes "run_workload X dir elf = Inr s"
  shows "\<exists>mb m eb vk st. fs_read X (dir @ [''manifest.json'']) = Some mb \<and> parse_full_manifest X mb = Some m \<and>
    fs_read X elf = Some eb \<and> sp1_setup X eb = Some vk \<and>
    st 0 = generate_initial_state (num_accounts m) (initial_balance m) \<and> st (unat (num_blocks m)) = s \<and>
    (\<forall>k < unat (num_blocks m). block_proved X dir vk (of_nat k) (st k) (st (Suc k)))"
proof -
  from assms obtain mb m eb vk where files: "fs_read X (dir @ [''manifest.json'']) = Some mb"
      "parse_full_manifest X mb = Some m" "fs_read X elf = Some eb" "sp1_setup X eb = Some vk"
    and "replay_blocks X dir vk [0..<unat (num_blocks m)] (generate_initial_state (num_accounts m) (initial_balance m)) = Inr s"
    by (auto simp: run_workload_def replay_Inr generate_initial_state_def)
  then show ?thesis
    using replay_blocks_states [of X dir vk 0 "unat (num_blocks m)"] files by fastforce
qed

subsection \<open>Replaying a generated workload\<close>

text \<open>The laws of the encoders: each decoder reads what its encoder wrote.\<close>

definition codec_ok :: "Toolchain \<Rightarrow> bool" where
  "codec_ok X \<longleftrightarrow>
     (\<forall>m. parse_full_manifest X (ser_manifest X m) = Some m \<and>
          parse_manifest X (ser_manifest X m) = Some (Manifest.truncate m)) \<and>
     (\<forall>m. parse_full_commit X (ser_commit X m) = Some (FullMeta.truncate m) \<and>
          parse_commit X (ser_commit X m) = Some (BlockMeta.truncate m)) \<and>
     (\<forall>h. hex_decode X (hex_encode X h) = Some h) \<and>
     (\<forall>txs bs. ser_txs X txs = Some bs \<longrightarrow> de_txs X bs = Some txs) \<and>
     (\<forall>pf bs. ser_proof X pf = Some bs \<longrightarrow> de_proof X bs = Some pf)"

definition on_disk :: "Toolchain \<Rightarrow> disk \<Rightarrow> Toolchain" where
  "on_disk X d = X\<lparr>fs_read := d\<rparr>"

lemma on_disk_simps [simp]:
  "fs_read (on_disk X d) = d" "parse_full_commit (on_disk X d) = parse_full_commit X"
  "parse_full_manifest (on_disk X d) = parse_full_manifest X" "de_txs (on_disk X d) = de_txs X"
  "de_proof (on_disk X d) = de_proof X" "tool_sha (on_disk X d) = tool_sha X"
  "hex_encode (on_disk X d) = hex_encode X" "read_public_values (on_disk X d) = read_public_values X"
  "sp1_verify (on_disk X d) = sp1_verify X" "sp1_setup (on_disk X d) = sp1_setup X"
  "parse_commit (on_disk X d) = parse_commit X" "hex_decode (on_disk X d) = hex_decode X"
  "parse_manifest (on_disk X d) = parse_manifest X"
  by (simp_all add: on_disk_def)

lemma gen_block_replays:
  assumes "gen_block X args vk b st d = Inr (st', d')" and "codec_ok X"
    and "\<And>f. d'' (block_dir (ga_dir args) (ucast b) @ [f]) = d' (block_dir (ga_dir args) (ucast b) @ [f])"
  shows "replay_block (on_disk X d'') (ga_dir args) vk b (fst st) = Inr (fst st')"
proof -
  obtain s seed where st: "st = (s, seed)" by (cases st)
  from assms(1) [unfolded st] obtain txs seed' n tb pf c pb where
    n: "native_run (tool_sha X) s txs = Inr n" and st': "st' = (nat_state n, seed')"
    and tb: "ser_txs X txs = Some tb" and c: "read_public_values X pf = Some c" "commit_matches c n" "sp1_verify X pf vk"
    and pb: "ser_proof X pf = Some pb"
    and d': "d' = d(block_dir (ga_dir args) (ucast b) @ [''transactions.bin''] \<mapsto> tb,
                block_dir (ga_dir args) (ucast b) @ [''proof.bin''] \<mapsto> pb,
                block_dir (ga_dir args) (ucast b) @ [''commit.json''] \<mapsto> ser_commit X (block_meta X args b n))"
    by (rule gen_block_Inr)
  have "FullMeta.truncate (block_meta X args b n) =
      \<lparr>block_number = b, meta_tx_hash = hex_encode X (nat_tx_hash n), txs_total = ga_num_txs args,
       meta_pre_root = hex_encode X (nat_pre n), meta_post_root = hex_encode X (nat_post n),
       meta_txs_applied = nat_applied n\<rparr>"
    by (simp add: block_meta_def FullMeta.truncate_def split: prod.splits)
  moreover have "de_txs X tb = Some txs" "de_proof X pb = Some pf"
    using assms(2) tb pb by (auto simp: codec_ok_def)
  ultimately show ?thesis
    using n c assms(2) unfolding replay_block_def
    by (simp add: st st' assms(3) d' Let_def read_file_def expect_def check_def native_run_Inr commit_matches_def
        codec_ok_def case_prod_beta)
qed

text \<open>
  What the node makes of the same files: block \<open>b\<close> loads, under the height it was generated
  for and with the transaction hash as command, its transactions are the generated ones, and its
  proof verifies with the roots before and after them.
\<close>

lemma gen_block_loads:
  assumes "gen_block X args vk b st d = Inr (st', d')" and "codec_ok X"
    and "\<And>f. d'' (block_dir (ga_dir args) (ucast b) @ [f]) = d' (block_dir (ga_dir args) (ucast b) @ [f])"
    and P: "P = Platform.truncate (on_disk X d'')" and wl: "wl_dir wl = ga_dir args" and k: "of_nat k = (ucast b :: u64)"
  shows "\<exists>txs. block_txs P wl k = Some txs \<and> fst st' = fst (apply_block (fst st) txs) \<and>
    compute_state_root (tool_sha X) (fst st') \<noteq> None \<and>
    (\<exists>br. block P wl (of_nat k) = Inr br \<and> b_cmd br = hash_transactions (tool_sha X) txs \<and>
       (\<exists>cb meta. d'' (block_dir (ga_dir args) (ucast b) @ [''commit.json'']) = Some cb \<and>
          parse_full_commit X cb = Some meta \<and>
          compute_state_root (tool_sha X) (fst st') = hex_decode X (meta_post_root meta))) \<and>
    (\<exists>c. proof_commit P wl vk k = Some c \<and> compute_state_root (tool_sha X) (fst st) = Some (pre_state_root c) \<and>
       compute_state_root (tool_sha X) (fst st') = Some (post_state_root c))"
proof -
  obtain s seed where st: "st = (s, seed)" by (cases st)
  from assms(1) [unfolded st] obtain txs seed' n tb pf c pb where
    n: "native_run (tool_sha X) s txs = Inr n" and st': "st' = (nat_state n, seed')"
    and tb: "ser_txs X txs = Some tb"
    and pf: "read_public_values X pf = Some c" "commit_matches c n" "sp1_verify X pf vk" "ser_proof X pf = Some pb"
    and d': "d' = d(block_dir (ga_dir args) (ucast b) @ [''transactions.bin''] \<mapsto> tb,
                block_dir (ga_dir args) (ucast b) @ [''proof.bin''] \<mapsto> pb,
                block_dir (ga_dir args) (ucast b) @ [''commit.json''] \<mapsto> ser_commit X (block_meta X args b n))"
    by (rule gen_block_Inr)
  have trunc: "BlockMeta.truncate (block_meta X args b n) =
      \<lparr>block_number = b, meta_tx_hash = hex_encode X (nat_tx_hash n), txs_total = ga_num_txs args\<rparr>"
    "meta_post_root (FullMeta.truncate (block_meta X args b n)) = hex_encode X (nat_post n)"
    by (simp_all add: block_meta_def BlockMeta.truncate_def FullMeta.truncate_def split: prod.splits)
  have plat: "fs_read P = d''" "parse_commit P = parse_commit X" "hex_decode P = hex_decode X" "de_txs P = de_txs X"
    "de_proof P = de_proof X" "sp1_verify P = sp1_verify X" "read_public_values P = read_public_values X"
    by (simp_all add: P Platform.truncate_def)
  have dec: "de_txs X tb = Some txs" "de_proof X pb = Some pf" using assms(2) tb pf(4) by (auto simp: codec_ok_def)
  have "block P wl (of_nat k) = Inr \<lparr>b_cmd = nat_tx_hash n, b_meta = BlockMeta.truncate (block_meta X args b n),
      b_txs_path = block_dir (ga_dir args) (ucast b) @ [''transactions.bin''],
      b_proof_path = block_dir (ga_dir args) (ucast b) @ [''proof.bin'']\<rparr>"
    using assms(2) trunc k by (simp add: block_def block_at_def plat assms(3) d' wl codec_ok_def)
  then show ?thesis
    using assms(2) n dec pf(1-3) trunc(2)
    by (auto simp: st st' block_txs_def proof_commit_def plat assms(3) d' codec_ok_def native_run_Inr commit_matches_def)
qed

definition agree_on :: "path \<Rightarrow> nat \<Rightarrow> disk \<Rightarrow> disk \<Rightarrow> bool" where
  "agree_on dir k d d' \<longleftrightarrow> (\<forall>b < k. \<forall>p. in_block dir (of_nat b) p \<longrightarrow> d p = d' p)"

lemma in_block_unique:
  assumes "in_block dir (of_nat a) p" and "in_block dir (of_nat b) p" and "a < 2 ^ 32" and "b < 2 ^ 32"
  shows "a = b"
proof -
  have "(ucast (of_nat a :: u32) :: u64) = ucast (of_nat b :: u32)"
    using assms(1,2) by (auto simp: in_block_def block_dir_inject)
  then have "unat (of_nat a :: u32) = unat (of_nat b :: u32)"
    using unat_ucast_u64 [of "of_nat a"] unat_ucast_u64 [of "of_nat b"] by metis
  then show ?thesis using assms(3,4) by (simp add: unat_of_nat)
qed

lemma agree_on_gen_block:
  assumes "gen_block X args vk (of_nat k) st d = Inr (st', d')" and "Suc k \<le> 2 ^ 32"
    and "agree_on (ga_dir args) (Suc k) d'' d'"
  shows "agree_on (ga_dir args) k d'' d"
  unfolding agree_on_def
proof (intro allI impI)
  fix b p assume b: "b < k" "in_block (ga_dir args) (of_nat b) p"
  then have "\<not> in_block (ga_dir args) (of_nat k) p" using in_block_unique [of _ b p k] assms(2) by fastforce
  then show "d'' p = d p" using gen_block_frame [OF assms(1)] assms(3) b unfolding agree_on_def by (metis less_SucI)
qed

lemma replay_blocks_append:
  "replay_blocks X dir vk (as @ bs) s = sum_bind (replay_blocks X dir vk as s) (replay_blocks X dir vk bs)"
proof (induction as arbitrary: s)
  case (Cons a as)
  then show ?case by (cases "replay_block X dir vk (of_nat a) s") auto
qed simp

definition saved_root :: "Toolchain \<Rightarrow> disk \<Rightarrow> path \<Rightarrow> nat \<Rightarrow> digest option" where
  "saved_root X d dir k =
     (case d (block_dir dir (of_nat k) @ [''commit.json'']) of
        None \<Rightarrow> None
      | Some cb \<Rightarrow> (case parse_full_commit X cb of None \<Rightarrow> None | Some meta \<Rightarrow> hex_decode X (meta_post_root meta)))"

text \<open>
  After \<open>k\<close> generated blocks, every reader of the disk is where the generator is: the replay
  tool and a re-executing node in its state, a verifying node at its root, which is the saved one.
\<close>

lemma gen_blocks_on_disk:
  assumes "gen_blocks X args vk [0..<k] st d = Inr (st', d')" and "codec_ok X" and "k \<le> 2 ^ 32"
    and "agree_on (ga_dir args) k d'' d'"
    and P: "P = Platform.truncate (on_disk X d'')" and wl: "wl_dir wl = ga_dir args"
  shows "replay_blocks (on_disk X d'') (ga_dir args) vk [0..<k] (fst st) = Inr (fst st') \<and>
    replay P wl (fst st) k = Some (fst st') \<and> chain_root P wl vk k \<noteq> None \<and>
    (0 < k \<longrightarrow> chain_root P wl vk k = compute_state_root (tool_sha X) (fst st') \<and>
       saved_root X d'' (ga_dir args) (k - 1) = compute_state_root (tool_sha X) (fst st'))"
  using assms(1,3,4)
proof (induction k arbitrary: st' d')
  case (Suc k)
  then obtain st1 d1 where run: "gen_blocks X args vk [0..<k] st d = Inr (st1, d1)"
    and b: "gen_block X args vk (of_nat k) st1 d1 = Inr (st', d')"
    by (auto simp: gen_blocks_append io_bind_Inr)
  have IH: "replay_blocks (on_disk X d'') (ga_dir args) vk [0..<k] (fst st) = Inr (fst st1)"
    "replay P wl (fst st) k = Some (fst st1)" "chain_root P wl vk k \<noteq> None"
    "0 < k \<longrightarrow> chain_root P wl vk k = compute_state_root (tool_sha X) (fst st1)"
    using Suc.IH [OF run] agree_on_gen_block [OF b Suc.prems(2,3)] Suc.prems(2) by auto
  have files: "d'' (block_dir (ga_dir args) (ucast (of_nat k :: u32)) @ [f]) =
      d' (block_dir (ga_dir args) (ucast (of_nat k :: u32)) @ [f])" for f
    using Suc.prems(3) by (auto simp: agree_on_def in_block_def)
  have "unat (of_nat k :: u32) = k" using Suc.prems(2) by (simp add: unat_of_nat)
  then have k: "(of_nat k :: u64) = ucast (of_nat k :: u32)" by (metis of_nat_unat)
  have rb: "replay_block (on_disk X d'') (ga_dir args) vk (of_nat k) (fst st1) = Inr (fst st')"
    by (rule gen_block_replays [OF b assms(2) files])
  note loads = gen_block_loads [OF b assms(2) files P wl k]
  obtain txs c where txs: "block_txs P wl k = Some txs" "fst st' = fst (apply_block (fst st1) txs)"
    and c: "proof_commit P wl vk k = Some c" "compute_state_root (tool_sha X) (fst st1) = Some (pre_state_root c)"
      "compute_state_root (tool_sha X) (fst st') = Some (post_state_root c)"
    using loads by blast
  have "chain_root P wl vk (Suc k) = Some (post_state_root c)"
    using IH(3,4) c by (auto simp: chain_root.simps(2))
  moreover have "saved_root X d'' (ga_dir args) k = Some (post_state_root c)"
    using loads k c(3) by (auto simp: saved_root_def)
  ultimately show ?case
    using IH(1,2) rb txs c(3) by (simp add: replay_blocks_append replay.simps(2))
qed simp

lemma gen_blocks_prefix:
  assumes "gen_blocks X args vk [0..<k + j] st d = Inr (st', d')" and "k + j \<le> 2 ^ 32"
    and "agree_on (ga_dir args) (k + j) d'' d'"
  shows "\<exists>st1 d1. gen_blocks X args vk [0..<k] st d = Inr (st1, d1) \<and> agree_on (ga_dir args) k d'' d1"
  using assms
proof (induction j arbitrary: st' d')
  case (Suc j)
  then obtain st1 d1 where run: "gen_blocks X args vk [0..<k + j] st d = Inr (st1, d1)"
    and b: "gen_block X args vk (of_nat (k + j)) st1 d1 = Inr (st', d')"
    by (auto simp: gen_blocks_append io_bind_Inr)
  show ?case
    using Suc.IH [OF run _ agree_on_gen_block [OF b]] Suc.prems(2,3) by simp
qed auto

definition elf_file :: "GenArgs \<Rightarrow> path" where
  "elf_file args = ga_dir args @ [''ledger-program.elf'']"

definition gen_workload :: "GenArgs \<Rightarrow> Workload" where
  "gen_workload args = \<lparr>wl_dir = ga_dir args, wl_manifest = Manifest.truncate (gen_manifest args)\<rparr>"

definition gen_initial :: "GenArgs \<Rightarrow> State" where
  "gen_initial args = generate_initial_state (ga_num_accounts args) (ga_initial_balance args)"

lemma gen_main_on_disk:
  assumes "gen_main X args d = Inr (s, d')" and "ga_resume_from args = 0" and codec: "codec_ok X"
    and P: "P = Platform.truncate (on_disk X d')"
  obtains vk where "run_workload (on_disk X d') (ga_dir args) (elf_file args) = Inr s"
    and "Workload_load P (ga_dir args) = Inr (gen_workload args)"
    and "fs_read P (elf_file args) = Some (ledger_elf X)" and "sp1_setup P (ledger_elf X) = Some vk"
    and "replay P (gen_workload args) (gen_initial args) (unat (ga_num_blocks args)) = Some s"
    and "\<And>k. 0 < k \<Longrightarrow> k \<le> unat (ga_num_blocks args) \<Longrightarrow> \<exists>sk. replay P (gen_workload args) (gen_initial args) k = Some sk \<and>
      compute_state_root (tool_sha X) sk \<noteq> None \<and>
      chain_root P (gen_workload args) vk k = compute_state_root (tool_sha X) sk \<and>
      saved_root X d' (ga_dir args) (k - 1) = compute_state_root (tool_sha X) sk"
proof -
  let ?dir = "ga_dir args" and ?man = "ga_dir args @ [''manifest.json'']" and ?n = "unat (ga_num_blocks args)"
  let ?m = "ser_manifest X (gen_manifest args)" and ?wl = "gen_workload args"
  let ?d0 = "d(elf_file args \<mapsto> ledger_elf X, ?man \<mapsto> ?m)"
  from assms(1) obtain vk st' d1 where vk: "sp1_setup X (ledger_elf X) = Some vk"
    and run: "gen_blocks X args vk [0..<?n] (gen_initial args, 12345) ?d0 = Inr (st', d1)"
    and s: "s = fst st'" and d': "d' = d1(?man \<mapsto> ?m)"
    by (rule gen_main_Inr) (use assms(2) in \<open>simp add: gen_initial_def elf_file_def\<close>)
  have "?n < 2 ^ LENGTH(32)" by (rule unsigned_less)
  then have n: "?n \<le> 2 ^ 32" by simp
  have wl: "wl_dir ?wl = ?dir" by (simp add: gen_workload_def)
  have agree: "agree_on ?dir ?n d' d1" unfolding agree_on_def d' by auto
  note disk = gen_blocks_on_disk [OF run codec n agree P wl]
  have elf: "d' (elf_file args) = Some (ledger_elf X)"
    using gen_blocks_frame [OF run, of "elf_file args"] by (simp add: d' elf_file_def)
  show ?thesis
  proof (rule that [of vk])
    show "run_workload (on_disk X d') ?dir (elf_file args) = Inr s"
      using disk vk elf codec
      by (simp add: run_workload_def read_file_def expect_def d' s codec_ok_def gen_manifest_def gen_initial_def
          generate_initial_state_def [symmetric])
    show "Workload_load P ?dir = Inr ?wl"
      using codec by (simp add: Workload_load_def P Platform.truncate_def d' codec_ok_def gen_workload_def)
    show "fs_read P (elf_file args) = Some (ledger_elf X)" "sp1_setup P (ledger_elf X) = Some vk"
      using elf vk by (simp_all add: P Platform.truncate_def)
    show "replay P ?wl (gen_initial args) ?n = Some s" using disk s by simp
    fix k assume k: "0 < k" "k \<le> ?n"
    then obtain st1 d2 where "gen_blocks X args vk [0..<k] (gen_initial args, 12345) ?d0 = Inr (st1, d2)"
      "agree_on ?dir k d' d2" 
      using gen_blocks_prefix [of X args vk k "?n - k" "(gen_initial args, 12345)" ?d0 st' d1 d'] run n agree by auto
    from gen_blocks_on_disk [OF this(1) codec _ this(2) P wl] k n
    show "\<exists>sk. replay P ?wl (gen_initial args) k = Some sk \<and> compute_state_root (tool_sha X) sk \<noteq> None \<and>
      chain_root P ?wl vk k = compute_state_root (tool_sha X) sk \<and>
      saved_root X d' ?dir (k - 1) = compute_state_root (tool_sha X) sk" by auto
  qed
qed

text \<open>
  \<^bold>\<open>C30\<close>. Generate, then replay: on the disk a completed run of the generator leaves, the replay
  tool passes every check of every block and returns the generator's final state.
\<close>

theorem generate_replay_roundtrip:
  assumes "gen_main X args d = Inr (s, d')" and "ga_resume_from args = 0" and "codec_ok X"
  shows "run_workload (on_disk X d') (ga_dir args) (elf_file args) = Inr s"
  by (rule gen_main_on_disk [OF assms refl])

end
