(* ===== verification/Sample_Tools.thy ===== *)
theory Sample_Tools
  imports Run_Workload Sample
begin

text \<open>
  A concrete toolchain for the generator and the replay tool: byte encodings for the files, a
  prover whose proof is the list of public values, and a disk that never fails. It shows that the
  laws assumed of these surroundings can hold together.
\<close>

subsection \<open>Encodings\<close>

definition get_u64 :: "bytes \<Rightarrow> u64 \<times> bytes" where
  "get_u64 bs = (of_le_bytes (take 8 bs), drop 8 bs)"

definition get_digest :: "bytes \<Rightarrow> digest \<times> bytes" where
  "get_digest bs = (of_le_bytes (rev (take 32 bs)), drop 32 bs)"

fun put_list :: "('a \<Rightarrow> bytes) \<Rightarrow> 'a list \<Rightarrow> bytes" where
  "put_list put [] = [0]"
| "put_list put (x # xs) = 1 # put x @ put_list put xs"

fun get_list :: "(bytes \<Rightarrow> 'a \<times> bytes) \<Rightarrow> nat \<Rightarrow> bytes \<Rightarrow> 'a list \<times> bytes" where
  "get_list get 0 bs = ([], bs)"
| "get_list get (Suc n) [] = ([], [])"
| "get_list get (Suc n) (b # bs) =
     (if b = 0 then ([], bs)
      else case get bs of (x, rest) \<Rightarrow> (case get_list get n rest of (xs, rest') \<Rightarrow> (x # xs, rest')))"

lemma get_put_u64 [simp]: "get_u64 (u64_le w @ r) = (w, r)"
  by (simp add: get_u64_def u64_le.dec_enc u64_le.enc_length)

lemma get_put_digest [simp]: "get_digest (digest_bytes d @ r) = (d, r)"
  using digest_code.dec_enc by (simp add: get_digest_def digest_code.enc_length)

lemma get_put_list:
  assumes "\<And>x r. get (put x @ r) = (x, r)" and "length xs < n"
  shows "get_list get n (put_list put xs @ r) = (xs, r)"
  using assms(2)
proof (induction xs arbitrary: n)
  case Nil
  then show ?case by (cases n) auto
next
  case (Cons x xs)
  then obtain m where "n = Suc m" by (cases n) auto
  with Cons show ?case by (simp add: assms(1))
qed

lemma length_put_list: "length xs < length (put_list put xs)"
  by (induction xs) auto

definition byte_char :: "u8 \<Rightarrow> char" where "byte_char b = char_of (unat b)"
definition char_byte :: "char \<Rightarrow> u8" where "char_byte c = of_nat (of_char c)"

lemma byte_char_inverse [simp]: "byte_char (char_byte c) = c" "char_byte (byte_char b) = b"
proof -
  have "unat b < 2 ^ LENGTH(8)" by (rule unsigned_less)
  then show "char_byte (byte_char b) = b" by (simp add: byte_char_def char_byte_def of_char_of)
  show "byte_char (char_byte c) = c" by (simp add: byte_char_def char_byte_def unat_of_nat)
qed

definition put_string :: "string \<Rightarrow> bytes" where
  "put_string s = put_list (\<lambda>c. [char_byte c]) s"

definition get_string :: "bytes \<Rightarrow> string \<times> bytes" where
  "get_string bs = get_list (\<lambda>bs. (byte_char (hd bs), tl bs)) (length bs) bs"

lemma get_put_string [simp]: "get_string (put_string s @ r) = (s, r)"
  unfolding get_string_def put_string_def
  by (rule get_put_list) (use length_put_list [of s] in \<open>simp_all add: trans_less_add1\<close>)

definition get_u32 :: "bytes \<Rightarrow> u32 \<times> bytes" where
  "get_u32 bs = (of_le_bytes (take 4 bs), drop 4 bs)"

lemma get_put_u32 [simp]: "get_u32 (u32_le w @ r) = (w, r)"
  by (simp add: get_u32_def u32_le.dec_enc u32_le.enc_length)

lemma get_put_last [simp]: "get_u32 (u32_le w) = (w, [])" "get_digest (digest_bytes d) = (d, [])"
  using get_put_u32 [of w "[]"] get_put_digest [of d "[]"] by simp_all

subsection \<open>Files\<close>

definition put_manifest :: "GenManifest \<Rightarrow> bytes" where
  "put_manifest m = u32_le (num_accounts m) @ u64_le (initial_balance m) @ u32_le (num_blocks m) @
     u32_le (num_txs_per_block m) @ []"

definition get_manifest :: "bytes \<Rightarrow> GenManifest" where
  "get_manifest bs =
     (case get_u32 bs of (a, bs) \<Rightarrow> case get_u64 bs of (b, bs) \<Rightarrow> case get_u32 bs of (n, bs) \<Rightarrow>
      case get_u32 bs of (t, bs) \<Rightarrow>
        \<lparr>num_accounts = a, initial_balance = b, num_blocks = n, num_txs_per_block = t\<rparr>)"

definition put_meta :: "GenMeta \<Rightarrow> bytes" where
  "put_meta m = u32_le (block_number m) @ put_string (meta_tx_hash m) @ u32_le (txs_total m) @
     put_string (meta_pre_root m) @ put_string (meta_post_root m) @ u32_le (meta_txs_applied m) @ []"

definition get_meta :: "bytes \<Rightarrow> FullMeta" where
  "get_meta bs =
     (case get_u32 bs of (n, bs) \<Rightarrow> case get_string bs of (h, bs) \<Rightarrow> case get_u32 bs of (t, bs) \<Rightarrow>
      case get_string bs of (pre, bs) \<Rightarrow> case get_string bs of (post, bs) \<Rightarrow> case get_u32 bs of (a, bs) \<Rightarrow>
        \<lparr>block_number = n, meta_tx_hash = h, txs_total = t, meta_pre_root = pre, meta_post_root = post,
         meta_txs_applied = a\<rparr>)"

definition put_commit :: "BlockCommit \<Rightarrow> bytes" where
  "put_commit c = digest_bytes (pre_state_root c) @ digest_bytes (post_state_root c) @ digest_bytes (tx_hash c) @ []"

definition get_commit :: "bytes \<Rightarrow> BlockCommit" where
  "get_commit bs =
     (case get_digest bs of (pre, bs) \<Rightarrow> case get_digest bs of (post, bs) \<Rightarrow> case get_digest bs of (h, bs) \<Rightarrow>
        \<lparr>pre_state_root = pre, post_state_root = post, tx_hash = h\<rparr>)"

definition get_tx :: "bytes \<Rightarrow> Tx \<times> bytes" where
  "get_tx bs = (tx_decode (take 16 bs), drop 16 bs)"

definition get_txs :: "bytes \<Rightarrow> Tx list" where
  "get_txs bs = fst (get_list get_tx (length bs) bs)"

definition put_hex :: "digest \<Rightarrow> string" where
  "put_hex d = map byte_char (digest_bytes d)"

definition get_hex :: "string \<Rightarrow> digest" where
  "get_hex s = fst (get_digest (map char_byte s))"

lemma get_put_file [simp]:
  "get_manifest (put_manifest m) = m" "get_meta (put_meta mt) = FullMeta.truncate mt" "get_commit (put_commit c) = c"
  "get_txs (put_list tx_bytes txs) = txs" "get_hex (put_hex d) = d"
proof -
  show "get_manifest (put_manifest m) = m" by (simp add: get_manifest_def put_manifest_def)
  show "get_meta (put_meta mt) = FullMeta.truncate mt"
    by (simp add: get_meta_def put_meta_def FullMeta.truncate_def)
  show "get_commit (put_commit c) = c" by (simp add: get_commit_def put_commit_def)
  have "get_tx (tx_bytes x @ r) = (x, r)" for x r
    by (simp add: get_tx_def tx_code.dec_enc tx_code.enc_length)
  from get_put_list [of get_tx tx_bytes txs _ "[]", OF this] length_put_list [of txs tx_bytes]
  show "get_txs (put_list tx_bytes txs) = txs" by (simp add: get_txs_def)
  show "get_hex (put_hex d) = d" using get_put_digest [of d "[]"] by (simp add: get_hex_def put_hex_def comp_def)
qed

subsection \<open>The toolchain\<close>

definition sample_tools :: Toolchain where
  "sample_tools =
     \<lparr>fs_read = (\<lambda>p. None),
      parse_manifest = (\<lambda>bs. Some (Manifest.truncate (get_manifest bs))),
      parse_commit = (\<lambda>bs. Some (BlockMeta.truncate (get_meta bs))),
      hex_decode = (\<lambda>s. Some (get_hex s)),
      de_txs = (\<lambda>bs. Some (get_txs bs)),
      de_proof = Some,
      sp1_setup = Some,
      sp1_verify = (\<lambda>pf vk. vk = [7]),
      read_public_values = (\<lambda>pf. Some (get_commit pf)),
      tool_sha = sample_sha,
      hex_encode = put_hex,
      ser_manifest = put_manifest,
      ser_commit = put_meta,
      parse_full_manifest = (\<lambda>bs. Some (get_manifest bs)),
      parse_full_commit = (\<lambda>bs. Some (get_meta bs)),
      ser_txs = (\<lambda>txs. Some (put_list tx_bytes txs)),
      ser_proof = Some,
      ledger_elf = [7],
      sp1_prove = (\<lambda>elf s txs. map_option put_commit (guest_main sample_sha s txs)),
      sp1_execute = (\<lambda>elf s txs. guest_main sample_sha s txs),
      timings = (\<lambda>b. (1, 2, 3)),
      can_mkdir = (\<lambda>p. True),
      can_write_file = (\<lambda>p. True)\<rparr>"

lemma sample_codec_ok: "codec_ok sample_tools"
  by (simp add: codec_ok_def sample_tools_def BlockMeta.truncate_def FullMeta.truncate_def)

lemma sample_tools_ok: "tools_ok sample_tools [7]"
  by (auto simp: tools_ok_def sample_tools_def)

definition sample_gen_args :: GenArgs where
  "sample_gen_args =
     \<lparr>ga_num_blocks = 2, ga_num_txs = 1, ga_num_accounts = 2, ga_initial_balance = 100, ga_dir = [''w''],
      ga_resume_from = 0\<rparr>"

lemma sample_generates:
  assumes "k \<le> 2"
  shows "\<exists>s d'. gen_main sample_tools (sample_gen_args\<lparr>ga_num_blocks := k\<rparr>) d = Inr (s, d')"
  using gen_main_completes [OF sample_tools_ok, of "sample_gen_args\<lparr>ga_num_blocks := k\<rparr>" d]
  by (auto simp: sample_gen_args_def)

text \<open>The sum that stands for SHA-256 is never zero on short inputs.\<close>

lemma unat_sample_fold:
  "unat a + 256 * length bs < 2 ^ 256 \<Longrightarrow>
     unat (fold (\<lambda>b a. a + ucast b) bs (a :: digest)) = unat a + sum_list (map unat (bs :: bytes))"
proof (induction bs arbitrary: a)
  case (Cons b bs)
  have "unat b < 2 ^ LENGTH(8)" by (rule unsigned_less)
  then have b: "unat (ucast b :: digest) = unat b" "unat b < 256"
    by (simp_all add: unsigned_ucast_eq take_bit_nat_eq_self)
  then have "unat (a + ucast b) = unat a + unat b"
    using Cons.prems by (subst unat_add_no_overflow) auto
  then show ?case using Cons.IH [of "a + ucast b"] Cons.prems b(2) by simp
qed simp

lemma sample_node_hash: "node_hash sample_env nd \<noteq> 0"
proof -
  let ?bs = "digest_bytes (n_parent nd) @ digest_bytes (n_cmd nd) @ u64_le (n_height nd)"
  have "unat (sample_sha ?bs) = 1 + sum_list (map unat ?bs)"
    unfolding sample_sha_def by (subst unat_sample_fold) (simp_all add: codec_simps)
  then have "unat (sample_sha ?bs) \<noteq> unat (0 :: digest)" by simp
  then show ?thesis by (auto simp: node_hash_def sample_env_def)
qed

end
