(* ===== verification/Logging.thy ===== *)
theory Logging
  imports Replica
begin

text \<open>
  \<^verbatim>\<open>node/consensus-node/src/logging.rs\<close>: the line a log call prints. The clock is an
  argument; the order in which \<^verbatim>\<open>serde_json\<close> lists the fields of an object and the
  hex encoding are parameters.
\<close>

fun show_jval :: "(digest \<Rightarrow> string) \<Rightarrow> jval \<Rightarrow> string" where
  "show_jval hex (JStr s) = s"
| "show_jval hex (JHex d) = hex d"
| "show_jval hex (JNum i) = (if i < 0 then CHR ''-'' # decimal (nat (- i)) else decimal (nat i))"
| "show_jval hex (JBool b) = (if b then ''true'' else ''false'')"

fun extra_str :: "(digest \<Rightarrow> string) \<Rightarrow> (string \<times> jval) list \<Rightarrow> string" where
  "extra_str hex [] = []"
| "extra_str hex ((k, v) # kvs) = CHR '' '' # k @ CHR ''='' # show_jval hex v @ extra_str hex kvs"

definition now_ns :: "nat \<Rightarrow> u64" where
  "now_ns nanos_since_epoch = of_nat nanos_since_epoch"

definition log_line ::
  "(digest \<Rightarrow> string) \<Rightarrow> ((string \<times> jval) list \<Rightarrow> (string \<times> jval) list) \<Rightarrow> u32 \<Rightarrow> nat \<Rightarrow> u64 \<Rightarrow> string \<Rightarrow>
   (string \<times> jval) list \<Rightarrow> string" where
  "log_line hex obj node_id nanos view event extras =
     ''[node '' @ decimal (unat node_id) @ ''] view='' @ decimal (unat view) @ '' '' @ event @ '' ts_ns='' @
     decimal (unat (now_ns nanos)) @ extra_str hex (obj extras)"

subsection \<open>Reading a line back\<close>

text \<open>The words of a line, as the scripts that read the logs take it apart.\<close>

definition words_of :: "string \<Rightarrow> string list" where
  "words_of = split_on CHR '' ''"

definition plain :: "string \<Rightarrow> bool" where
  "plain s \<longleftrightarrow> CHR '' '' \<notin> set s"

lemma words_of_plain: "plain s \<Longrightarrow> words_of s = [s]"
  by (simp add: plain_def words_of_def split_on_plain)

lemma words_of_append: "plain s \<Longrightarrow> words_of (s @ CHR '' '' # t) = s # words_of t"
  by (simp add: plain_def words_of_def split_on_append)

lemma plain_simps [simp]:
  "plain []" "plain (c # s) \<longleftrightarrow> c \<noteq> CHR '' '' \<and> plain s" "plain (s @ t) \<longleftrightarrow> plain s \<and> plain t"
  by (auto simp: plain_def)

lemma plain_decimal [simp]: "plain (decimal n)"
proof (induction n rule: decimal.induct)
  case (1 n)
  have d: "digit k \<noteq> CHR '' ''" if "k < 10" for k
    using digit_val_digit [OF that] by (cases "k = 0") (auto simp: digit_val_def digit_simps)
  show ?case
    using 1 d [of n] d [of "n mod 10"] by (subst decimal.simps) auto
qed

definition plain_field :: "(digest \<Rightarrow> string) \<Rightarrow> string \<times> jval \<Rightarrow> bool" where
  "plain_field hex kv \<longleftrightarrow> plain (fst kv) \<and> plain (show_jval hex (snd kv))"

lemma words_of_extra:
  "plain s \<Longrightarrow> list_all (plain_field hex) kvs \<Longrightarrow>
     words_of (s @ extra_str hex kvs) = s # map (\<lambda>(k, v). k @ CHR ''='' # show_jval hex v) kvs"
proof (induction kvs arbitrary: s)
  case (Cons kv kvs)
  obtain k v where kv: "kv = (k, v)" by (cases kv)
  have "words_of ((k @ CHR ''='' # show_jval hex v) @ extra_str hex kvs) =
      (k @ CHR ''='' # show_jval hex v) # map (\<lambda>(k, v). k @ CHR ''='' # show_jval hex v) kvs"
    using Cons.prems kv by (intro Cons.IH) (auto simp: plain_field_def)
  then show ?case using Cons.prems(1) kv words_of_append [of s] by simp
qed (simp add: words_of_plain)

text \<open>
  \<^bold>\<open>C40\<close>. A log line can be taken apart again: split at blanks, it is the node, the view, the
  event, the time and one word per field, in this order, as long as event, keys and values have
  no blank in them.
\<close>

theorem log_line_words:
  assumes "plain event" and "list_all (plain_field hex) (obj extras)"
  shows "words_of (log_line hex obj node_id nanos view event extras) =
    [''[node'', decimal (unat node_id) @ '']'', ''view='' @ decimal (unat view), event,
     ''ts_ns='' @ decimal (unat (now_ns nanos))] @ map (\<lambda>(k, v). k @ CHR ''='' # show_jval hex v) (obj extras)"
proof -
  define t where "t = (''ts_ns='' @ decimal (unat (now_ns nanos))) @ extra_str hex (obj extras)"
  have line: "log_line hex obj node_id nanos view event extras =
      ''[node'' @ CHR '' '' # (decimal (unat node_id) @ '']'') @ CHR '' '' # (''view='' @ decimal (unat view)) @
      CHR '' '' # event @ CHR '' '' # t"
    by (simp add: log_line_def t_def)
  have plain: "plain ''[node''" "plain (decimal (unat node_id) @ '']'')" "plain (''view='' @ decimal (unat view))"
    "plain (''ts_ns='' @ decimal (unat (now_ns nanos)))" by simp_all
  show ?thesis
    unfolding line words_of_append [OF plain(1)] words_of_append [OF plain(2)] words_of_append [OF plain(3)]
      words_of_append [OF assms(1)] t_def words_of_extra [OF plain(4) assms(2)] by simp
qed

end
