(* ===== verification/Liveness.thy ===== *)
theory Liveness
  imports Reexecution Proof_Chain
begin

text \<open>
  Progress: what a correct leader does with a quorum of votes and what a correct replica does with
  the resulting certificate, the timeouts of the pacemaker, and the end of the walk over parent
  links that precedes execution.
\<close>

subsection \<open>From a quorum of votes to the next vote\<close>

text \<open>The three phases after PREPARE under one name: the rules and the flags of phase \<open>mt\<close>.\<close>

fun leader_rule :: "MsgType \<Rightarrow> Wiring \<Rightarrow> Replica \<Rightarrow> Replica" where
  "leader_rule PreCommit w r = leader_pre_commit w r"
| "leader_rule Commit w r = leader_commit w r"
| "leader_rule Decide w r = leader_decide w r"
| "leader_rule _ w r = r"

fun replica_rule :: "MsgType \<Rightarrow> Wiring \<Rightarrow> Replica \<Rightarrow> Replica" where
  "replica_rule PreCommit w r = replica_pre_commit w r"
| "replica_rule Commit w r = replica_commit w r"
| "replica_rule _ w r = r"

fun announced :: "MsgType \<Rightarrow> ViewData \<Rightarrow> bool" where
  "announced PreCommit d = broadcast_pre_commit d"
| "announced Commit d = broadcast_commit d"
| "announced Decide d = broadcast_decide d"
| "announced _ d = True"

fun engaged :: "MsgType \<Rightarrow> ViewData \<Rightarrow> bool" where
  "engaged PreCommit d \<longleftrightarrow> seen_pre_commit_qc d \<or> voted_precommit d"
| "engaged Commit d \<longleftrightarrow> seen_commit_qc d \<or> voted_commit d"
| "engaged Decide d \<longleftrightarrow> seen_decide_qc d"
| "engaged _ d = True"

text \<open>What a replica has done for a node in phase \<open>mt\<close>: cast its vote, or decided.\<close>

definition acted :: "MsgType \<Rightarrow> Wiring \<Rightarrow> digest \<Rightarrow> Replica \<Rightarrow> bool" where
  "acted mt w h r =
     (if mt = Decide then h \<in> set (decided_nodes r) else Signed (my_id w) mt (rs_view r) h \<in> set (history r))"

text \<open>A bucket in which one node has a quorum and every vote is signed under its voter's key.\<close>

definition quorum_ready ::
  "Externals \<Rightarrow> (u32, digest) hashmap \<Rightarrow> MsgType \<Rightarrow> u64 \<Rightarrow> u32 \<Rightarrow> vote_bucket \<Rightarrow> bool" where
  "quorum_ready E keys mt v q votes \<longleftrightarrow>
     hm_ok votes \<and> hm_len votes < 2 ^ 32 \<and> 0 < q \<and> (\<exists>nh. unat q \<le> card (voters_for votes nh)) \<and>
     (\<forall>i nh sig. hm_get votes i = Some (nh, sig) \<longrightarrow>
        (\<exists>pk. hm_get keys i = Some pk \<and> verify_vote_sig E pk mt v nh sig))"

lemma quorum_forms:
  assumes "quorum_ready E keys mt v q votes" and "iterates (iter_u32 E)" and "iterates (iter_digest E)"
  obtains qc where "form_qc E votes mt v q = Some qc" and "qc_msg_type qc = mt" and "qc_view qc = v"
    and "unat q \<le> card (voters_for votes (qc_node_hash qc))" and "verify_qc_sync E qc q keys"
proof -
  have votes: "hm_ok votes" "hm_len votes < 2 ^ 32" "0 < q" and "\<exists>nh. unat q \<le> card (voters_for votes nh)"
    and sigs: "\<And>i nh sig. hm_get votes i = Some (nh, sig) \<Longrightarrow> \<exists>pk. hm_get keys i = Some pk \<and> verify_vote_sig E pk mt v nh sig"
    using assms(1) by (auto simp: quorum_ready_def)
  with form_qc_cases [OF votes(1) assms(2,3) votes(3), of mt v]
  obtain qc where qc: "form_qc E votes mt v q = Some qc" "qc_msg_type qc = mt" "qc_view qc = v"
    "unat q \<le> card (voters_for votes (qc_node_hash qc))"
    by (auto split: option.splits) (meson not_less)
  then show ?thesis using that form_verify_roundtrip [OF qc(1) votes(1) assms(2) votes(2) sigs] by blast
qed


lemma kick_keeps:
  "view_data (out_state (maybe_kick_validation w h r)) = view_data r"
  "rs_view (out_state (maybe_kick_validation w h r)) = rs_view r" "rs_n (out_state (maybe_kick_validation w h r)) = rs_n r"
  "locked_qc (out_state (maybe_kick_validation w h r)) = locked_qc r"
  "set (outbox r) \<subseteq> set (outbox (out_state (maybe_kick_validation w h r)))"
  by (auto simp: maybe_kick_validation_def Let_def split: option.splits sum.splits)

lemma kick_Ok:
  assumes "hm_get (tree r) h = Some nd" and "block (plat w) (workload w) (n_height nd) = Inr b"
  obtains r' where "maybe_kick_validation w h r = Ok r'"
proof (cases "maybe_kick_validation w h r")
  case (Panicked e r')
  then show ?thesis using assms by (simp add: maybe_kick_validation_def Let_def split: option.splits if_splits)
qed (rule that)

lemma ingest_keeps:
  "view_data (ingest_validation out r) = view_data r" "rs_view (ingest_validation out r) = rs_view r"
  "rs_n (ingest_validation out r) = rs_n r" "locked_qc (ingest_validation out r) = locked_qc r"
  "validation_result (ingest_validation out r) = hm_insert (out_node_hash out) (out_valid out) (validation_result r)"
  by (simp_all add: ingest_validation_def Let_def split: option.splits)

lemma vote_on_valid:
  assumes "rs_view r = v" and "vd r v = Some d" and "proposal d = Some (nd, hq)" and "\<not> voted_prepare d"
    and "hm_get (validation_result r) (node_hash (env w) nd) = Some True"
    and "safe_node (env w) nd hq (locked_qc r) (tree r)"
  shows "acted Prepare w (node_hash (env w) nd) (replica_prepare w r)"
proof -
  have "vd_entry r v = d" using assms(2) by (simp add: vd_entry_def)
  then show ?thesis
    using assms by (simp add: acted_def replica_prepare_def cast_vote_def Let_def vd_entry_vd_mut)
qed

lemma leader_proposes:
  assumes "rs_view l = v" and "leader_for (rs_n l) v = my_id wl" and "\<not> broadcast_proposal (vd_entry l v)"
    and "vd l (saturating_sub v 1) = Some d" and "v \<noteq> 0" and "unat (rs_quorum l) \<le> hm_len (new_view_msgs d)"
    and hq: "hq = highest_qc (env wl) (new_view_msgs d)" and "next_height l hq = Some h"
    and "h < ucast (num_blocks (wl_manifest (workload wl)))" and b: "block (plat wl) (workload wl) h = Inr b"
    and nd: "nd = \<lparr>n_parent = (case hq of Some q \<Rightarrow> qc_node_hash q | None \<Rightarrow> GENESIS_HASH), n_cmd = b_cmd b, n_height = h\<rparr>"
  shows "Broadcast (Proposal v nd hq (my_id wl)) \<in> set (outbox (out_state (leader_prepare wl l)))"
proof -
  have "saturating_sub v 1 \<noteq> v" using assms(5) by (simp add: saturating_sub_def)
  then have "vd (vd_mut v (\<lambda>d. d) l) (saturating_sub v 1) = Some d" "vd_entry (vd_mut v (\<lambda>d. d) l) (saturating_sub v 1) = d"
    using assms(4) by (simp_all add: vd_def vd_mut_def vd_entry_def)
  moreover have "next_height (vd_mut v (\<lambda>d. d) l) hq = Some h" using assms(8) by (simp add: next_height_def cong: option.case_cong)
  ultimately have "leader_prepare wl l = propose wl v hq h b (vd_mut v (\<lambda>d. d) l)"
    using assms(1-3,6,9) b by (simp add: leader_prepare_def Let_def vd_entry_vd_mut linorder_not_le [symmetric] flip: hq)
  moreover have "Broadcast (Proposal v nd hq (my_id wl)) \<in> set (outbox (out_state (propose wl v hq h b r)))" for r
    unfolding propose_def Let_def nd by (rule subsetD [OF kick_keeps(5)]) simp
  ultimately show ?thesis by simp
qed

lemma replica_votes:
  assumes "rs_view r = v" and "sender = leader_for (rs_n r) v" and hq: "qc_acceptable w keys r hq"
    and new: "proposal (vd_entry r v) = None" "\<not> voted_prepare (vd_entry r v)"
    and nd: "n_parent nd = (case hq of Some q \<Rightarrow> qc_node_hash q | None \<Rightarrow> GENESIS_HASH)"
    and b: "block (plat w) (workload w) (n_height nd) = Inr b"
    and out: "out_node_hash out = node_hash (env w) nd" "out_valid out"
    and safe: "safe_node (env w) nd hq (locked_qc r) (hm_insert (node_hash (env w) nd) nd (tree r))"
  shows "case handle_msg w keys (Proposal v nd hq sender) r of
      Ok r' \<Rightarrow> acted Prepare w (node_hash (env w) nd) (replica_prepare w (ingest_validation out r')) | Panicked e r' \<Rightarrow> False"
proof -
  let ?h = "node_hash (env w) nd"
  let ?r1 = "vd_mut v (\<lambda>d. d) (tree_insert ?h nd r)"
  obtain x where "handle_msg w keys (Proposal v nd hq sender) r =
      maybe_kick_validation w ?h (log_event v ''propose_recv'' x (vd_mut v (\<lambda>d. d\<lparr>proposal := Some (nd, hq)\<rparr>) ?r1))"
    using assms(2) hq new(1) by (simp add: handle_proposal_def Let_def vd_entry_vd_mut nd)
  moreover define r2 where "r2 = log_event v ''propose_recv'' x (vd_mut v (\<lambda>d. d\<lparr>proposal := Some (nd, hq)\<rparr>) ?r1)"
  moreover have t: "tree r2 = hm_insert ?h nd (tree r)" by (simp add: r2_def tree_insert_def)
  moreover obtain r' where r': "maybe_kick_validation w ?h r2 = Ok r'"
    by (rule kick_Ok [of r2 ?h nd w b]) (use t b in simp_all)
  moreover have "acted Prepare w ?h (replica_prepare w (ingest_validation out r'))"
  proof -
    have "vd r2 v = Some ((vd_entry r v)\<lparr>proposal := Some (nd, hq)\<rparr>)"
      by (simp add: r2_def vd_def vd_mut_def vd_entry_def log_event_def emit_def tree_insert_def)
    then have "vd (ingest_validation out r') v = Some ((vd_entry r v)\<lparr>proposal := Some (nd, hq)\<rparr>)"
      using kick_keeps(1) [of w ?h r2] r' by (simp add: vd_def ingest_keeps)
    then show ?thesis
      using vote_on_valid [of "ingest_validation out r'" v _ nd hq w] kick_keeps(2,4) [of w ?h r2] kick_frame(2) [of w ?h r2]
        r' assms(1) new(2) out safe t by (simp add: ingest_keeps) (simp add: r2_def tree_insert_def)
  qed
  ultimately show ?thesis by simp
qed


subsection \<open>The pacemaker\<close>

text \<open>The timer of the current view fires, \<open>k\<close> times in a row.\<close>

fun timeouts :: "Wiring \<Rightarrow> nat \<Rightarrow> Replica \<Rightarrow> Replica" where
  "timeouts w 0 r = r"
| "timeouts w (Suc k) r = handle_timer w \<lparr>evt_view = rs_view (timeouts w k r)\<rparr> (timeouts w k r)"

lemma enter_new_view_frame:
  "rs_view (enter_new_view w v r) = v" "timeout_interval_ms (enter_new_view w v r) = timeout_interval_ms r"
  "seen_decide_qc (vd_entry (enter_new_view w v r) u) = seen_decide_qc (vd_entry r u)"
  "last (outbox (enter_new_view w v r)) = ArmTimer \<lparr>evt_view = v\<rparr> (timeout_interval_ms r)"
  by (simp_all add: enter_new_view_def Let_def vd_entry_vd_mut emit_def log_event_def)

lemma handle_timer_fires:
  assumes "\<not> seen_decide_qc (vd_entry r (rs_view r))"
  shows "handle_timer w \<lparr>evt_view = rs_view r\<rparr> r = enter_new_view w (rs_view r + 1)
    ((log_event (rs_view r) ''next_view'' [(''reason'', JStr ''timeout'')] r)
      \<lparr>timeout_interval_ms := saturating_mul (timeout_interval_ms r) 2\<rparr>)"
  using assms by (simp add: handle_timer_def Let_def vd_entry_def split: option.splits)

lemma timeouts_step:
  assumes "\<And>u. \<not> seen_decide_qc (vd_entry r u)"
  shows "unat (timeout_interval_ms (timeouts w k r)) = min (unat (timeout_interval_ms r) * 2 ^ k) (2 ^ 64 - 1) \<and>
    rs_view (timeouts w k r) = rs_view r + of_nat k \<and> (\<forall>u. \<not> seen_decide_qc (vd_entry (timeouts w k r) u))"
proof (induction k)
  case 0
  have "unat (timeout_interval_ms r) < 2 ^ LENGTH(64)" by (rule unsigned_less)
  then show ?case using assms by simp
next
  case (Suc k)
  let ?r = "timeouts w k r"
  have fire: "timeouts w (Suc k) r = enter_new_view w (rs_view ?r + 1)
    ((log_event (rs_view ?r) ''next_view'' [(''reason'', JStr ''timeout'')] ?r)
      \<lparr>timeout_interval_ms := saturating_mul (timeout_interval_ms ?r) 2\<rparr>)"
    using Suc handle_timer_fires [of ?r w] by simp
  have "unat (saturating_mul (timeout_interval_ms ?r) 2) = min (unat (timeout_interval_ms ?r) * 2) (2 ^ 64 - 1)"
    by (simp add: unat_saturating_mul)
  also have "\<dots> = min (unat (timeout_interval_ms r) * 2 ^ Suc k) (2 ^ 64 - 1)"
    using Suc min_mult_absorb [of 2 "unat (timeout_interval_ms r) * 2 ^ k" "2 ^ 64 - 1"] by (simp add: mult_ac)
  finally show ?case
    using Suc unfolding fire by (simp add: enter_new_view_frame)
qed


subsection \<open>The walk before execution\<close>

lemma finite_lower: "finite {h. \<exists>m. hm_get tr h = Some m \<and> unat (n_height m) \<le> k}"
proof (rule finite_subset)
  show "{h. \<exists>m. hm_get tr h = Some m \<and> unat (n_height m) \<le> k} \<subseteq> set (hm_keys tr)"
    by (auto simp: hm_keys_dom)
qed simp

lemma build_chain_Some:
  assumes tr: "\<And>h nd. hm_get tr h = Some nd \<Longrightarrow> node_hash E nd = h \<and> Known nd \<in> set H" and ok: "nodes_ok E H"
    and "\<forall>nd. hm_get tr cur = Some nd \<longrightarrow>
      card {h. \<exists>m. hm_get tr h = Some m \<and> unat (n_height m) \<le> unat (n_height nd)} < fuel" and "0 < fuel"
  shows "\<exists>c. build_chain fuel tr lh cur chain = Some (chain @ c) \<and> set c \<subseteq> dom (hm_get tr)"
  using assms(3,4)
proof (induction fuel arbitrary: cur chain)
  case (Suc fuel)
  let ?S = "\<lambda>nd. {h. \<exists>m. hm_get tr h = Some m \<and> unat (n_height m) \<le> unat (n_height nd)}"
  show ?case
  proof (cases "hm_get tr cur")
    case (Some nd')
    have S: "card (?S nd') < Suc fuel" using Some Suc.prems(1) by blast
    have "cur \<in> ?S nd'" using Some by simp
    then have "0 < card (?S nd')" using finite_lower card_gt_0_iff by blast
    then have fuel: "0 < fuel" using S by linarith
    have "card (?S np) < fuel" if np: "hm_get tr (n_parent nd') = Some np" "n_parent nd' \<noteq> GENESIS_HASH" for np
    proof -
      have "unat (n_height nd') = unat (n_height np) + 1"
        using nodes_okD(3) [OF ok, of nd' np] tr [OF Some] tr [OF np(1)] np(2) by simp
      then have "?S np \<subseteq> ?S nd'" and "cur \<notin> ?S np" using Some by auto
      then have "?S np \<subset> ?S nd'" using \<open>cur \<in> ?S nd'\<close> by blast
      then have "card (?S np) < card (?S nd')" by (rule psubset_card_mono [OF finite_lower])
      then show ?thesis using S by simp
    qed
    then have "\<exists>c. build_chain fuel tr lh (n_parent nd') (chain @ [cur]) = Some ((chain @ [cur]) @ c) \<and> set c \<subseteq> dom (hm_get tr)"
      if "n_parent nd' \<noteq> GENESIS_HASH" using Suc.IH [of "n_parent nd'" "chain @ [cur]"] fuel that by blast
    then show ?thesis using Some by auto
  qed simp
qed simp

lemma execute_loop_panics:
  assumes "set hs \<subseteq> dom (hm_get (tree r))" and "execute_loop w hs r = Panicked e r'"
  shows "e \<noteq> Diverges \<and> e \<noteq> ChainNodeMissing"
  using assms
proof (induction hs arbitrary: r)
  case (Cons nh hs)
  then obtain nd where nd: "hm_get (tree r) nh = Some nd" by auto
  have kick: "e \<noteq> Diverges \<and> e \<noteq> ChainNodeMissing" if "maybe_kick_validation w nh r = Panicked e r'"
    using that by (auto simp: maybe_kick_validation_def block_def block_at_def Let_def split: option.splits sum.splits if_splits)
  have node: "e \<noteq> Diverges \<and> e \<noteq> ChainNodeMissing" if "execute_node w nh nd r = Panicked e r'"
    using that by (auto simp: execute_node_def Let_def split: option.splits if_splits)
  have rest: "e \<noteq> Diverges \<and> e \<noteq> ChainNodeMissing"
    if "execute_node w nh nd r = Ok r1" "execute_loop w hs r1 = Panicked e r'" for r1
    using Cons.IH [of r1] Cons.prems(1) that execute_node_frame(2) [of w nh nd r] by simp
  show ?case
    using Cons.prems(2) nd kick node rest
    by (cases "execute_node w nh nd r") (auto split: if_splits option.splits bool.splits)
qed simp

lemma node_run_stored:
  assumes "node_run w n s0 val r os" and "nodes_ok (env w) (history r)"
  shows "stored w r"
proof (cases val)
  case (Reexecute d)
  then show ?thesis using reexec.run_keeps [of w n s0 d r os] reexec.I_stored assms by blast
next
  case (Verify vk)
  then show ?thesis using verify.run_keeps [of w n s0 vk r os] verify.I_stored assms by blast
qed


end
