(* ===== verification/Input_Gaps.thy ===== *)
theory Input_Gaps
  imports Liveness
begin

text \<open>
  What the handlers let through: a vote in the receiver's own name is counted without a signature
  check, and a proposal is stored, and its block loaded, before its height is compared with anything.
\<close>

subsection \<open>Votes in the receiver's own name\<close>

text \<open>
  A forged vote spoils the leader's certificate: a leader one vote short of a quorum that
  receives a vote in its own name, with any signature bytes, counts it, broadcasts a
  certificate that no replica's verifier accepts, and keeps that certificate as its own
  \<^verbatim>\<open>prepare_qc\<close>.
\<close>

lemma forged_self_vote:
  assumes "rs_view r = v" and "leader_for (rs_n r) v = my_id w"
    and "\<not> announced PreCommit (vd_entry r v)" and "\<not> engaged PreCommit (vd_entry r v)"
    and "prepare_votes (vd_entry r v) = votes" and "hm_ok votes" and "hm_get votes (my_id w) = None"
    and "card (voters_for votes nh) + 1 = unat (rs_quorum r)"
    and "\<And>nh'. nh' \<noteq> nh \<Longrightarrow> card (voters_for votes nh') < unat (rs_quorum r)"
    and "iterates (iter_u32 (env w))" and "iterates (iter_digest (env w))"
    and "\<And>pk. hm_get keys (my_id w) = Some pk \<Longrightarrow> \<not> verify_vote_sig (env w) pk Prepare v nh sig"
  shows "\<exists>r1 qc. handle_msg w keys0 (Vote Prepare v nh (my_id w) sig) r = Ok r1 \<and>
    Broadcast (PhaseQc PreCommit v qc (my_id w)) \<in> set (outbox (leader_pre_commit w r1)) \<and>
    prepare_qc (replica_pre_commit w (leader_pre_commit w r1)) = Some qc \<and>
    \<not> verify_qc_sync (env w) qc (rs_quorum r) keys"
proof -
  let ?votes = "hm_insert (my_id w) (nh, sig) votes"
  let ?r1 = "handle_vote w keys0 Prepare v nh (my_id w) sig r"
  have r1: "prepare_votes (vd_entry ?r1 v) = ?votes" "rs_view ?r1 = v" "rs_n ?r1 = rs_n r" "rs_quorum ?r1 = rs_quorum r"
    "\<not> broadcast_pre_commit (vd_entry ?r1 v)" "\<not> seen_pre_commit_qc (vd_entry ?r1 v)" "\<not> voted_precommit (vd_entry ?r1 v)"
    using assms(1-7) by (simp_all add: handle_vote_def vote_admitted_def Let_def vd_entry_vd_mut)
  have new: "voters_for ?votes nh = insert (my_id w) (voters_for votes nh)"
    "nh' \<noteq> nh \<Longrightarrow> voters_for ?votes nh' = voters_for votes nh'" for nh'
    using assms(7) by (auto simp: voters_for_def)
  have "card (voters_for ?votes nh) = unat (rs_quorum r)"
    using assms(7,8) unfolding new by (subst card_insert_disjoint) (simp_all add: voters_for_def)
  moreover have "0 < rs_quorum r" using assms(8) by (simp add: word_less_nat_alt)
  moreover have ok: "hm_ok ?votes" using assms(6) by simp
  note form_qc_cases [OF ok assms(10,11) calculation(2), of Prepare v]
  ultimately obtain qc where qc: "form_qc (env w) ?votes Prepare v (rs_quorum r) = Some qc" "qc_msg_type qc = Prepare"
    "qc_view qc = v" "set (qc_sigs qc) = {(i, s). hm_get ?votes i = Some (qc_node_hash qc, s)}"
    "unat (rs_quorum r) \<le> card (voters_for ?votes (qc_node_hash qc))"
    by (auto split: option.splits) (metis less_irrefl)
  have hash: "qc_node_hash qc = nh" using qc(5) assms(9) new(2) by (metis not_less)
  have "valid_signers (env w) keys qc \<subseteq> voters_for votes nh"
    using qc(2-4) assms(12) hash by (auto simp: valid_signers_def valid_sig_def voters_for_def split: if_splits)
  then have "card (valid_signers (env w) keys qc) \<le> card (voters_for votes nh)"
    by (rule card_mono [rotated]) simp
  then have "\<not> verify_qc_sync (env w) qc (rs_quorum r) keys" using verify_qc_sound assms(8) by fastforce
  moreover have "Broadcast (PhaseQc PreCommit v qc (my_id w)) \<in> set (outbox (leader_pre_commit w ?r1))"
    "prepare_qc (replica_pre_commit w (leader_pre_commit w ?r1)) = Some qc"
    using assms(2) r1 qc(1)
    by (simp_all add: leader_pre_commit_def replica_pre_commit_def cast_vote_def Let_def emit_def log_event_def vd_entry_vd_mut)
  ultimately show ?thesis by (auto intro: exI [of _ ?r1])
qed

subsection \<open>Branches of any height\<close>

text \<open>
  Execution looks at heights, not at the branch: a validated node one above the last executed height
  is executed as soon as its parent is not above that height, whether or not that parent is the node
  executed there. No handler compares the height of a node with its parent's, so none rules out a
  branch with two such nodes, where the order of the decisions selects the one that is executed.
  This is why \<open>execution_agreement\<close> assumes consecutive heights. The block is the same for both:
  \<^verbatim>\<open>maybe_kick_validation\<close> compares the \<^verbatim>\<open>cmd\<close> of a node with the workload's block of that height.
\<close>

lemma executes_any_branch:
  assumes "hm_get (tree r) h = Some nd" and "sint (n_height nd) = last_executed_height r + 1"
    and "n_parent nd \<noteq> GENESIS_HASH" and "hm_get (tree r) (n_parent nd) = Some np"
    and "sint (n_height np) \<le> last_executed_height r"
    and "hm_get (validation_result r) h = Some True" and "hm_get (pre_root_by_node r) h = None"
  shows "\<exists>r'. try_execute_chain w h r = Ok r' \<and> last_executed_height r' = last_executed_height r + 1 \<and>
    executed_nodes (outbox r') = executed_nodes (outbox r) @ [(uint (n_height nd), h)]"
proof -
  obtain m where "hm_len (tree r) = Suc m"
    using assms(1) by (cases "tree r") (auto simp: hm_get_def hm_len_def)
  then have "build_chain (hm_len (tree r) + 1) (tree r) (last_executed_height r) h [] = Some [h]"
    using assms(1-5) by simp
  moreover have "hm_get (pre_root_by_node (take_post_state h r)) h = None"
    "last_executed_height (take_post_state h r) = last_executed_height r" "outbox (take_post_state h r) = outbox r"
    using assms(7) by (simp_all add: take_post_state_def split: option.splits)
  ultimately show ?thesis
    using assms(1,2,6) by (simp add: try_execute_chain_def execute_node_def Let_def)
qed

subsection \<open>Proposals of any height\<close>

text \<open>
  \<^bold>\<open>C13\<close>. A proposal can stop a node: a proposal under the leader's id, with the genesis as the parent
  and no certificate, whose height has no loadable block, panics the receiver in whatever
  state it is, unless it has met the same node before. Every height from
  \<open>2 ^ 32\<close> on is of this kind, for every workload.
\<close>

theorem proposal_height_panics:
  assumes "n_parent nd = GENESIS_HASH" and "hm_get (validation_result r) (node_hash (env w) nd) = None"
    and "pending_validation r \<noteq> Some (node_hash (env w) nd)"
    and "2 ^ 32 \<le> unat (n_height nd) \<or> (\<exists>e. block (plat w) (workload w) (n_height nd) = Inl e)"
  shows "\<exists>e r'. handle_msg w keys (Proposal v nd None (leader_for (rs_n r) v)) r = Panicked e r' \<and>
    block (plat w) (workload w) (n_height nd) = Inl e"
proof -
  obtain e where "block (plat w) (workload w) (n_height nd) = Inl e"
    using assms(4) block_small [of "plat w" "workload w" "n_height nd"] by (cases "block (plat w) (workload w) (n_height nd)") auto
  then show ?thesis
    using assms(1-3)
    by (simp add: handle_proposal_def qc_acceptable_def maybe_kick_validation_def tree_insert_def Let_def)
qed

end
