(* ===== verification/Transport.thy ===== *)
theory Transport
  imports Replica "HOL-Library.Sublist"
begin

text \<open>
  \<^verbatim>\<open>node/consensus-node/src/network.rs\<close>: length-prefixed frames, the
  \<open>Hello\<close> handshake, the tables of peers and keys, the reader and writer tasks of a
  connection, dialling with backoff, and the send operations. A TCP stream is the list of bytes
  that are still to be read; an unbounded channel is a list, a closed one drops what is sent to
  it. The bincode encoding of a message and the check of a public key are parameters. A timer is
  an entry of a list, which the runtime takes off when its time has come. The source starts each
  send as a task of its own; here a send takes place at once, and the model of the network, where
  messages are delivered in any order, does not rely on the order of the channels.
\<close>

record WireCodec =
  ser_wire :: "Wire \<Rightarrow> bytes option"
  de_wire :: "bytes \<Rightarrow> Wire option"
  key_from_bytes :: "digest \<Rightarrow> bool"

datatype io_error = UnexpectedEof | InvalidData | WriteFailed | ExpectedHello Wire

subsection \<open>Frames\<close>

definition write_frame :: "bytes \<Rightarrow> bytes" where
  "write_frame bs = u32_be (of_nat (length bs)) @ bs"

definition read_exact :: "nat \<Rightarrow> bytes \<Rightarrow> io_error + bytes \<times> bytes" where
  "read_exact n stream = (if length stream < n then Inl UnexpectedEof else Inr (take n stream, drop n stream))"

definition read_frame :: "bytes \<Rightarrow> io_error + bytes \<times> bytes" where
  "read_frame stream =
     (case read_exact 4 stream of
        Inl e \<Rightarrow> Inl e
      | Inr (len_buf, rest) \<Rightarrow> read_exact (unat (u32_from_be len_buf)) rest)"

definition send_msg :: "WireCodec \<Rightarrow> Wire \<Rightarrow> io_error + bytes" where
  "send_msg K msg = (case ser_wire K msg of None \<Rightarrow> Inl InvalidData | Some bs \<Rightarrow> Inr (write_frame bs))"

definition recv_msg :: "WireCodec \<Rightarrow> bytes \<Rightarrow> io_error + Wire \<times> bytes" where
  "recv_msg K stream =
     (case read_frame stream of
        Inl e \<Rightarrow> Inl e
      | Inr (bs, rest) \<Rightarrow> (case de_wire K bs of None \<Rightarrow> Inl InvalidData | Some msg \<Rightarrow> Inr (msg, rest)))"

text \<open>The result of a handshake: the bytes it wrote (if the socket took them), and the peer's id and key with the rest of the stream.\<close>

definition handshake ::
  "WireCodec \<Rightarrow> bool \<Rightarrow> u32 \<Rightarrow> digest \<Rightarrow> bytes \<Rightarrow> bytes \<times> (io_error + u32 \<times> digest \<times> bytes)" where
  "handshake K can_write me my_pk stream =
     (case send_msg K (Hello me my_pk) of
        Inl e \<Rightarrow> ([], Inl e)
      | Inr out \<Rightarrow>
          if \<not> can_write then ([], Inl WriteFailed) else
          (out, case recv_msg K stream of
             Inl e \<Rightarrow> Inl e
           | Inr (Hello node_id pubkey, rest) \<Rightarrow> Inr (node_id, pubkey, rest)
           | Inr (other, rest) \<Rightarrow> Inl (ExpectedHello other)))"

subsection \<open>Connections\<close>

record Transport =
  peer_writers :: "(u32, nat) hashmap"
  peer_keys :: "(u32, digest) hashmap"
  inbox :: "Wire list"
  channels :: "nat \<Rightarrow> Wire list"
  closed :: "nat set"
  next_chan :: nat
  timers :: "(TimerEvent \<times> u64) list"

definition Transport_new :: "u32 \<Rightarrow> digest \<Rightarrow> Transport" where
  "Transport_new node_id pk =
     \<lparr>peer_writers = hm_empty, peer_keys = hm_insert node_id pk hm_empty, inbox = [],
      channels = (\<lambda>c. []), closed = {}, next_chan = 0, timers = []\<rparr>"

text \<open>
  \<^verbatim>\<open>install_connection\<close> up to the start of the two tasks: the new state and, when the
  connection is kept, the peer, its channel and the rest of the stream.
\<close>

definition install_connection ::
  "WireCodec \<Rightarrow> bool \<Rightarrow> u32 \<Rightarrow> digest \<Rightarrow> bytes \<Rightarrow> Transport \<Rightarrow> Transport \<times> (u32 \<times> nat \<times> bytes) option" where
  "install_connection K can_write me my_pk stream t =
     (case snd (handshake K can_write me my_pk stream) of
        Inl e \<Rightarrow> (t, None)
      | Inr (peer_id, peer_pk, rest) \<Rightarrow>
          if \<not> key_from_bytes K peer_pk then (t, None)
          else let chan = next_chan t;
                   t1 = t\<lparr>next_chan := chan + 1, peer_keys := hm_insert peer_id peer_pk (peer_keys t)\<rparr>
               in if hm_get (peer_writers t1) peer_id \<noteq> None
                  then (t1\<lparr>closed := insert chan (closed t1)\<rparr>, None)
                  else (t1\<lparr>peer_writers := hm_insert peer_id chan (peer_writers t1)\<rparr>,
                        Some (peer_id, chan, rest)))"

text \<open>The reader task: every message up to the first error goes to the inbox; then the writer is dropped.\<close>

lemma recv_msg_shorter: "recv_msg K stream = Inr (msg, rest) \<Longrightarrow> length rest < length stream"
  by (auto simp: recv_msg_def read_frame_def read_exact_def split: sum.splits option.splits if_splits)

function read_msgs :: "WireCodec \<Rightarrow> bytes \<Rightarrow> Wire list" where
  "read_msgs K stream =
     (case recv_msg K stream of
        Inl e \<Rightarrow> []
      | Inr (msg, rest) \<Rightarrow> msg # read_msgs K rest)"
  by pat_completeness auto
termination
  by (relation "measure (\<lambda>(K, stream). length stream)") (auto dest: recv_msg_shorter)

declare read_msgs.simps [simp del]

definition reader_task :: "WireCodec \<Rightarrow> u32 \<Rightarrow> bytes \<Rightarrow> Transport \<Rightarrow> Transport" where
  "reader_task K peer_id stream t =
     t\<lparr>inbox := inbox t @ read_msgs K stream, peer_writers := hm_remove peer_id (peer_writers t)\<rparr>"

text \<open>
  The writer task, on the messages of its channel in order. Each message is encoded and written;
  \<open>writes\<close> tells for each whether the socket took it. The first failure ends the task and
  closes the channel.
\<close>

fun write_msgs :: "WireCodec \<Rightarrow> bool list \<Rightarrow> Wire list \<Rightarrow> bytes \<times> bool" where
  "write_msgs K writes [] = ([], True)"
| "write_msgs K writes (msg # msgs) =
     (case send_msg K msg of
        Inl e \<Rightarrow> ([], False)
      | Inr bs \<Rightarrow>
          (case writes of
             True # ws \<Rightarrow> (case write_msgs K ws msgs of (out, alive) \<Rightarrow> (bs @ out, alive))
           | _ \<Rightarrow> ([], False)))"

definition writer_task :: "WireCodec \<Rightarrow> bool list \<Rightarrow> nat \<Rightarrow> Transport \<Rightarrow> Transport \<times> bytes" where
  "writer_task K writes chan t =
     (case write_msgs K writes (channels t chan) of
        (out, alive) \<Rightarrow>
          (t\<lparr>channels := (channels t)(chan := []),
             closed := (if alive then closed t else insert chan (closed t))\<rparr>, out))"

text \<open>The accept loop: each accepted stream is installed; an accept error is skipped.\<close>

fun listen_task ::
  "WireCodec \<Rightarrow> u32 \<Rightarrow> digest \<Rightarrow> (bool \<times> bytes) option list \<Rightarrow> Transport \<Rightarrow> Transport" where
  "listen_task K me my_pk [] t = t"
| "listen_task K me my_pk (None # accepts) t = listen_task K me my_pk accepts t"
| "listen_task K me my_pk (Some (can_write, stream) # accepts) t =
     listen_task K me my_pk accepts (fst (install_connection K can_write me my_pk stream t))"

text \<open>
  The dial loop, over the results of its connection attempts: the waits in milliseconds before the
  first success, and that connection.
\<close>

fun dial_loop :: "u64 \<Rightarrow> 'a option list \<Rightarrow> u64 list \<times> 'a option" where
  "dial_loop backoff_ms [] = ([], None)"
| "dial_loop backoff_ms (Some stream # attempts) = ([], Some stream)"
| "dial_loop backoff_ms (None # attempts) =
     (case dial_loop (min (backoff_ms * 2) 2000) attempts of (waits, conn) \<Rightarrow> (backoff_ms # waits, conn))"

definition dial_task ::
  "WireCodec \<Rightarrow> u32 \<Rightarrow> digest \<Rightarrow> (bool \<times> bytes) option list \<Rightarrow> Transport \<Rightarrow> u64 list \<times> Transport" where
  "dial_task K me my_pk attempts t =
     (case dial_loop 200 attempts of
        (waits, None) \<Rightarrow> (waits, t)
      | (waits, Some (can_write, stream)) \<Rightarrow> (waits, fst (install_connection K can_write me my_pk stream t)))"

subsection \<open>Sending\<close>

definition channel_send :: "nat \<Rightarrow> Wire \<Rightarrow> Transport \<Rightarrow> Transport" where
  "channel_send chan msg t =
     (if chan \<in> closed t then t else t\<lparr>channels := (channels t)(chan := channels t chan @ [msg])\<rparr>)"

fun send_all :: "nat list \<Rightarrow> Wire \<Rightarrow> Transport \<Rightarrow> Transport" where
  "send_all [] msg t = t"
| "send_all (c # cs) msg t = send_all cs msg (channel_send c msg t)"

definition broadcast :: "Externals \<Rightarrow> Wire \<Rightarrow> Transport \<Rightarrow> Transport" where
  "broadcast E msg t =
     send_all (map (\<lambda>i. the (hm_get (peer_writers t) i)) (iter_u32 E (hm_keys (peer_writers t)))) msg t"

definition send_to :: "u32 \<Rightarrow> Wire \<Rightarrow> Transport \<Rightarrow> Transport" where
  "send_to peer_id msg t =
     (case hm_get (peer_writers t) peer_id of
        None \<Rightarrow> t
      | Some chan \<Rightarrow> channel_send chan msg t)"

definition arm_timer :: "TimerEvent \<Rightarrow> u64 \<Rightarrow> Transport \<Rightarrow> Transport" where
  "arm_timer evt ms t = t\<lparr>timers := timers t @ [(evt, ms)]\<rparr>"

text \<open>What a consensus step hands to the runtime, carried out.\<close>

fun dispatch :: "Externals \<Rightarrow> effect \<Rightarrow> Transport \<Rightarrow> Transport" where
  "dispatch E (Broadcast msg) t = broadcast E msg t"
| "dispatch E (SendTo peer_id msg) t = send_to peer_id msg t"
| "dispatch E (ArmTimer evt ms) t = arm_timer evt ms t"
| "dispatch E (LogEvent view ev extras) t = t"

subsection \<open>Frames on a stream\<close>

text \<open>
  The contract of a self-delimiting encoding: a decoder takes one encoded value off the front of a
  stream. Streams of such values are unambiguous.
\<close>

locale stream_codec =
  fixes enc :: "'a \<Rightarrow> bytes" and dec :: "bytes \<Rightarrow> 'e + 'a \<times> bytes" and ok :: "'a \<Rightarrow> bool"
  assumes dec_front: "ok x \<Longrightarrow> dec (enc x @ rest) = Inr (x, rest)"
    and enc_nonempty: "enc x \<noteq> []"
begin

lemma front_inject:
  assumes "ok x" and "ok y"
  shows "enc x @ r = enc y @ s \<longleftrightarrow> x = y \<and> r = s"
proof
  assume eq: "enc x @ r = enc y @ s"
  have "Inr (x, r) = dec (enc x @ r)" by (rule dec_front [OF assms(1), symmetric])
  also have "\<dots> = Inr (y, s)" unfolding eq by (rule dec_front [OF assms(2)])
  finally show "x = y \<and> r = s" by simp
qed simp

lemma stream_inject:
  "list_all ok xs \<Longrightarrow> list_all ok ys \<Longrightarrow> concat (map enc xs) = concat (map enc ys) \<longleftrightarrow> xs = ys"
proof (induction xs arbitrary: ys)
  case Nil
  then show ?case using enc_nonempty by (cases ys) simp_all
next
  case (Cons x xs)
  show ?case
  proof (cases ys)
    case Nil
    then show ?thesis using enc_nonempty by simp
  next
    case (Cons y zs)
    then show ?thesis using Cons.IH Cons.prems by (simp add: front_inject)
  qed
qed

end

lemma length_u32_be [simp]: "length (u32_be n) = 4"
  by (rule u32_be.enc_length)

lemma read_frame_write:
  "read_frame (write_frame bs @ rest) =
     (let k = length bs mod 2 ^ 32 in Inr (take k bs, drop k bs @ rest))"
proof -
  have "unat (u32_from_be (u32_be (of_nat (length bs)))) = length bs mod 2 ^ 32"
    by (simp add: u32_be.dec_enc unat_of_nat)
  then show ?thesis
    by (simp add: read_frame_def write_frame_def read_exact_def Let_def)
qed

interpretation frames: stream_codec write_frame read_frame "\<lambda>bs. length bs < 2 ^ 32"
proof
  show "read_frame (write_frame bs @ rest) = Inr (bs, rest)" if "length bs < 2 ^ 32" for bs rest
    using that by (simp add: read_frame_write Let_def)
  show "write_frame bs \<noteq> []" for bs
    by (simp add: write_frame_def) (metis length_u32_be list.size(3) zero_neq_numeral)
qed

lemma read_frame_cut:
  assumes "length bs < 2 ^ 32" and "k < length (write_frame bs)"
  shows "\<exists>e. read_frame (take k (write_frame bs)) = Inl e"
proof (cases "k < 4")
  case True
  then have "length (take k (write_frame bs)) < 4" by simp
  then show ?thesis unfolding read_frame_def read_exact_def by auto
next
  case False
  then have "take k (write_frame bs) = u32_be (of_nat (length bs)) @ take (k - 4) bs"
    by (simp add: write_frame_def)
  moreover have "unat (u32_from_be (u32_be (of_nat (length bs)))) = length bs"
    using assms(1) by (simp add: u32_be.dec_enc unat_of_nat)
  ultimately show ?thesis
    using assms(2) False by (auto simp: read_frame_def read_exact_def write_frame_def)
qed

text \<open>A message the codec carries through one frame.\<close>

definition sendable :: "WireCodec \<Rightarrow> Wire \<Rightarrow> bool" where
  "sendable K msg \<longleftrightarrow> (\<exists>bs. ser_wire K msg = Some bs \<and> length bs < 2 ^ 32 \<and> de_wire K bs = Some msg)"

text \<open>
  \<^bold>\<open>C37\<close>. Frames: reading back a written frame returns its first \<open>k\<close> bytes
  and leaves the others in the stream, where \<open>k\<close> is the length of the payload modulo
  \<open>2 ^ 32\<close>; a payload below 4 GiB therefore comes back whole, and a longer one makes
  the reader lose its place.
\<close>

theorem read_write_frame:
  "read_frame (write_frame bs @ rest) =
     Inr (take (length bs mod 2 ^ 32) bs, drop (length bs mod 2 ^ 32) bs @ rest)"
  using read_frame_write [of bs rest] by (simp add: Let_def)

lemma write_msgs_Cons:
  assumes "sendable K m"
  obtains bs where "ser_wire K m = Some bs" and "length bs < 2 ^ 32" and "de_wire K bs = Some m"
    and "write_msgs K (True # ws) (m # ms) =
         (write_frame bs @ fst (write_msgs K ws ms), snd (write_msgs K ws ms))"
  using assms by (auto simp: sendable_def send_msg_def split: prod.splits)

lemma read_msgs_front:
  assumes "length bs < 2 ^ 32" and "de_wire K bs = Some m"
  shows "read_msgs K (write_frame bs @ rest) = m # read_msgs K rest"
  using assms frames.dec_front [of bs rest] by (subst read_msgs.simps) (simp add: recv_msg_def)

lemma read_msgs_Nil [simp]: "read_msgs K [] = []"
  by (subst read_msgs.simps) (simp add: recv_msg_def read_frame_def read_exact_def)

text \<open>
  \<^bold>\<open>C36\<close>. The reader task inverts the writer task: on the bytes one writer produced, the
  reader delivers exactly the messages, in order; if the connection breaks after any number of
  bytes, it delivers a prefix of them and nothing else.
\<close>

theorem reader_inverts_writer:
  assumes "list_all (sendable K) msgs"
  shows "read_msgs K (fst (write_msgs K (replicate (length msgs) True) msgs)) = msgs \<and>
    prefix (read_msgs K (take k (fst (write_msgs K (replicate (length msgs) True) msgs)))) msgs"
  using assms
proof (induction msgs arbitrary: k)
  case (Cons m ms)
  let ?out = "fst (write_msgs K (replicate (length ms) True) ms)"
  have "sendable K m" and ms: "list_all (sendable K) ms" using Cons.prems by simp_all
  from this(1) obtain bs where bs: "length bs < 2 ^ 32" "de_wire K bs = Some m"
    and "write_msgs K (True # replicate (length ms) True) (m # ms) =
         (write_frame bs @ ?out, snd (write_msgs K (replicate (length ms) True) ms))"
    by (rule write_msgs_Cons)
  then have out: "fst (write_msgs K (replicate (length (m # ms)) True) (m # ms)) = write_frame bs @ ?out"
    by simp
  note IH = Cons.IH [OF ms]
  have "prefix (read_msgs K (take k (write_frame bs @ ?out))) (m # ms)"
  proof (cases "k < length (write_frame bs)")
    case True
    then obtain e where "read_frame (take k (write_frame bs)) = Inl e"
      using read_frame_cut [OF bs(1)] by blast
    then have "recv_msg K (take k (write_frame bs @ ?out)) = Inl e"
      using True by (simp add: recv_msg_def)
    then show ?thesis by (subst read_msgs.simps) simp
  next
    case False
    then show ?thesis
      using IH [of "k - length (write_frame bs)"] bs by (simp add: read_msgs_front)
  qed
  then show ?case
    using IH bs unfolding out by (simp add: read_msgs_front)
qed simp

subsection \<open>The connection table\<close>

text \<open>
  The transport as a state machine: connections are accepted or dialled (both end in
  \<^verbatim>\<open>install_connection\<close>), readers deliver messages and end, writers drain their channels, and the consensus
  code sends.
\<close>

inductive io_step :: "WireCodec \<Rightarrow> u32 \<Rightarrow> digest \<Rightarrow> Transport \<Rightarrow> Transport \<Rightarrow> bool"
  for K me my_pk where
  install: "io_step K me my_pk t (fst (install_connection K can_write me my_pk stream t))"
| deliver: "io_step K me my_pk t (t\<lparr>inbox := inbox t @ [msg]\<rparr>)" if "recv_msg K stream = Inr (msg, rest)"
| reader: "io_step K me my_pk t (reader_task K peer stream t)"
| writer: "io_step K me my_pk t (fst (writer_task K writes chan t))"

text \<open>
  The consensus code sends, with any iteration order of the table, takes a message off the inbox,
  and a timer expires.
\<close>

inductive transport_step :: "WireCodec \<Rightarrow> u32 \<Rightarrow> digest \<Rightarrow> Transport \<Rightarrow> Transport \<Rightarrow> bool"
  for K me my_pk where
  io: "transport_step K me my_pk t t'" if "io_step K me my_pk t t'"
| effect: "transport_step K me my_pk t (dispatch E e t)"
| receive: "transport_step K me my_pk t (t\<lparr>inbox := tl (inbox t)\<rparr>)"
| fire: "transport_step K me my_pk t (t\<lparr>timers := take k (timers t) @ drop (Suc k) (timers t)\<rparr>)"

definition transport_ok :: "Transport \<Rightarrow> bool" where
  "transport_ok t \<longleftrightarrow>
     hm_ok (peer_writers t) \<and> hm_ok (peer_keys t) \<and>
     dom (hm_get (peer_writers t)) \<subseteq> dom (hm_get (peer_keys t)) \<and>
     inj_on (hm_get (peer_writers t)) (dom (hm_get (peer_writers t))) \<and>
     (\<forall>i c. hm_get (peer_writers t) i = Some c \<longrightarrow> c < next_chan t)"

lemma channel_send_frame [simp]:
  "peer_writers (channel_send c msg t) = peer_writers t" "peer_keys (channel_send c msg t) = peer_keys t"
  "next_chan (channel_send c msg t) = next_chan t" "closed (channel_send c msg t) = closed t"
  "inbox (channel_send c msg t) = inbox t"
  by (simp_all add: channel_send_def)

lemma send_all_frame [simp]:
  "peer_writers (send_all cs msg t) = peer_writers t" "peer_keys (send_all cs msg t) = peer_keys t"
  "next_chan (send_all cs msg t) = next_chan t" "closed (send_all cs msg t) = closed t"
  "inbox (send_all cs msg t) = inbox t"
  by (induction cs arbitrary: t) simp_all

lemma hm_ok_remove: "hm_ok m \<Longrightarrow> hm_ok (hm_remove k m)"
  by (simp add: hm_ok_def hm_remove_def distinct_delete)

lemma install_ok:
  assumes "transport_ok t"
  shows "transport_ok (fst (install_connection K cw i pk stream t))"
proof -
  have "transport_ok (t\<lparr>next_chan := Suc (next_chan t), peer_keys := hm_insert j k (peer_keys t)\<rparr>)"
    and "transport_ok (t\<lparr>next_chan := Suc (next_chan t), peer_keys := hm_insert j k (peer_keys t), closed := C\<rparr>)"
    and "hm_get (peer_writers t) j = None \<Longrightarrow> transport_ok (t\<lparr>next_chan := Suc (next_chan t),
      peer_keys := hm_insert j k (peer_keys t), peer_writers := hm_insert j (next_chan t) (peer_writers t)\<rparr>)" for j k C
    using assms by (fastforce simp: transport_ok_def inj_on_def dom_def less_Suc_eq split: if_splits)+
  then show ?thesis
    using assms by (auto simp: install_connection_def Let_def split: sum.splits)
qed

lemma io_step_ok:
  assumes "io_step K i pk t t'" and "transport_ok t"
  shows "transport_ok t'"
  using assms(1)
proof cases
  case (install cw stream)
  then show ?thesis using install_ok [OF assms(2)] by simp
next
  case (deliver stream msg rest)
  then show ?thesis using assms(2) by (simp add: transport_ok_def)
next
  case (reader peer stream)
  then show ?thesis
    using assms(2) by (auto simp: transport_ok_def reader_task_def hm_ok_remove inj_on_def dom_def split: if_splits)
next
  case (writer writes chan)
  then show ?thesis using assms(2) by (simp add: transport_ok_def writer_task_def split: prod.splits)
qed

lemma transport_step_ok:
  assumes "transport_step K i pk t t'" and "transport_ok t"
  shows "transport_ok t'"
  using assms(1)
proof cases
  case io
  then show ?thesis using io_step_ok assms(2) by blast
next
  case (effect E e)
  then show ?thesis
    using assms(2)
    by (cases e) (simp_all add: transport_ok_def broadcast_def send_to_def arm_timer_def split: option.splits)
next
  case receive
  then show ?thesis using assms(2) by (simp add: transport_ok_def)
next
  case (fire k)
  then show ?thesis using assms(2) by (simp add: transport_ok_def)
qed

lemma transport_run_ok:
  assumes "(transport_step K me my_pk)\<^sup>*\<^sup>* (Transport_new me my_pk) t"
  shows "transport_ok t"
  using assms
proof (induction rule: rtranclp_induct)
  case base
  then show ?case by (auto simp: transport_ok_def Transport_new_def inj_on_def dom_def)
qed (rule transport_step_ok)


text \<open>
  \<^bold>\<open>C39\<close>. A second connection under the id of a connected peer is dropped, but its key
  replaces the peer's: from then on votes of that peer are checked against the newcomer's key.
\<close>

theorem duplicate_hello_replaces_key:
  assumes "ser_wire K (Hello me my_pk) = Some out" and "ser_wire K (Hello peer new_pk) = Some bs"
    and "length bs < 2 ^ 32" and "de_wire K bs = Some (Hello peer new_pk)" and "key_from_bytes K new_pk"
    and "hm_get (peer_writers t) peer = Some chan"
  shows "case install_connection K True me my_pk (write_frame bs) t of (t', kept) \<Rightarrow>
    kept = None \<and> hm_get (peer_keys t') peer = Some new_pk \<and> peer_writers t' = peer_writers t \<and>
    channels t' = channels t"
proof -
  have "read_frame (write_frame bs) = Inr (bs, [])"
    using frames.dec_front [OF assms(3), of "[]"] by simp
  then show ?thesis
    using assms by (simp add: install_connection_def handshake_def send_msg_def recv_msg_def Let_def)
qed

subsection \<open>Sending\<close>

lemma channels_send_all:
  assumes "distinct cs"
  shows "channels (send_all cs msg t) c =
    (if c \<in> set cs \<and> c \<notin> closed t then channels t c @ [msg] else channels t c)"
  using assms
proof (induction cs arbitrary: t)
  case (Cons d cs)
  then show ?case by (auto simp: channel_send_def)
qed simp

text \<open>
  \<^verbatim>\<open>broadcast\<close> puts the message once into the channel of every connected
  peer whose writer still runs, and touches no other channel; \<^verbatim>\<open>send_to\<close> does so for
  one peer and does nothing for a peer that is not connected.
\<close>

lemma broadcast_reaches_peers:
  assumes "transport_ok t" and "iterates (iter_u32 E)"
  shows "channels (broadcast E msg t) c =
      (if (\<exists>i. hm_get (peer_writers t) i = Some c) \<and> c \<notin> closed t
       then channels t c @ [msg] else channels t c) \<and>
    channels (send_to peer msg t) c =
      (if hm_get (peer_writers t) peer = Some c \<and> c \<notin> closed t
       then channels t c @ [msg] else channels t c)"
proof
  let ?m = "hm_get (peer_writers t)" and ?is = "iter_u32 E (hm_keys (peer_writers t))"
  have dom: "set ?is = dom ?m" using assms(2) by (simp add: iterates_set hm_keys_dom)
  have "distinct ?is" using assms by (simp add: iterates_distinct transport_ok_def hm_ok_def hm_keys_def)
  moreover have "inj_on (\<lambda>i. the (?m i)) (set ?is)"
    unfolding dom
  proof (rule inj_onI)
    fix i j assume ij: "i \<in> dom ?m" "j \<in> dom ?m" "the (?m i) = the (?m j)"
    then have "?m i = ?m j" by auto
    then show "i = j" using assms(1) ij(1,2) unfolding transport_ok_def by (metis inj_onD)
  qed
  ultimately have "distinct (map (\<lambda>i. the (?m i)) ?is)" by (simp add: distinct_map)
  moreover have "c \<in> set (map (\<lambda>i. the (?m i)) ?is) \<longleftrightarrow> (\<exists>i. ?m i = Some c)"
    unfolding set_map dom by force
  ultimately show "channels (broadcast E msg t) c =
      (if (\<exists>i. ?m i = Some c) \<and> c \<notin> closed t then channels t c @ [msg] else channels t c)"
    by (simp add: broadcast_def channels_send_all)
  show "channels (send_to peer msg t) c =
      (if ?m peer = Some c \<and> c \<notin> closed t then channels t c @ [msg] else channels t c)"
    by (auto simp: send_to_def channel_send_def split: option.splits)
qed

lemma dial_loop_nth:
  assumes "k < length (fst (dial_loop b attempts))" and "unat b \<le> 2000"
  shows "unat (fst (dial_loop b attempts) ! k) = min (unat b * 2 ^ k) 2000"
  using assms
proof (induction b attempts arbitrary: k rule: dial_loop.induct)
  case (3 b attempts)
  have "unat (b * 2) = unat b * 2"
    using 3(3) by (simp add: unat_mult_lem [THEN iffD1])
  then have b': "unat (min (b * 2) 2000) = min (unat b * 2) 2000"
    by (simp add: min_def word_le_nat_alt)
  show ?case
  proof (cases k)
    case 0
    then show ?thesis using 3(3) by (simp split: prod.splits)
  next
    case (Suc j)
    then have "unat (fst (dial_loop (min (b * 2) 2000) attempts) ! j) = min (min (unat b * 2) 2000 * 2 ^ j) 2000"
      using 3 b' by (simp split: prod.splits)
    also have "\<dots> = min (unat b * 2 ^ k) 2000"
      using Suc min_mult_absorb [of "2 ^ j" "unat b * 2" 2000] by (simp add: mult.assoc)
    finally show ?thesis using Suc by (auto split: prod.splits)
  qed
qed simp_all

text \<open>
  Dialling backs off exponentially from 200 ms and never waits longer than two
  seconds: after \<open>k\<close> earlier waits it waits the smaller of \<open>200 * 2 ^ k\<close> and 2000.
\<close>

lemma dial_backoff_bounded:
  assumes "k < length (fst (dial_task K me my_pk attempts t))"
  shows "unat (fst (dial_task K me my_pk attempts t) ! k) = min (200 * 2 ^ k) 2000"
proof -
  have "fst (dial_task K me my_pk attempts t) = fst (dial_loop 200 attempts)"
    by (simp add: dial_task_def split: prod.splits option.splits)
  then show ?thesis using dial_loop_nth [of k 200 attempts] assms by simp
qed

end
