(* ===== verification/Node_Process.thy ===== *)
theory Node_Process
  imports Execution Transport
begin

text \<open>
  The process of \<^verbatim>\<open>node/consensus-node/src/main.rs\<close>: the event loop with its three
  channels (inbox, timers, validation outcomes), the validator worker, the transport that carries
  out what a step emits, and the transaction counter. Every run of the process is a run of the
  node as the execution theorems take it, and the counter is exact.
\<close>

record Process =
  pr_replica :: Replica
  pr_net :: Transport
  pr_fired :: "TimerEvent list"
  pr_outs :: "ValidateOutcome list"
  pr_txs :: u64
  pr_counted :: int

text \<open>The effects of a step, in the order in which it emitted them.\<close>

definition carry_out :: "Externals \<Rightarrow> Replica \<Rightarrow> Replica \<Rightarrow> Transport \<Rightarrow> Transport" where
  "carry_out E r r' t = fold (dispatch E) (drop (length (outbox r)) (outbox r')) t"

definition process_start :: "Wiring \<Rightarrow> u32 \<Rightarrow> State \<Rightarrow> Transport \<Rightarrow> panic + Process" where
  "process_start w n s t =
     (case boot w n s of
        Panicked e r \<Rightarrow> Inl e
      | Ok r \<Rightarrow>
          Inr \<lparr>pr_replica = r, pr_net = carry_out (env w) (Replica_new n (timeout_base_ms w) s) r t,
               pr_fired = [], pr_outs = [], pr_txs = 0, pr_counted = - 1\<rparr>)"

text \<open>The body of the loop for one event.\<close>

definition main_tick :: "Wiring \<Rightarrow> Validator \<Rightarrow> event \<Rightarrow> Process \<Rightarrow> panic + Process" where
  "main_tick w val ev p =
     (case node_event w val (peer_keys (pr_net p)) ev (pr_replica p) of
        Panicked e r \<Rightarrow> Inl e
      | Ok r \<Rightarrow>
          (case count_txs (plat w) (workload w) (last_executed_height r) (pr_txs p) (pr_counted p) of
             Inl e \<Rightarrow> Inl e
           | Inr (txs, counted) \<Rightarrow>
               Inr (p\<lparr>pr_replica := r, pr_net := carry_out (env w) (pr_replica p) r (pr_net p),
                     pr_txs := txs, pr_counted := counted\<rparr>)))"

text \<open>
  The runs: \<^verbatim>\<open>wait_for_peers\<close> over, the loop takes an event of any of its channels as
  long as it is not done, beside the worker, the sockets and the clock.
\<close>

inductive process_run ::
  "Wiring \<Rightarrow> WireCodec \<Rightarrow> digest \<Rightarrow> u32 \<Rightarrow> State \<Rightarrow> Validator \<Rightarrow> Process \<Rightarrow> bool"
  for w K my_pk n s val where
  start: "process_run w K my_pk n s val p"
    if "(transport_step K (my_id w) my_pk)\<^sup>*\<^sup>* (Transport_new (my_id w) my_pk) t"
      and "peers_ready n (hm_len (peer_writers t))"
      and "iterates f" and "iterates g" and "process_start (reorder f g w) n s t = Inr p"
| message: "process_run w K my_pk n s val p'"
    if "process_run w K my_pk n s val p" and "\<not> node_done w (pr_replica p)" and "iterates f" and "iterates g"
      and "inbox (pr_net p) = msg # rest"
      and "main_tick (reorder f g w) val (Inbox msg) (p\<lparr>pr_net := (pr_net p)\<lparr>inbox := rest\<rparr>\<rparr>) = Inr p'"
| timer: "process_run w K my_pk n s val p'"
    if "process_run w K my_pk n s val p" and "\<not> node_done w (pr_replica p)" and "iterates f" and "iterates g"
      and "pr_fired p = evt # rest"
      and "main_tick (reorder f g w) val (Timer evt) (p\<lparr>pr_fired := rest\<rparr>) = Inr p'"
| outcome: "process_run w K my_pk n s val p'"
    if "process_run w K my_pk n s val p" and "\<not> node_done w (pr_replica p)" and "iterates f" and "iterates g"
      and "pr_outs p = out # rest"
      and "main_tick (reorder f g w) val (ValOut out) (p\<lparr>pr_outs := rest\<rparr>) = Inr p'"
| work: "process_run w K my_pk n s val (p\<lparr>pr_replica := r, pr_outs := pr_outs p @ [out]\<rparr>)"
    if "process_run w K my_pk n s val p" and "worker_step w val (pr_replica p) = Some (r, Inr out)"
| network: "process_run w K my_pk n s val (p\<lparr>pr_net := t\<rparr>)"
    if "process_run w K my_pk n s val p" and "io_step K (my_id w) my_pk (pr_net p) t"
| expire: "process_run w K my_pk n s val
      (p\<lparr>pr_net := (pr_net p)\<lparr>timers := take k (timers (pr_net p)) @ drop (Suc k) (timers (pr_net p))\<rparr>,
         pr_fired := pr_fired p @ [fst (timers (pr_net p) ! k)]\<rparr>)"
    if "process_run w K my_pk n s val p" and "k < length (timers (pr_net p))"

text \<open>The states of a whole process, from its arguments and its key pair.\<close>

definition main_run ::
  "Externals \<Rightarrow> Platform \<Rightarrow> WireCodec \<Rightarrow> Args \<Rightarrow> digest \<Rightarrow> digest \<Rightarrow> Process \<Rightarrow> bool" where
  "main_run E P K args signing_key my_pk p =
     (case node_setup P args of
        Inl e \<Rightarrow> False
      | Inr (wl, hosts, n, val, s) \<Rightarrow> process_run (node_wiring E P args signing_key wl) K my_pk n s val p)"

subsection \<open>The process refines the node\<close>

lemma main_tick_Inr:
  assumes "main_tick w val ev p = Inr p'"
  obtains r txs counted where "node_event w val (peer_keys (pr_net p)) ev (pr_replica p) = Ok r"
    and "count_txs (plat w) (workload w) (last_executed_height r) (pr_txs p) (pr_counted p) = Inr (txs, counted)"
    and "p' = p\<lparr>pr_replica := r, pr_net := carry_out (env w) (pr_replica p) r (pr_net p), pr_txs := txs, pr_counted := counted\<rparr>"
  using assms that by (auto simp: main_tick_def split: outcome.splits sum.splits)

lemma process_start_Inr:
  assumes "process_start w n s t = Inr p"
  obtains r where "boot w n s = Ok r"
    and "p = \<lparr>pr_replica = r, pr_net = carry_out (env w) (Replica_new n (timeout_base_ms w) s) r t,
      pr_fired = [], pr_outs = [], pr_txs = 0, pr_counted = - 1\<rparr>"
  using assms that by (auto simp: process_start_def split: outcome.splits)

lemma process_node_run:
  "process_run w K my_pk n s val p \<Longrightarrow> node_run w n s val (pr_replica p) (pr_outs p)"
proof (induction rule: process_run.induct)
  case (start t f g p)
  then show ?case by (auto elim!: process_start_Inr intro: node_run.boot)
next
  case (message p f g msg rest p')
  from message.hyps(6) show ?case
    by (rule main_tick_Inr) (use message in \<open>auto intro: node_run.input\<close>)
next
  case (timer p f g evt rest p')
  from timer.hyps(6) show ?case
    by (rule main_tick_Inr) (use timer in \<open>auto intro: node_run.input\<close>)
next
  case (outcome p f g out rest p')
  from outcome.hyps(6) show ?case
    by (rule main_tick_Inr) (use outcome in \<open>auto intro: node_run.outcome\<close>)
next
  case (work p r out)
  then show ?case by (auto intro: node_run.work)
qed simp_all

lemma carry_out_ok: "transport_ok t \<Longrightarrow> transport_ok (carry_out E r r' t)"
proof -
  have "transport_ok t \<Longrightarrow> transport_ok (fold (dispatch E) es t)" for es
    by (induction es arbitrary: t) (auto intro: transport_step_ok [OF transport_step.effect])
  then show "transport_ok t \<Longrightarrow> transport_ok (carry_out E r r' t)" by (simp add: carry_out_def)
qed

lemma transport_ok_frame [simp]:
  "transport_ok (t\<lparr>inbox := x\<rparr>) = transport_ok t" "transport_ok (t\<lparr>timers := y\<rparr>) = transport_ok t"
  by (simp_all add: transport_ok_def)

lemma process_transport_ok: "process_run w K my_pk n s val p \<Longrightarrow> transport_ok (pr_net p)"
proof (induction rule: process_run.induct)
  case (start t f g p)
  have "transport_ok t" by (rule transport_run_ok [OF start(1)])
  with start(5) show ?case by (auto elim!: process_start_Inr intro: carry_out_ok)
qed (auto elim!: main_tick_Inr intro: io_step_ok simp: carry_out_ok)

subsection \<open>The transaction counter\<close>

definition block_tx_count :: "Platform \<Rightarrow> Workload \<Rightarrow> nat \<Rightarrow> nat" where
  "block_tx_count P wl k = (case block P wl (of_nat k) of Inl e \<Rightarrow> 0 | Inr b \<Rightarrow> unat (txs_total (b_meta b)))"

lemma count_txs_exact:
  assumes "count_txs P wl last_exec txs c = Inr (txs', c')" and "- 1 \<le> c" and "c \<le> last_exec"
    and "txs = of_nat (\<Sum>k<nat (c + 1). block_tx_count P wl k)"
  shows "c' = last_exec \<and> txs' = of_nat (\<Sum>k<nat (last_exec + 1). block_tx_count P wl k)"
  using assms
proof (induction P wl last_exec txs c rule: count_txs.induct)
  case (1 P wl last_exec txs c)
  show ?case
  proof (cases "c < last_exec")
    case True
    then obtain b where b: "block P wl (word_of_int (c + 1)) = Inr b"
      "count_txs P wl last_exec (txs + ucast (txs_total (b_meta b))) (c + 1) = Inr (txs', c')"
      using "1.prems"(1) by (subst (asm) count_txs.simps) (auto split: sum.splits)
    have "word_of_int (c + 1) = (of_nat (nat (c + 1)) :: u64)" using "1.prems"(2) by simp
    then have "block_tx_count P wl (nat (c + 1)) = unat (txs_total (b_meta b))"
      using b(1) by (simp add: block_tx_count_def)
    moreover have "nat (c + 1 + 1) = Suc (nat (c + 1))" using "1.prems"(2) by linarith
    ultimately have "txs + ucast (txs_total (b_meta b)) = of_nat (\<Sum>k<nat (c + 1 + 1). block_tx_count P wl k)"
      using "1.prems"(4) by simp
    then show ?thesis using "1.IH" [OF True b] "1.prems"(2) True by simp
  next
    case False
    then have "c = last_exec" using "1.prems"(3) by simp
    then show ?thesis using "1.prems"(1,4) count_txs.simps [of P wl last_exec txs c] by auto
  qed
qed

subsection \<open>Execution only moves forward, and starts at nothing\<close>

definition fresh :: "Wiring \<Rightarrow> Replica \<Rightarrow> bool" where
  "fresh w r \<longleftrightarrow> stored w r \<and> validation_result r = hm_empty \<and> last_executed_height r = - 1"

lemma stored_ecore:
  "ecore r' = ecore r \<Longrightarrow> set (history r) \<subseteq> set (history r') \<Longrightarrow> stored w r \<Longrightarrow> stored w r'"
  by (auto simp: stored_def ecore_def)

interpretation forward: exec_rules stored
proof
  fix w r f g nd nh h
  show "stored (reorder f g w) r = stored w r" by (simp add: stored_def)
  show "stored w r \<Longrightarrow> stored w (out_state (maybe_kick_validation w h r))"
    "stored w r \<Longrightarrow> stored w (out_state (execute_node w nh nd r))" by (simp_all add: stored_def)
  show "stored w r \<Longrightarrow> nodes_ok (env w) (history (tree_insert (node_hash (env w) nd) nd r)) \<Longrightarrow>
      stored w (tree_insert (node_hash (env w) nd) nd r)" by (rule tree_insert_keeps(2))
qed (assumption | rule stored_ecore)+

interpretation start_fresh: exec_rules fresh
proof
  fix w r f g nd h
  show "fresh (reorder f g w) r = fresh w r" by (simp add: fresh_def stored_def)
  show "fresh w r \<Longrightarrow> nodes_ok (env w) (history (tree_insert (node_hash (env w) nd) nd r)) \<Longrightarrow>
      fresh w (tree_insert (node_hash (env w) nd) nd r)"
    using tree_insert_keeps(2) [of w r nd] by (simp add: fresh_def tree_insert_def)
  show "fresh w r \<Longrightarrow> fresh w (out_state (maybe_kick_validation w h r))"
    by (simp add: fresh_def stored_def) (simp add: maybe_kick_validation_def Let_def split: option.splits sum.splits)
next
  fix w and r r' :: Replica
  show "fresh w r \<Longrightarrow> stored w r" by (simp add: fresh_def)
  assume "ecore r' = ecore r" and "set (history r) \<subseteq> set (history r')" and "fresh w r"
  then show "fresh w r'" using stored_ecore [of r' r w] by (simp add: fresh_def ecore_def)
qed (simp add: fresh_def)

lemma boot_fresh:
  assumes "boot (reorder f g w) n s = Ok r" and "iterates g" and "nodes_ok (env w) (history r)"
  shows "last_executed_height r = - 1"
proof -
  have "fresh w (Replica_new n (timeout_base_ms w) s)"
    by (simp add: fresh_def stored_def Replica_new_def ReplicaState_new_def ReplicaState.defs Replica.defs)
  then show ?thesis using start_fresh.step_boot [OF assms(1,2)] assms(3) by (simp add: exec_step_def fresh_def)
qed

lemma node_event_forward:
  assumes "node_event w val keys ev r = Ok r'" and it: "iterates (iter_digest (env w))"
  shows "set (history r) \<subseteq> set (history r')" and "last_executed_height r \<le> last_executed_height r'"
proof -
  have "set (history r) \<subseteq> set (history r') \<and> last_executed_height r \<le> last_executed_height r'"
  proof (cases ev)
    case (ValOut out)
    let ?r = "ingest_validation out (log_event (rs_view r) ''validate_end'' [(''kind'', JStr (kind val)),
      (''valid'', JBool (out_valid out)), (''height'', JNum (uint (out_height out)))] r)"
    show ?thesis
      using forward.step_try_advance [OF it, of ?r] ValOut assms(1) by (simp add: node_event_def exec_step_def)
  qed (use forward.step_input [of ev _ _ w r val keys] assms it in \<open>auto simp: exec_step_def\<close>)
  then show "set (history r) \<subseteq> set (history r')" and "last_executed_height r \<le> last_executed_height r'"
    by simp_all
qed

definition counter_exact :: "Wiring \<Rightarrow> Process \<Rightarrow> bool" where
  "counter_exact w p \<longleftrightarrow>
     - 1 \<le> last_executed_height (pr_replica p) \<and> pr_counted p = last_executed_height (pr_replica p) \<and>
     pr_txs p = of_nat (\<Sum>k<nat (last_executed_height (pr_replica p) + 1). block_tx_count (plat w) (workload w) k)"

lemma main_tick_counts:
  assumes "main_tick (reorder f g w) val ev p = Inr p'" and "nodes_ok (env w) (history (pr_replica p'))"
    and it: "iterates g" and "nodes_ok (env w) (history (pr_replica p)) \<Longrightarrow> counter_exact w p"
  shows "counter_exact w p'"
  using assms(1)
proof (rule main_tick_Inr)
  fix r txs counted
  assume r: "node_event (reorder f g w) val (peer_keys (pr_net p)) ev (pr_replica p) = Ok r"
    and cnt: "count_txs (plat (reorder f g w)) (workload (reorder f g w)) (last_executed_height r) (pr_txs p) (pr_counted p) =
      Inr (txs, counted)"
    and p': "p' = p\<lparr>pr_replica := r, pr_net := carry_out (env (reorder f g w)) (pr_replica p) r (pr_net p),
      pr_txs := txs, pr_counted := counted\<rparr>"
  note fwd = node_event_forward [OF r, simplified, OF it]
  have "counter_exact w p"
    by (rule assms(4), rule nodes_ok_antimono [OF assms(2)]) (use fwd(1) p' in simp)
  then show ?thesis
    using count_txs_exact [of "plat w" "workload w" "last_executed_height r" "pr_txs p" "pr_counted p" txs counted]
      cnt fwd(2) p' by (simp add: counter_exact_def)
qed

lemma process_counts:
  "process_run w K my_pk n s val p \<Longrightarrow> nodes_ok (env w) (history (pr_replica p)) \<Longrightarrow> counter_exact w p"
proof (induction rule: process_run.induct)
  case (start t f g p)
  then show ?case by (auto elim!: process_start_Inr simp: counter_exact_def boot_fresh)
next
  case (message p f g msg rest p')
  then show ?case using main_tick_counts [OF message.hyps(6) _ message.hyps(4)] by (simp add: counter_exact_def)
next
  case (timer p f g evt rest p')
  then show ?case using main_tick_counts [OF timer.hyps(6) _ timer.hyps(4)] by (simp add: counter_exact_def)
next
  case (outcome p f g out rest p')
  then show ?case using main_tick_counts [OF outcome.hyps(6) _ outcome.hyps(4)] by (simp add: counter_exact_def)
next
  case (work p r out)
  then have "last_executed_height r = last_executed_height (pr_replica p)" "history r = history (pr_replica p)"
    by (auto simp: worker_step_def split: list.splits)
  then show ?case using work by (simp add: counter_exact_def)
qed (simp_all add: counter_exact_def)


end
