(* ===== verification/Witnesses.thy ===== *)
theory Witnesses
  imports Sample_Run Sample_Tools Logging Input_Gaps Node_Process
begin

text \<open>
  Concrete instances of the properties that have hypotheses: each applies its theorem to the sample
  environment, with the hypotheses evaluated.
\<close>

subsection \<open>The ledger\<close>

lemma sample_state_simps:
  "balances sample_state = [(0, 100), (1, 100)]" "state_ok sample_state" "total_supply sample_state = 200"
  "bt_len (balances sample_state) = 2"
  by (simp_all add: sample_state_def set_balance_def State_new_def bt_empty_def state_ok_def bt_ok_def
      total_supply_def bt_len_def)

definition sample_txs :: "Tx list" where
  "sample_txs = [\<lparr>tx_from = 0, tx_to = 1, tx_amount = 30\<rparr>, \<lparr>tx_from = 1, tx_to = 0, tx_amount = 500\<rparr>]"

theorem apply_block_refines_witness:
  "state_ok sample_state \<and> total_supply sample_state < 2 ^ 64 \<and>
   abs_state (fst (apply_block sample_state sample_txs)) = spec_block sample_txs (abs_state sample_state) \<and>
   abs_state (fst (apply_block sample_state sample_txs)) 1 = 130"
  using apply_block_refines [of sample_state sample_txs]
  by (simp add: sample_state_simps spec_block_def spec_tx_def abs_state_def get_balance_def sample_txs_def)


theorem compute_state_root_correct_witness:
  "bt_len (balances sample_state) \<le> 2 ^ 31 \<and>
   compute_state_root sample_sha sample_state = Some (mroot sample_sha sample_state (root_depth sample_state) 0) \<and>
   bt_len (balances sample_state) \<le> num_leaves sample_state"
  using compute_state_root_correct [of sample_state sample_sha] by (simp add: sample_state_simps bt_len_def)

text \<open>Two states with one root: the account 7 is outside the two leaves of the first.\<close>

definition sample_low :: State where
  "sample_low = \<lparr>balances = [(0, 5), (1, 0)]\<rparr>"

definition sample_high :: State where
  "sample_high = \<lparr>balances = [(0, 5), (7, 3)]\<rparr>"

lemma next_pow2_two: "next_power_of_two (Suc (Suc 0)) = Suc (Suc 0)"
  by (simp add: next_power_of_two_def next_pow2_from.simps)

lemma sample_leaves: "num_leaves sample_low = 2" "num_leaves sample_high = 2"
  "root_depth sample_low = 1" "root_depth sample_high = 1"
  by (simp_all add: root_depth_def num_leaves_def sample_low_def sample_high_def bt_len_def next_pow2_two
      numeral_eq_Suc)

lemma sample_root: "compute_state_root sample_sha s = Some 9"
  "leaf_bytes s 0 = [0, 0, 0, 0, 5, 0, 0, 0, 0, 0, 0, 0]" "leaf_bytes s 1 = [1, 0, 0, 0, 0, 0, 0, 0, 0, 0, 0, 0]"
  "sample_sha (leaf_bytes s 0) = 6" "sample_sha (leaf_bytes s 1) = 2" if "s = sample_low \<or> s = sample_high" for s
proof -
  show l: "leaf_bytes s 0 = [0, 0, 0, 0, 5, 0, 0, 0, 0, 0, 0, 0]" "leaf_bytes s 1 = [1, 0, 0, 0, 0, 0, 0, 0, 0, 0, 0, 0]"
    using that by (auto simp: leaf_bytes_def u32_le_def u64_le_def numeral_unfold sample_low_def sample_high_def get_balance_def)
  then show h: "sample_sha (leaf_bytes s 0) = 6" "sample_sha (leaf_bytes s 1) = 2"
    by (simp_all add: sample_sha_def)
  have "leaf_layer sample_sha s = [6, 2]"
    using that h by (auto simp: leaf_layer_def sample_leaves upt_rec)
  then show "compute_state_root sample_sha s = Some 9"
    by (simp add: compute_state_root_def merkle_loop.simps node_bytes_def digest_bytes_def numeral_unfold sample_sha_def)
qed

theorem state_root_binding_witness:
  "compute_state_root sample_sha sample_low = compute_state_root sample_sha sample_high \<and>
   inj_on sample_sha (root_preimages sample_sha sample_low \<union> root_preimages sample_sha sample_high) \<and>
   get_balance sample_low 0 = get_balance sample_high 0 \<and> get_balance sample_low 1 = get_balance sample_high 1"
proof -
  have pre: "root_preimages sample_sha s =
      {node_bytes 6 2, [0, 0, 0, 0, 5, 0, 0, 0, 0, 0, 0, 0], [1, 0, 0, 0, 0, 0, 0, 0, 0, 0, 0, 0]}"
    if "s = sample_low \<or> s = sample_high" for s
    using sample_root [OF that] that by (auto simp: root_preimages_def sample_leaves)
  have inj: "inj_on sample_sha (root_preimages sample_sha sample_low \<union> root_preimages sample_sha sample_high)"
    by (simp add: pre inj_on_def sample_sha_def node_bytes_def digest_bytes_def numeral_unfold)
  show ?thesis
    using state_root_binding [of sample_low sample_high sample_sha] inj sample_root
    by (simp add: sample_leaves) (simp add: sample_low_def sample_high_def bt_len_def get_balance_def)
qed

theorem state_root_ignores_high_accounts_witness:
  "state_ok sample_high \<and> bt_get (balances sample_high) 7 \<noteq> None \<and> num_leaves sample_high \<le> unat (7 :: u32) \<and>
   compute_state_root sample_sha (set_balance sample_high 7 1000000) = compute_state_root sample_sha sample_high"
  using state_root_ignores_high_accounts [of sample_high 7 sample_sha 1000000]
  by (simp add: sample_leaves) (simp add: sample_high_def state_ok_def bt_ok_def)

theorem hash_transactions_binding_witness:
  "inj_on sample_sha {concat (map tx_bytes sample_txs), concat (map tx_bytes sample_txs)} \<and>
   hash_transactions sample_sha sample_txs = hash_transactions sample_sha sample_txs \<and> sample_txs = sample_txs"
  using hash_transactions_binding [of sample_sha sample_txs sample_txs] by simp

theorem guest_main_commits_witness:
  "state_ok sample_state \<and> bt_len (balances sample_state) + length sample_txs \<le> 2 ^ 31 \<and>
   (\<exists>c. guest_main sample_sha sample_state sample_txs = Some c \<and>
        tx_hash c = hash_transactions sample_sha sample_txs)"
  using guest_main_commits [of sample_state sample_txs sample_sha]
  by (auto simp: sample_state_simps sample_txs_def bt_len_def)

subsection \<open>Votes, quorums and certificates\<close>

theorem leader_rotation_witness:
  "(2 :: u32) < 4 \<and> (1 :: nat) \<le> 5 \<and> 5 + unat (4 :: u32) < 2 ^ 64 \<and>
   (\<exists>!u. 5 \<le> u \<and> u < 5 + unat (4 :: u32) \<and> leader_for 4 (of_nat u) = 2)"
  using leader_rotation [of 2 4 5] by simp

theorem quorum_intersection_witness:
  "(0 :: u32) < 4 \<and> unat (quorum_size 4) \<le> card {0, 1, 2 :: u32} \<and> unat (quorum_size 4) \<le> card {1, 2, 3 :: u32} \<and>
   card {1 :: u32} \<le> unat (max_faulty 4) \<and>
   (\<exists>i. i \<in> {0, 1, 2} \<inter> {1, 2, 3} - {1 :: u32}) \<and>
   unat (quorum_size 4) \<le> card (replica_ids 4 - {1})"
  using quorum_intersection [of 4 "{0, 1, 2}" "{1, 2, 3}" "{1}"]
  by (simp add: quorum_size_def max_faulty_def replica_ids_def)

definition sample_votes :: vote_bucket where
  "sample_votes = [(0, (49, [7, 1, 1, 49])), (2, (49, [9, 1, 1, 49])), (1, (50, [8, 1, 1, 50]))]"

definition sample_keys :: "(u32, digest) hashmap" where
  "sample_keys = [(0, 7), (1, 8), (2, 9)]"

definition sample_qc :: QC where
  "sample_qc = \<lparr>qc_msg_type = Prepare, qc_view = 1, qc_node_hash = 49, qc_sigs = [(0, [7, 1, 1, 49]), (2, [9, 1, 1, 49])]\<rparr>"

lemma sample_form_qc: "form_qc sample_env sample_votes Prepare 1 2 = Some sample_qc"
  by (simp add: form_qc_def sample_votes_def sample_qc_def sample_wiring_simps collection_defs bucket_entry_def)

lemma sample_env_iterates: "iterates (iter_u32 sample_env)" "iterates (iter_digest sample_env)"
  by (simp_all add: sample_wiring_simps iterates_id)

lemma sample_votes_ok: "hm_ok sample_votes" "hm_len sample_votes = 3"
  by (simp_all add: sample_votes_def hm_ok_def hm_len_def hm_keys_def)

theorem form_qc_correct_witness:
  "hm_ok sample_votes \<and> iterates (iter_u32 sample_env) \<and> iterates (iter_digest sample_env) \<and> (0 :: u32) < 2 \<and>
   form_qc sample_env sample_votes Prepare 1 2 = Some sample_qc \<and> unat (2 :: u32) \<le> card (voters_for sample_votes 49)"
  using form_qc_correct [of sample_votes sample_env 2 Prepare 1] sample_env_iterates sample_votes_ok
  by (simp add: sample_form_qc) (simp add: sample_qc_def)

theorem verify_qc_correct_witness:
  "length (qc_sigs sample_qc) < 2 ^ 32 \<and> verify_qc_sync sample_env sample_qc 2 sample_keys \<and>
   unat (2 :: u32) \<le> card (valid_signers sample_env sample_keys sample_qc)"
proof -
  have "verify_qc_sync sample_env sample_qc 2 sample_keys"
    by (simp add: verify_qc_sync_def sample_qc_def sample_keys_def collection_defs sample_sig)
  then show ?thesis
    using verify_qc_correct [of sample_qc sample_env 2 sample_keys] by (simp add: sample_qc_def)
qed

subsection \<open>Blocks and validation\<close>

theorem block_at_height_witness:
  "\<exists>b b'. block_at sample_plat [''w''] 0 = Inr b \<and> block_at sample_plat [''w''] 1 = Inr b' \<and>
     ucast (block_number (b_meta b)) = (0 :: u64) \<and> b_txs_path b \<noteq> b_txs_path b'"
proof -
  obtain b b' where "block_at sample_plat [''w''] 0 = Inr b" "block_at sample_plat [''w''] 1 = Inr b'"
    using sample_block by (auto simp: block_def sample_workload_def)
  then show ?thesis using block_at_height [of sample_plat "[''w'']" 0 b 1 b'] by auto
qed

definition sample_proof_plat :: Platform where
  "sample_proof_plat = sample_plat\<lparr>read_public_values := (\<lambda>pf. guest_main sample_sha sample_state sample_txs)\<rparr>"

definition sample_request :: ValidateRequest where
  "sample_request = \<lparr>req_node_hash = 49, req_height = 0, req_txs_path = [''t''], req_proof_path = [''p''], req_txs_total = 2\<rparr>"

theorem verify_outcome_sound_witness:
  "\<exists>out s txs. run_validation sample_proof_plat sample_request State_new (Verify []) = Inr out \<and> out_valid out \<and>
     out_pre_root out = compute_state_root sample_sha s \<and>
     out_post_root out = compute_state_root sample_sha (fst (apply_block s txs))"
proof -
  have g: "guest_main sample_sha sample_state sample_txs \<noteq> None"
    using compute_state_root_mroot [of sample_state sample_sha]
      compute_state_root_mroot [of "fst (apply_block sample_state sample_txs)" sample_sha]
    by (simp add: guest_main_def Let_def sample_txs_def apply_block_def tx_applies_def apply_tx_def
        get_balance_def set_balance_def sample_state_simps bt_len_def split: option.splits)
  then obtain out where out: "run_validation sample_proof_plat sample_request State_new (Verify []) = Inr out" "out_valid out"
    by (auto simp: sample_proof_plat_def sample_plat_def sample_request_def)
  have "\<exists>s txs. guest_main sample_sha s txs = Some c"
    if "read_public_values sample_proof_plat pf = Some c" for pf c
    using that by (auto simp: sample_proof_plat_def)
  then show ?thesis
    using verify_outcome_sound [of sample_proof_plat "[]" sample_sha sample_request State_new out] out by blast
qed

subsection \<open>Execution\<close>

text \<open>A node that boots, validates the block it proposes, and ingests the outcome.\<close>

definition drive :: "Wiring \<Rightarrow> Validator \<Rightarrow> State \<Rightarrow> Replica option" where
  "drive w val s =
     (case boot w 1 s of
        Panicked e r0 \<Rightarrow> None
      | Ok r0 \<Rightarrow>
          (case worker_step w val r0 of
             Some (r1, Inr out) \<Rightarrow>
               if node_done w r1 then None
               else (case node_event w val [] (ValOut out) r1 of Panicked e r2 \<Rightarrow> None | Ok r2 \<Rightarrow> Some r2)
           | _ \<Rightarrow> None))"

lemma drive_run:
  assumes "drive w val s = Some r" and w: "reorder (\<lambda>xs. xs) (\<lambda>xs. xs) w = w"
  shows "node_run w 1 s val r []"
proof -
  let ?id = "\<lambda>xs. xs"
  obtain r0 r1 out where r0: "boot (reorder ?id ?id w) 1 s = Ok r0" and nd: "\<not> node_done w r1"
    and r1: "worker_step w val r0 = Some (r1, Inr out)"
    and r: "node_event (reorder ?id ?id w) val [] (ValOut out) r1 = Ok r"
    using assms by (auto simp: drive_def split: outcome.splits option.splits sum.splits if_splits)
  have "node_run w 1 s val r1 ([] @ [out])"
    using node_run.work [OF node_run.boot [OF r0 iterates_id iterates_id] r1] .
  then show ?thesis
    using node_run.outcome [OF _ iterates_id iterates_id _ r] nd by simp
qed

definition sample_node :: "Platform \<Rightarrow> Workload \<Rightarrow> Wiring" where
  "sample_node P wl = (sample_wiring 0)\<lparr>plat := P, workload := wl\<rparr>"

lemma sample_node_simps:
  "my_id (sample_node P wl) = 0" "env (sample_node P wl) = sample_env" "plat (sample_node P wl) = P"
  "workload (sample_node P wl) = wl" "timeout_base_ms (sample_node P wl) = 1000"
  "sign_vote sample_env (sk (sample_node P wl)) mt v h = [7, msg_tag mt, ucast v, ucast h]"
  "reorder (\<lambda>xs. xs) (\<lambda>xs. xs) (sample_node P wl) = sample_node P wl"
  by (simp_all add: sample_node_def sample_wiring_def sample_env_def reorder_def sign_vote_def vote_digest_def)

lemma drive_reexecutes:
  assumes "block P wl 0 = Inr b" and "num_blocks (wl_manifest wl) = 2"
    and "node_hash sample_env \<lparr>n_parent = 0, n_cmd = b_cmd b, n_height = 0\<rparr> = h" and "h \<noteq> 0"
    and "fs_read P (b_txs_path b) = Some tb" and "de_txs P tb = Some txs"
  shows "\<exists>r. drive (sample_node P wl) (Reexecute 0) s = Some r \<and> last_executed_height r = 0 \<and>
     (\<forall>nd. Known nd \<in> set (history r) \<longrightarrow> nd = \<lparr>n_parent = 0, n_cmd = b_cmd b, n_height = 0\<rparr>)"
  using assms
  by (simp add: run_defs sample_node_simps drive_def boot_def worker_step_def cong: let_weak_cong and_then_weak_cong)

lemma drive_verifies:
  assumes "block P wl 0 = Inr b" and "num_blocks (wl_manifest wl) = 2"
    and "node_hash sample_env \<lparr>n_parent = 0, n_cmd = b_cmd b, n_height = 0\<rparr> = h" and "h \<noteq> 0"
    and "fs_read P (b_proof_path b) = Some pb" and "de_proof P pb = Some pf" and "sp1_verify P pf vk"
    and "read_public_values P pf = Some c"
  shows "\<exists>r. drive (sample_node P wl) (Verify vk) s = Some r \<and> last_executed_height r = 0 \<and>
     (\<forall>nd. Known nd \<in> set (history r) \<longrightarrow> nd = \<lparr>n_parent = 0, n_cmd = b_cmd b, n_height = 0\<rparr>)"
  using assms
  by (simp add: run_defs sample_node_simps drive_def boot_def worker_step_def cong: let_weak_cong and_then_weak_cong)

lemma one_node_ok:
  "(\<forall>nd. Known nd \<in> set H \<longrightarrow> nd = \<lparr>n_parent = 0, n_cmd = c, n_height = 0\<rparr>) \<Longrightarrow> nodes_ok sample_env H"
  unfolding nodes_ok_def by (auto simp: GENESIS_HASH_def)

lemma run_reexecutes:
  assumes "block P wl 0 = Inr b" and "num_blocks (wl_manifest wl) = 2"
    and "fs_read P (b_txs_path b) = Some tb" and "de_txs P tb = Some txs"
  obtains r where "node_run (sample_node P wl) 1 s (Reexecute 0) r []" and "nodes_ok sample_env (history r)"
    and "last_executed_height r = 0"
  using drive_reexecutes [OF assms(1,2) refl sample_node_hash assms(3,4), of s] drive_run [of "sample_node P wl"] one_node_ok
  by (metis sample_node_simps(7))

lemma run_verifies:
  assumes "block P wl 0 = Inr b" and "num_blocks (wl_manifest wl) = 2"
    and "fs_read P (b_proof_path b) = Some pb" and "de_proof P pb = Some pf" and "sp1_verify P pf vk"
    and "read_public_values P pf = Some c"
  obtains r where "node_run (sample_node P wl) 1 s (Verify vk) r []" and "nodes_ok sample_env (history r)"
    and "last_executed_height r = 0"
  using drive_verifies [OF assms(1,2) refl sample_node_hash assms(3-6), of s] drive_run [of "sample_node P wl"] one_node_ok
  by (metis sample_node_simps(7))

lemma sample_files:
  "fs_read sample_plat [''w'', ''block_0000'', ''transactions.bin''] = Some []"
  "fs_read sample_plat [''w'', ''block_0000'', ''proof.bin''] = Some []"
  "de_txs sample_plat [] = Some [\<lparr>tx_from = 0, tx_to = 1, tx_amount = 5\<rparr>]" "de_proof sample_plat [] = Some []"
  "sp1_verify sample_plat [] vk" "read_public_values sample_plat [] = Some \<lparr>pre_state_root = 1, post_state_root = 2, tx_hash = 3\<rparr>"
  by (simp_all add: sample_plat_def)



subsection \<open>The workload tools\<close>

theorem generate_txs_in_range_witness:
  "(\<exists>txs seed'. generate_txs 3 2 12345 = Inr (txs, seed') \<and> length txs = 3 \<and> list_all (tx_in_range 2) txs) \<and>
   generate_txs 3 0 12345 = Inl RemainderByZero"
  using generate_txs_in_range [of 2 3 12345] by simp

lemma sample_state_generated: "generate_initial_state 2 100 = sample_state"
proof -
  have "[0..<unat (2 :: u32)] = [0, 1]" by (simp add: upt_rec)
  then show ?thesis by (simp add: generate_initial_state_def sample_state_def)
qed

lemma sample_state_preimages:
  "root_preimages sample_sha sample_state = {node_bytes 101 102, [0, 0, 0, 0, 100, 0, 0, 0, 0, 0, 0, 0],
     [1, 0, 0, 0, 100, 0, 0, 0, 0, 0, 0, 0]}"
proof -
  have n: "num_leaves sample_state = 2"
    by (simp add: num_leaves_def sample_state_simps bt_len_def next_pow2_two)
  have l: "leaf_bytes sample_state 0 = [0, 0, 0, 0, 100, 0, 0, 0, 0, 0, 0, 0]"
    "leaf_bytes sample_state 1 = [1, 0, 0, 0, 100, 0, 0, 0, 0, 0, 0, 0]"
    by (simp_all add: leaf_bytes_def u32_le_def u64_le_def numeral_unfold get_balance_def sample_state_simps)
  moreover from l have "sample_sha (leaf_bytes sample_state 0) = 101" "sample_sha (leaf_bytes sample_state 1) = 102"
    by (simp_all add: sample_sha_def)
  moreover have "root_depth sample_state = 1" using n root_depth_pow2 [of sample_state 1] by simp
  ultimately show ?thesis by (auto simp: root_preimages_def)
qed

theorem root_determines_state_witness:
  "accounts_ok 2 sample_state \<and> inj_on sample_sha (root_preimages sample_sha sample_state) \<and>
   compute_state_root sample_sha (generate_initial_state 2 100) = compute_state_root sample_sha sample_state \<and>
   generate_initial_state 2 100 = sample_state"
proof -
  have ok: "accounts_ok 2 sample_state" using accounts_ok_initial [of 2 100] by (simp add: sample_state_generated)
  have inj: "inj_on sample_sha (root_preimages sample_sha sample_state)"
    by (simp add: sample_state_preimages inj_on_def sample_sha_def node_bytes_def digest_bytes_def numeral_unfold)
  show ?thesis
    using root_determines_state [of 2 "generate_initial_state 2 100" sample_state sample_sha] ok inj
    by (simp add: sample_state_generated)
qed


theorem resume_equivalent_witness:
  "\<exists>s1 d1. gen_main sample_tools (sample_gen_args\<lparr>ga_num_blocks := 1, ga_resume_from := 0\<rparr>) Map.empty = Inr (s1, d1) \<and>
     gen_main sample_tools (sample_gen_args\<lparr>ga_resume_from := 1\<rparr>) d1 =
     gen_main sample_tools (sample_gen_args\<lparr>ga_resume_from := 0\<rparr>) Map.empty"
proof -
  have same: "sample_gen_args\<lparr>ga_num_blocks := 1\<rparr> = sample_gen_args\<lparr>ga_num_blocks := 1, ga_resume_from := 0\<rparr>"
    by (simp add: sample_gen_args_def)
  obtain s1 d1 where "gen_main sample_tools (sample_gen_args\<lparr>ga_num_blocks := 1, ga_resume_from := 0\<rparr>) Map.empty = Inr (s1, d1)"
    using sample_generates [of 1 Map.empty] by (auto simp: same [symmetric])
  moreover from resume_equivalent [OF this]
  have "gen_main sample_tools (sample_gen_args\<lparr>ga_resume_from := 1\<rparr>) d1 =
      gen_main sample_tools (sample_gen_args\<lparr>ga_resume_from := 0\<rparr>) Map.empty"
    by (simp add: sample_gen_args_def)
  ultimately show ?thesis by blast
qed

lemma sample_gen_run: "\<exists>s d'. gen_main sample_tools sample_gen_args Map.empty = Inr (s, d')"
  using sample_generates [of 2 Map.empty] by (simp add: sample_gen_args_def)

theorem generate_replay_roundtrip_witness:
  "\<exists>s d'. gen_main sample_tools sample_gen_args Map.empty = Inr (s, d') \<and>
     run_workload (on_disk sample_tools d') [''w''] [''w'', ''ledger-program.elf''] = Inr s"
proof -
  obtain s d' where g: "gen_main sample_tools sample_gen_args Map.empty = Inr (s, d')" using sample_gen_run by blast
  show ?thesis
    using generate_replay_roundtrip [OF g _ sample_codec_ok] g by (auto simp: sample_gen_args_def elf_file_def)
qed

theorem run_workload_sound_witness:
  "\<exists>X s st. run_workload X [''w''] [''w'', ''ledger-program.elf''] = Inr s \<and> st 0 = generate_initial_state 2 100 \<and>
     st 2 = s \<and> block_proved X [''w''] [7] 0 (st 0) (st (Suc 0)) \<and> block_proved X [''w''] [7] 1 (st 1) (st 2)"
proof -
  obtain s d' where g: "gen_main sample_tools sample_gen_args Map.empty = Inr (s, d')" using sample_gen_run by blast
  let ?X = "on_disk sample_tools d'"
  obtain vk where run: "run_workload ?X [''w''] [''w'', ''ledger-program.elf''] = Inr s"
    and load: "Workload_load (Platform.truncate ?X) [''w''] = Inr (gen_workload sample_gen_args)"
    and elf: "d' [''w'', ''ledger-program.elf''] = Some [7]"
    by (rule gen_main_on_disk [OF g _ sample_codec_ok refl])
      (simp_all add: sample_gen_args_def elf_file_def sample_tools_def Platform.truncate_def)
  from run_workload_sound [OF run] obtain mb m eb vk st where
    m: "fs_read ?X ([''w''] @ [''manifest.json'']) = Some mb" "parse_full_manifest ?X mb = Some m"
    and "fs_read ?X [''w'', ''ledger-program.elf''] = Some eb" "sp1_setup ?X eb = Some vk"
    and st: "st 0 = generate_initial_state (num_accounts m) (initial_balance m)" "st (unat (num_blocks m)) = s"
      "\<forall>k < unat (num_blocks m). block_proved ?X [''w''] vk (of_nat k) (st k) (st (Suc k))" by blast
  then have "vk = [7]" using elf by (simp add: sample_tools_def)
  moreover have "Manifest.truncate m = Manifest.truncate (gen_manifest sample_gen_args)"
    using m load by (simp add: Workload_load_def Platform.truncate_def on_disk_def gen_workload_def sample_tools_def)
  then have "num_accounts m = 2" "initial_balance m = 100" "unat (num_blocks m) = 2"
    by (simp_all add: Manifest.truncate_def gen_manifest_def sample_gen_args_def)
  moreover from this(3) have "block_proved ?X [''w''] vk 0 (st 0) (st (Suc 0))" "block_proved ?X [''w''] vk 1 (st 1) (st 2)"
    using st(3) [rule_format, of 0] st(3) [rule_format, of 1] by (simp_all add: numeral_2_eq_2)
  ultimately show ?thesis using run st(1,2) by (intro exI [of _ ?X] exI [of _ s] exI [of _ st]) simp
qed

subsection \<open>The transport\<close>

definition sample_codec :: WireCodec where
  "sample_codec =
     \<lparr>ser_wire = (\<lambda>msg. case msg of Hello i k \<Rightarrow> Some [ucast i, ucast k] | _ \<Rightarrow> None),
      de_wire = (\<lambda>bs. if length bs = 2 then Some (Hello (ucast (bs ! 0)) (ucast (bs ! 1))) else None),
      key_from_bytes = (\<lambda>k. True)\<rparr>"

theorem reader_inverts_writer_witness:
  "list_all (sendable sample_codec) [Hello 1 5, Hello 2 6] \<and>
   read_msgs sample_codec (fst (write_msgs sample_codec [True, True] [Hello 1 5, Hello 2 6])) = [Hello 1 5, Hello 2 6] \<and>
   prefix (read_msgs sample_codec (take 9 (fst (write_msgs sample_codec [True, True] [Hello 1 5, Hello 2 6]))))
     [Hello 1 5, Hello 2 6]"
  using reader_inverts_writer [of sample_codec "[Hello 1 5, Hello 2 6]" 9]
  by (simp add: sendable_def sample_codec_def)

definition sample_transport :: Transport where
  "sample_transport = fst (install_connection sample_codec True 0 4 (write_frame [1, 5]) (Transport_new 0 4))"

lemma sample_transport_writers:
  "peer_writers sample_transport = [(1, 0)]" "closed sample_transport = {}" "channels sample_transport = (\<lambda>c. [])"
  "hm_get (peer_keys sample_transport) 1 = Some 5"
  using frames.dec_front [of "[1, 5]" "[]"]
  by (simp_all add: sample_transport_def install_connection_def handshake_def send_msg_def recv_msg_def
      sample_codec_def Transport_new_def Let_def hm_empty_def hm_insert_def hm_get_def)

lemma sample_transport_run:
  "(transport_step sample_codec 0 4)\<^sup>*\<^sup>* (Transport_new 0 4) sample_transport"
  unfolding sample_transport_def by (rule r_into_rtranclp) (rule transport_step.io [OF io_step.install])


theorem duplicate_hello_replaces_key_witness:
  "hm_get (peer_keys sample_transport) 1 = Some 5 \<and>
   (case install_connection sample_codec True 0 4 (write_frame [1, 6]) sample_transport of
      (t', kept) \<Rightarrow> kept = None \<and> hm_get (peer_keys t') 1 = Some 6)"
  using duplicate_hello_replaces_key [of sample_codec 0 4 "[0, 4]" 1 6 "[1, 6]" sample_transport 0]
    sample_transport_writers(4)
  by (simp add: sample_transport_writers(1-3) sample_codec_def hm_get_def split: prod.splits)

subsection \<open>Logging\<close>

theorem log_line_words_witness:
  "plain ''execute'' \<and> list_all (plain_field (\<lambda>d. ''ab'')) [(''height'', JNum 3), (''node_hash'', JHex 5)] \<and>
   words_of (log_line (\<lambda>d. ''ab'') (\<lambda>kvs. kvs) 2 99 4 ''execute'' [(''height'', JNum 3), (''node_hash'', JHex 5)]) =
     [''[node'', ''2]'', ''view=4'', ''execute'', ''ts_ns=99'', ''height=3'', ''node_hash=ab'']"
  using log_line_words [of "''execute''" "\<lambda>d. ''ab''" "\<lambda>kvs. kvs" "[(''height'', JNum 3), (''node_hash'', JHex 5)]" 2 99 4]
  by (simp add: plain_field_def now_ns_def decimal.simps digit_simps)

subsection \<open>Progress and message checks\<close>

definition sample_member :: "vote_bucket \<Rightarrow> Replica" where
  "sample_member votes = (vd_mut 1 (\<lambda>d. d\<lparr>prepare_votes := votes\<rparr>) (Replica_new 2 1000 sample_state))\<lparr>rs_view := 1\<rparr>"

lemma sample_member_simps:
  "rs_view (sample_member votes) = 1" "rs_n (sample_member votes) = 2" "rs_quorum (sample_member votes) = 2"
  "prepare_votes (vd_entry (sample_member votes) 1) = votes"
  "\<not> announced PreCommit (vd_entry (sample_member votes) 1)" "\<not> engaged PreCommit (vd_entry (sample_member votes) 1)"
  "\<not> seen_decide_qc (vd_entry (sample_member votes) u)" "timeout_interval_ms (sample_member votes) = 1000"
  by (simp_all add: sample_member_def state_defs collection_defs)

lemma leader_for_one [simp]: "leader_for n 1 = 0"
  by (simp add: leader_for_def)

lemma sample_quorum_ready: "quorum_ready sample_env sample_keys Prepare 1 2 sample_votes"
proof -
  have "voters_for sample_votes 49 = {0, 2}"
    by (auto simp: voters_for_def sample_votes_def hm_get_def)
  then have "unat (2 :: u32) \<le> card (voters_for sample_votes 49)" by simp
  moreover have "\<exists>pk. hm_get sample_keys i = Some pk \<and> verify_vote_sig sample_env pk Prepare 1 nh sig"
    if "hm_get sample_votes i = Some (nh, sig)" for i nh sig
    using that by (auto simp: sample_votes_def sample_keys_def hm_get_def sample_sig split: if_splits)
  ultimately show ?thesis using sample_votes_ok by (auto simp: quorum_ready_def)
qed


definition sample_leader :: Replica where
  "sample_leader = vd_mut 0 (\<lambda>d. d\<lparr>new_view_msgs := [(0, None), (1, None)]\<rparr>) (sample_member [])"







theorem proposal_height_panics_witness:
  "\<exists>e r'. handle_msg (sample_wiring 0) [] (Proposal 1 \<lparr>n_parent = 0, n_cmd = 5, n_height = 2 ^ 32\<rparr> None 0) (Replica_new 1 1000 sample_state) =
     Panicked e r'"
  using proposal_height_panics [of "\<lparr>n_parent = 0, n_cmd = 5, n_height = 2 ^ 32\<rparr>" "Replica_new 1 1000 sample_state" "sample_wiring 0" "[]" 1]
  by (auto simp: GENESIS_HASH_def Replica_new_def ReplicaState_new_def ReplicaState.defs Replica.defs)

text \<open>The process around such a node: start, one request through the worker, one tick of the loop.\<close>

definition process_drive :: "Wiring \<Rightarrow> Validator \<Rightarrow> State \<Rightarrow> Transport \<Rightarrow> Process option" where
  "process_drive w val s t =
     (case process_start w 1 s t of
        Inl e \<Rightarrow> None
      | Inr p \<Rightarrow>
          (case worker_step w val (pr_replica p) of
             Some (r, Inr out) \<Rightarrow>
               if node_done w r then None
               else (case main_tick w val (ValOut out) (p\<lparr>pr_replica := r\<rparr>) of Inl e \<Rightarrow> None | Inr p' \<Rightarrow> Some p')
           | _ \<Rightarrow> None))"

lemma process_drive_run:
  assumes "process_drive w val s (Transport_new (my_id w) pk) = Some p'" and w: "reorder (\<lambda>xs. xs) (\<lambda>xs. xs) w = w"
  shows "process_run w K pk 1 s val p'"
proof -
  let ?id = "\<lambda>xs. xs" and ?t = "Transport_new (my_id w) pk"
  obtain p r out where p: "process_start (reorder ?id ?id w) 1 s ?t = Inr p" and nd: "\<not> node_done w r"
    and r: "worker_step w val (pr_replica p) = Some (r, Inr out)"
    and p': "main_tick (reorder ?id ?id w) val (ValOut out) (p\<lparr>pr_replica := r\<rparr>) = Inr p'"
    using assms by (auto simp: process_drive_def split: option.splits sum.splits if_splits)
  have outs: "pr_outs p = []" using p by (auto elim: process_start_Inr)
  have "process_run w K pk 1 s val p"
    by (rule process_run.start [OF rtranclp.rtrancl_refl _ iterates_id iterates_id p]) (simp add: peers_ready_def)
  then have "process_run w K pk 1 s val (p\<lparr>pr_replica := r, pr_outs := pr_outs p @ [out]\<rparr>)"
    by (rule process_run.work [OF _ r])
  moreover have "main_tick (reorder ?id ?id w) val (ValOut out) (p\<lparr>pr_replica := r, pr_outs := []\<rparr>) = Inr p'"
    using p' outs by (cases p) simp
  ultimately show ?thesis
    using process_run.outcome [OF _ _ iterates_id iterates_id, of w K pk 1 s val "p\<lparr>pr_replica := r, pr_outs := [out]\<rparr>" out "[]" p']
      nd p' outs by simp
qed

lemma sample_process:
  "\<exists>p. process_drive (sample_node sample_plat sample_workload) (Reexecute 0) s (Transport_new 0 7) = Some p \<and>
     last_executed_height (pr_replica p) = 0 \<and>
     (\<forall>nd. Known nd \<in> set (history (pr_replica p)) \<longrightarrow> nd = \<lparr>n_parent = 0, n_cmd = 48, n_height = 0\<rparr>)"
  by (simp add: run_defs sample_node_simps sample_files process_drive_def process_start_def main_tick_def boot_def
      worker_step_def count_txs.simps carry_out_def Transport_new_def cong: let_weak_cong and_then_weak_cong)

definition sample_args :: "Mode \<Rightarrow> Args" where
  "sample_args md =
     \<lparr>node_id = 0, speed = Slow, peers = [], port = 1895, mode = md, workload_name = ''w'', workloads_dir = [],
      slow_delay_per_tx_ns = 0, args_timeout_base_ms = 1000\<rparr>"

lemma sample_setup:
  "node_setup sample_plat (sample_args ModeReexecute) = Inr (sample_workload, [], 1, Reexecute 0, init_state (sample_args ModeReexecute) sample_workload)"
  "node_wiring sample_env sample_plat (sample_args ModeReexecute) 7 sample_workload = sample_node sample_plat sample_workload"
  by (simp_all add: node_setup_def Workload_load_def sample_plat_def sample_workload_def sample_args_def build_validator_def
      this_node_reexecutes_def peer_hosts_def num_replicas_def node_wiring_def sample_node_def sample_wiring_def)


end
