(* ===== verification/Fork.thy ===== *)
theory Fork
  imports Sample_Run
begin

text \<open>
  Why the agreement theorem leaves out votes in the receiver's own name: with them, one faulty
  replica out of four forks the chain, although every signature is authentic. The run is concrete
  and evaluated. Replica 3 is faulty. It has replicas 1 and 2 vote for a node in view 1, up to one
  COMMIT vote, and adds its own COMMIT vote and a forged one in the name of replica 0, the leader.
  Replica 0 decides the node without being locked on it. In view 2 the unlocked replicas 0 and 2
  vote for a conflicting node through all phases, and replica 2 decides that one.
\<close>

subsection \<open>An executable check of the messages\<close>

definition checked :: "u32 \<Rightarrow> u32 set \<Rightarrow> admission" where
  "checked n byz w keys H msg \<longleftrightarrow>
     list_all (\<lambda>i. i < n) (hm_keys keys) \<and>
     list_all (\<lambda>(i, mt, v, h, s). i \<in> byz \<or> Signed i mt v h \<in> set H \<or>
       (case hm_get keys i of None \<Rightarrow> True | Some pk \<Rightarrow> \<not> verify_vote_sig (env w) pk mt v h s)) (sig_claims msg)"

lemma checked_authentic: "checked n byz w keys H msg \<Longrightarrow> authentic n byz w keys H msg"
  by (fastforce simp: checked_def authentic_def keys_ok_def unforged_def replica_ids_def list_all_iff split: option.splits)

lemma net_step_mono:
  assumes "net_step adm n byz W val s s'" and "\<And>w keys H msg. adm w keys H msg \<Longrightarrow> adm' w keys H msg"
  shows "net_step adm' n byz W val s s'"
  using assms(1)
proof cases
  case (start i w f g)
  then show ?thesis using net_step.start by blast
next
  case (event i w f g keys ev)
  moreover from event have "deliverable adm' w keys (net_history s) ev" using assms(2) by (cases ev) auto
  ultimately show ?thesis using net_step.event [of i n byz s w f g W adm' keys ev val] by blast
qed

subsection \<open>The run\<close>

definition fork_keys :: "(u32, digest) hashmap" where
  "fork_keys = [(0, 7), (1, 8), (2, 9), (3, 10)]"

definition fork_qc :: "MsgType \<Rightarrow> u64 \<Rightarrow> digest \<Rightarrow> u32 list \<Rightarrow> QC" where
  "fork_qc mt v h ids =
     \<lparr>qc_msg_type = mt, qc_view = v, qc_node_hash = h,
      qc_sigs = map (\<lambda>i. (i, sign_vote sample_env (sk (sample_wiring i)) mt v h)) ids\<rparr>"

definition fork_vote :: "MsgType \<Rightarrow> u64 \<Rightarrow> digest \<Rightarrow> u32 \<Rightarrow> Wire" where
  "fork_vote mt v h i = Vote mt v h i (sign_vote sample_env (sk (sample_wiring i)) mt v h)"

definition fork_outcome :: "digest \<Rightarrow> u64 \<Rightarrow> ValidateOutcome" where
  "fork_outcome h k =
     \<lparr>out_node_hash = h, out_height = k, out_valid = True,
      out_post_state = Some (fst (apply_block sample_state [\<lparr>tx_from = 0, tx_to = 1, tx_amount = 5\<rparr>])),
      out_post_root = None, out_pre_root = None\<rparr>"

definition to :: "u32 \<Rightarrow> Wire \<Rightarrow> action" where
  "to i msg = Handle i fork_keys (Inbox msg)"

definition fork_x :: Node where "fork_x = \<lparr>n_parent = 0, n_cmd = 48, n_height = 0\<rparr>"
definition fork_y :: Node where "fork_y = \<lparr>n_parent = 0, n_cmd = 49, n_height = 1\<rparr>"

definition fork_view1 :: "action list" where
  "fork_view1 =
     [Boot 0, Boot 1, Boot 2,
      to 1 (Proposal 1 fork_x None 0), to 2 (Proposal 1 fork_x None 0),
      Handle 1 fork_keys (ValOut (fork_outcome 49 0)), Handle 2 fork_keys (ValOut (fork_outcome 49 0)),
      to 1 (PhaseQc PreCommit 1 (fork_qc Prepare 1 49 [1, 2, 3]) 0), to 2 (PhaseQc PreCommit 1 (fork_qc Prepare 1 49 [1, 2, 3]) 0),
      to 1 (PhaseQc Commit 1 (fork_qc PreCommit 1 49 [1, 2, 3]) 0),
      to 0 (fork_vote Commit 1 49 1), to 0 (fork_vote Commit 1 49 3), to 0 (Vote Commit 1 49 0 [])]"

definition fork_view2 :: "action list" where
  "fork_view2 =
     [Handle 2 fork_keys (Timer \<lparr>evt_view = 1\<rparr>),
      to 0 (Proposal 2 fork_y None 1), to 2 (Proposal 2 fork_y None 1),
      Handle 0 fork_keys (ValOut (fork_outcome 51 1)), Handle 2 fork_keys (ValOut (fork_outcome 51 1)),
      to 0 (PhaseQc PreCommit 2 (fork_qc Prepare 2 51 [0, 2, 3]) 1), to 2 (PhaseQc PreCommit 2 (fork_qc Prepare 2 51 [0, 2, 3]) 1),
      to 0 (PhaseQc Commit 2 (fork_qc PreCommit 2 51 [0, 2, 3]) 1), to 2 (PhaseQc Commit 2 (fork_qc PreCommit 2 51 [0, 2, 3]) 1),
      to 2 (PhaseQc Decide 2 (fork_qc Commit 2 51 [0, 2, 3]) 1)]"

definition fork_start :: Network where
  "fork_start = net_init 4 sample_wiring (\<lambda>i. sample_state)"

definition forked :: "Network option \<Rightarrow> bool" where
  "forked s = (case s of None \<Rightarrow> False | Some s \<Rightarrow>
     49 \<in> set (decided_nodes (net_replicas s 0)) \<and> 51 \<in> set (decided_nodes (net_replicas s 2)) \<and>
     list_all (\<lambda>e. case e of Known nd \<Rightarrow> n_parent nd = 0 | _ \<Rightarrow> True) (net_history s))"

lemma fork_hash: "node_hash sample_env \<lparr>n_parent = 0, n_cmd = 49, n_height = 1\<rparr> = 51"
  by (simp add: node_hash_def sample_env_def sample_sha_def digest_bytes_def u64_le_def numeral_unfold)

lemmas message_defs = qc_claims_def handle_proposal_def qc_acceptable_def handle_phase_qc_def stage_qc_def
  handle_vote_def vote_admitted_def verify_qc_sync_def

lemmas fork_defs = fork_hash sample_sig checked_def fork_keys_def fork_qc_def fork_vote_def fork_outcome_def
  to_def fork_x_def fork_y_def fork_view1_def fork_view2_def fork_start_def forked_def

lemma fork_run:
  "forked (perform_all (checked 4 {3}) 4 {3} sample_wiring (\<lambda>i. Reexecute 0) (fork_view1 @ fork_view2) fork_start)"
  by (simp add: run_defs message_defs fork_defs cong: let_weak_cong and_then_weak_cong)

lemma siblings_unrelated:
  assumes "\<And>nd. Known nd \<in> set H \<Longrightarrow> n_parent nd = p" and "h' \<noteq> p" and "h \<noteq> h'"
  shows "(h, h') \<notin> (parent_rel E H)\<^sup>*"
proof
  assume "(h, h') \<in> (parent_rel E H)\<^sup>*"
  then obtain k where "(k, h') \<in> parent_rel E H" using assms(3) by (auto elim: rtranclE)
  then show False using assms(1,2) by (auto simp: parent_rel_def)
qed

text \<open>
  \<^bold>\<open>C8\<close>. The exclusion in the agreement theorem is needed: with four replicas, one of them faulty,
  and only authentic signatures, the network reaches a state in which two correct replicas have
  decided conflicting nodes, because a leader counts a vote in its own name without checking it.
\<close>

theorem self_vote_fork:
  "\<exists>s. net_reachable (authentic 4 {3}) 4 {3} sample_wiring (\<lambda>i. Reexecute 0) (\<lambda>i. sample_state) s \<and>
     faults_ok 4 {3} \<and> wired sample_wiring sample_env \<and> 49 \<in> decided s 0 \<and> 51 \<in> decided s 2 \<and>
     (49, 51) \<notin> (parent_rel sample_env (net_history s))\<^sup>* \<and> (51, 49) \<notin> (parent_rel sample_env (net_history s))\<^sup>*"
proof -
  obtain s where run: "perform_all (checked 4 {3}) 4 {3} sample_wiring (\<lambda>i. Reexecute 0) (fork_view1 @ fork_view2)
      (net_init 4 sample_wiring (\<lambda>i. sample_state)) = Some s"
    and dec: "49 \<in> decided s 0" "51 \<in> decided s 2"
    and known: "list_all (\<lambda>e. case e of Known nd \<Rightarrow> n_parent nd = 0 | _ \<Rightarrow> True) (net_history s)"
    using fork_run by (auto simp: forked_def fork_start_def decided_def split: option.splits)
  have "net_reachable (checked 4 {3}) 4 {3} sample_wiring (\<lambda>i. Reexecute 0) (\<lambda>i. sample_state) s"
    by (rule perform_all_reachable [OF run]) (simp add: net_reachable_def)
  then have "net_reachable (authentic 4 {3}) 4 {3} sample_wiring (\<lambda>i. Reexecute 0) (\<lambda>i. sample_state) s"
    unfolding net_reachable_def
    by (rule rtranclp_mono [THEN predicate2D, rotated]) (auto intro: net_step_mono checked_authentic)
  moreover have "faults_ok 4 {3}" and "wired sample_wiring sample_env"
    by (simp_all add: faults_ok_def wired_def sample_wiring_def replica_ids_def max_faulty_def)
  moreover have "n_parent nd = 0" if "Known nd \<in> set (net_history s)" for nd
    using known that by (auto simp: list_all_iff)
  then have "(49, 51) \<notin> (parent_rel sample_env (net_history s))\<^sup>*" "(51, 49) \<notin> (parent_rel sample_env (net_history s))\<^sup>*"
    by (rule siblings_unrelated; simp)+
  ultimately show ?thesis using dec by blast
qed

end
