(* ===== verification/Spec2Isabelle.thy ===== *)
theory Spec2Isabelle
  imports Witnesses Fork
begin

text \<open>
  \<^bold>\<open>Verification of a HotStuff node with proof-based block validation.\<close>

  \<^bold>\<open>The program.\<close> A ledger of account balances (\<^verbatim>\<open>crates/ledger-core\<close>) is advanced block by
  block. A generator (\<^verbatim>\<open>zkvm/script/src/bin/network.rs\<close>, with the benchmark \<^verbatim>\<open>main.rs\<close> beside
  it) writes a workload to disk: transactions, roots and a zero-knowledge proof of each block, made
  by running the guest program (\<^verbatim>\<open>zkvm/program\<close>) on \<^verbatim>\<open>apply_block\<close>. A replay tool
  (\<^verbatim>\<open>node/run-workload\<close>) checks a workload. The consensus nodes (\<^verbatim>\<open>node/consensus-node\<close>)
  agree on the blocks with Basic HotStuff; before it votes, a node validates a block, either by
  re-executing it or by verifying its proof. A node is one event loop over messages, timers and
  validation outcomes: a handler updates the replica state, then every rule is tried, and what the
  rules emit goes to the transport.

  \<^bold>\<open>The model, bottom up.\<close>
  \<^item> \<open>Prelude\<close>, \<open>Collections\<close>: integer and byte helpers, \<^verbatim>\<open>str::split\<close>; \<^verbatim>\<open>BTreeMap\<close> as a sorted and
    \<^verbatim>\<open>HashMap\<close> as an unordered association list, both instances of the locale \<open>dict\<close>. Where the code
    walks a hash map the order comes from a parameter, any permutation of the keys.
  \<^item> \<open>Ledger\<close> (\<^verbatim>\<open>ledger-core/src/lib.rs\<close>, \<^verbatim>\<open>zkvm/program/src/main.rs\<close>): state, \<^verbatim>\<open>apply_block\<close>, Merkle root,
    transaction hash, guest program.
  \<^item> \<open>Messages\<close>, \<open>Replica_State\<close>, \<open>Quorum_Cert\<close>, \<open>Workload\<close>, \<open>Validator\<close>: the files of these names of the
    node, one definition per function, records for structs, datatypes for enums.
  \<^item> \<open>Replica\<close>: the state one step works on. It is \<^verbatim>\<open>ReplicaState\<close> with the ledger, the root, the effects
    emitted, the queue of the validator and a history variable that no step reads.
  \<^item> \<open>Execute\<close>, \<open>Handlers\<close>, \<open>Rules\<close> (\<^verbatim>\<open>consensus/execute.rs\<close>, \<^verbatim>\<open>handlers.rs\<close>, \<^verbatim>\<open>rules.rs\<close>, \<^verbatim>\<open>mod.rs\<close>): every
    function of the consensus module; a step ends in \<open>Ok\<close> or \<open>Panicked\<close>.
  \<^item> \<open>Node_Main\<close>, \<open>Transport\<close>, \<open>Node_Process\<close>, \<open>Logging\<close> (\<^verbatim>\<open>main.rs\<close>, \<^verbatim>\<open>network.rs\<close>, \<^verbatim>\<open>logging.rs\<close>): arguments and set-up,
    the event loop and its worker; frames, handshake, connections, sends and timers; the process
    that joins them; the log line.
  \<^item> \<open>Generator\<close>, \<open>Run_Workload\<close>: the workload tools, on an explicit disk.

  \<^bold>\<open>What is shown.\<close>
  \<^item> Consensus. \<open>Vote_History\<close> proves agreement for legal histories of votes, an abstract
    specification of the voting rules. \<open>Safety\<close> proves that the code of one replica only makes legal
    histories (one lemma per handler and rule, collected by the locales \<open>bystander\<close> and \<open>protocol_rule\<close>), and \<open>Agreement\<close> lifts this
    to a network of replicas and an adversary: \<open>agreement\<close>, \<open>no_equivocation\<close>. \<open>Fork\<close> shows that its
    assumption on votes in the receiver's own name cannot be dropped.
  \<^item> Execution. \<open>Execution\<close> states in two locales what a validation mode owes the consensus code
    and derives an invariant of all runs of a node; \<open>Reexecution\<close> and \<open>Proof_Chain\<close> interpret it:
    a node's ledger, or its root, is that of the executed prefix of the workload, and each height is
    executed once and in order. \<open>Node_Process\<close> shows that the process with its channels refines these
    runs and that its transaction counter is exact. \<open>Replication\<close> interprets the locale once more, for
    any mode, and joins it with agreement: no two correct replicas execute different nodes at one
    height (\<open>execution_agreement\<close>).
  \<^item> Progress. \<open>Liveness\<close>: a leader with a quorum of new views proposes and the replicas vote, a
    quorum of votes leads to the next vote, the timeouts double, the walk over parent links ends.
    \<open>Input_Gaps\<close>: what unchecked input can do (votes, heights).
  \<^item> Ledger and tools. \<^verbatim>\<open>apply_block\<close> refines an unbounded ledger and conserves the supply, the root
    is the Merkle root and binds the balances, generated workloads replay, accepted workloads are
    sound. The theorems below join the parts: both modes reach the same root, and no money is made.
  \<^item> \<open>Sample\<close>, \<open>Sample_Run\<close>, \<open>Sample_Tools\<close>, \<open>Witnesses\<close>: concrete instances of every property with
    hypotheses.

  \<^bold>\<open>Parameters and their laws.\<close> SHA-256, bincode, ed25519, hex, JSON, the file system and the SP1
  prover are fields of the records \<open>Externals\<close>, \<open>Platform\<close>, \<open>Toolchain\<close> and \<open>WireCodec\<close>. What a theorem needs
  of them is a named hypothesis: hash maps are walked in some order (\<open>iterates\<close>), signatures of
  correct replicas are not forged (\<open>authentic\<close>), encoders are inverted by their decoders and the
  prover is complete (\<open>codec_ok\<close>, \<open>tools_ok\<close>), the verifier is sound. Binding theorems say
  equal or a collision. The execution theorems assume \<open>nodes_ok\<close>: the stored nodes have distinct
  hashes and consecutive heights, which the leader rule produces and the handlers do not check.

  \<^bold>\<open>Integers, bounds and fuel.\<close> Machine integers are words and wrap as in a release build. The walk
  over parent links carries one unit of fuel per stored node and one more; \<open>chain_walk_terminates\<close>
  shows this is enough in every run. The bound of \<^verbatim>\<open>extends_from\<close> is the one in the source. The
  agreement theorem is about runs whose view counters stay two below \<open>2 ^ 64\<close>.

  \<^bold>\<open>Not modelled.\<close> The command-line parser, sockets below the byte stream, sleeping and the clock
  (elapsed times and throughput are left out of outcomes, log fields and summaries), lines printed
  to standard error, the interleaving of single sends, which the source starts as tasks, and the vkey
  tool and build script, which only call the SP1 SDK.
\<close>

section \<open>Properties that span components\<close>

lemma init_state_generated:
  "this_node_reexecutes a \<Longrightarrow>
     init_state a wl = generate_initial_state (num_accounts (wl_manifest wl)) (initial_balance (wl_manifest wl))"
  by (simp add: init_state_def generate_initial_state_def)

lemma replay_supply:
  assumes "state_ok s0" and "total_supply s0 < 2 ^ 64" and "replay P wl s0 k = Some s"
  shows "state_ok s \<and> total_supply s = total_supply s0"
  using assms(3)
proof (induction k arbitrary: s)
  case (Suc k)
  then obtain s1 txs where "replay P wl s0 k = Some s1" "s = fst (apply_block s1 txs)"
    by (auto simp: replay.simps(2) split: option.splits)
  then show ?case
    using Suc.IH assms(2) by (simp add: apply_block_def apply_txs_ok apply_txs_supply)
qed (use assms in simp)



subsection \<open>Instances\<close>

lemma sample_gen_block:
  assumes "gen_main sample_tools sample_gen_args Map.empty = Inr (s, d')"
    and P: "P = Platform.truncate (on_disk sample_tools d')" and wl: "wl = gen_workload sample_gen_args"
  obtains b tb txs pb pf c where "Workload_load P [''w''] = Inr wl" and "block P wl 0 = Inr b"
    and "fs_read P (b_txs_path b) = Some tb" and "de_txs P tb = Some txs"
    and "fs_read P (b_proof_path b) = Some pb" and "de_proof P pb = Some pf" and "sp1_verify P pf [7]"
    and "read_public_values P pf = Some c"
    and "fs_read P (elf_path wl) = Some [7]" and "sp1_setup P [7] = Some [7]"
proof -
  have args: "ga_dir sample_gen_args = [''w'']" "ga_resume_from sample_gen_args = 0"
    "unat (ga_num_blocks sample_gen_args) = 2" "ledger_elf sample_tools = [7]" "elf_file sample_gen_args = elf_path wl"
    by (simp_all add: sample_gen_args_def sample_tools_def elf_file_def elf_path_def wl gen_workload_def)
  obtain vk where load: "Workload_load P [''w''] = Inr wl" and elf: "fs_read P (elf_path wl) = Some [7]" "sp1_setup P [7] = Some vk"
    and one: "\<And>k. 0 < k \<Longrightarrow> k \<le> 2 \<Longrightarrow> \<exists>sk. replay P wl (gen_initial sample_gen_args) k = Some sk \<and>
      compute_state_root (tool_sha sample_tools) sk \<noteq> None \<and> chain_root P wl vk k = compute_state_root (tool_sha sample_tools) sk"
    by (rule gen_main_on_disk [OF assms(1) args(2) sample_codec_ok P, unfolded args wl [symmetric]]) blast
  have vk: "vk = [7]" using elf(2) by (simp add: P sample_tools_def Platform.truncate_def)
  have "block_txs P wl 0 \<noteq> None" "proof_commit P wl [7] 0 \<noteq> None"
    using one [of 1] vk by (auto simp: replay.simps(2) [of _ _ _ 0, simplified] chain_root.simps(2) [of _ _ _ 0, simplified]
        split: option.splits)
  then show ?thesis
    using that [OF load] elf vk
    by (auto simp: block_txs_def proof_commit_def split: option.splits sum.splits if_splits)
qed



end
